(* ===== verification/Lint_Prelude.thy ===== *)
theory Lint_Prelude
  imports Main "HOL-Library.Sublist"
begin

text \<open>
  Shared ground of the development: the theorem collections, the generic facts on
  lists, options and maps that several components use, and two interfaces that more
  than one component implements.  \<open>transition_system\<close> is the invariant argument of
  every state machine of the server; \<open>bounded_counter\<close> is the contract of every
  counting limit (lint admission, worker slots, upload slots).
\<close>

named_theorems go_defs "definitions of the modelled Go standard library functions"
named_theorems go_string "facts about the modelled string functions"
named_theorems step_inv "one-step preservation of component invariants"

section \<open>Results\<close>

text \<open>
  A Go function that returns \<open>(v, error)\<close> is a sum: \<open>Inl\<close> is the error.
\<close>

definition is_ok :: "'e + 'a \<Rightarrow> bool" where
  "is_ok r = (case r of Inl _ \<Rightarrow> False | Inr _ \<Rightarrow> True)"

lemma is_ok_simps [simp]: "is_ok (Inr v)" "\<not> is_ok (Inl e)"
  by (simp_all add: is_ok_def)

lemma is_ok_iff: "is_ok r \<longleftrightarrow> (\<exists>v. r = Inr v)"
  by (cases r) auto

section \<open>Lists\<close>

lemma take_eq_length_le: "take n xs = ys \<Longrightarrow> length ys = n \<Longrightarrow> n \<le> length xs"
  by (metis length_take min.absorb_iff2 min.commute)

lemma sum_list_filter_le:
  fixes f :: "'a \<Rightarrow> int"
  shows "(\<And>x. x \<in> set xs \<Longrightarrow> 0 \<le> f x) \<Longrightarrow>
    sum_list (map f (filter P xs)) \<le> sum_list (map f xs)"
proof (induction xs)
  case (Cons x xs)
  then have "sum_list (map f (filter P xs)) \<le> sum_list (map f xs)" and "0 \<le> f x" by auto
  then show ?case by simp
qed simp

lemma distinct_map_filter_fst:
  "distinct (map fst xs) \<Longrightarrow> distinct (map fst (filter P xs))"
  by (induction xs) auto

lemma find_key_None: "find (\<lambda>x. f x = k) xs = None \<longleftrightarrow> k \<notin> f ` set xs"
  by (induction xs) auto

lemma find_key_distinct:
  "distinct (map f xs) \<Longrightarrow> x \<in> set xs \<Longrightarrow> find (\<lambda>y. f y = f x) xs = Some x"
  by (induction xs) (auto simp: image_iff)

lemma list_all_map_filter:
  "(\<And>x y. f x = Some y \<Longrightarrow> P y) \<Longrightarrow> list_all P (List.map_filter f xs)"
  by (induction xs) (auto simp: List.map_filter_def)

text \<open>
  How many entries of a list of thread states satisfy a predicate, and how that changes
  when one thread moves or a thread is added.
\<close>

definition tally :: "('a \<Rightarrow> bool) \<Rightarrow> 'a list \<Rightarrow> int" where
  "tally P xs = int (length (filter P xs))"

lemma tally_simps [simp]:
  "tally P [] = 0"
  "tally P (x # xs) = (if P x then 1 else 0) + tally P xs"
  "tally P (xs @ ys) = tally P xs + tally P ys"
  by (auto simp: tally_def)

lemma tally_nonneg [simp]: "0 \<le> tally P xs"
  by (simp add: tally_def)

lemma tally_update:
  "i < length xs \<Longrightarrow>
     tally P (xs[i := y]) = tally P xs - (if P (xs ! i) then 1 else 0) + (if P y then 1 else 0)"
proof (induction xs arbitrary: i)
  case (Cons x xs)
  then show ?case by (cases i) auto
qed simp

lemma tally_pos: "i < length xs \<Longrightarrow> P (xs ! i) \<Longrightarrow> 0 < tally P xs"
  by (auto simp: tally_def filter_empty_conv intro: nth_mem)

lemma tally_mono: "(\<And>x. P x \<Longrightarrow> Q x) \<Longrightarrow> tally P xs \<le> tally Q xs"
  by (induction xs) auto

text \<open>The sum of a measure over the threads, and how one thread's move changes it.\<close>

definition total :: "('a \<Rightarrow> int) \<Rightarrow> 'a list \<Rightarrow> int" where
  "total f xs = sum_list (map f xs)"

lemma total_simps [simp]:
  "total f [] = 0" "total f (x # xs) = f x + total f xs" "total f (xs @ ys) = total f xs + total f ys"
  by (auto simp: total_def)

lemma total_update: "i < length xs \<Longrightarrow> total f (xs[i := y]) = total f xs - f (xs ! i) + f y"
proof (induction xs arbitrary: i)
  case (Cons x xs)
  then show ?case by (cases i) auto
qed simp

lemma total_nonneg: "(\<And>x. x \<in> set xs \<Longrightarrow> 0 \<le> f x) \<Longrightarrow> 0 \<le> total f xs"
  by (induction xs) auto

lemma total_mono: "(\<And>x. x \<in> set xs \<Longrightarrow> f x \<le> g x) \<Longrightarrow> total f xs \<le> total g xs"
  by (induction xs) (auto intro: add_mono)

lemma total_diff: "total (\<lambda>x. f x - g x) xs = total f xs - total g xs"
  by (induction xs) auto

lemma total_cong: "(\<And>x. x \<in> set xs \<Longrightarrow> f x = g x) \<Longrightarrow> total f xs = total g xs"
  by (induction xs) auto

lemma total_zero: "total (\<lambda>_. 0) xs = 0"
  by (induction xs) auto

lemma total_if: "total (\<lambda>x. if P x then m else 0) xs = m * tally P xs"
  by (induction xs) (auto simp: algebra_simps)

lemma total_member: "(\<And>x. 0 \<le> f x) \<Longrightarrow> i < length xs \<Longrightarrow> f (xs ! i) \<le> total f xs"
proof (induction xs arbitrary: i)
  case (Cons x xs)
  have "0 \<le> total f xs" by (rule total_nonneg) (rule Cons.prems)
  with Cons show ?case by (cases i) (fastforce intro: order_trans)+
qed simp

lemma total_pos: "(\<And>x. 0 \<le> f x) \<Longrightarrow> 0 < total f xs \<longleftrightarrow> (\<exists>x \<in> set xs. 0 < f x)"
proof (induction xs)
  case (Cons x xs)
  have "0 \<le> total f xs" by (rule total_nonneg) (rule Cons.prems)
  with Cons show ?case by (metis add_nonneg_pos add_pos_nonneg less_add_same_cancel2
      list.set_intros(1) order_le_less set_ConsD list.set_intros(2) total_simps(2))
qed simp

section \<open>Transition systems and invariants\<close>

text \<open>
  A component's concurrency is a step relation; what holds initially and is kept by
  every step holds in every reachable state.
\<close>

inductive reaches :: "('s \<Rightarrow> 's \<Rightarrow> bool) \<Rightarrow> 's \<Rightarrow> 's \<Rightarrow> bool" for step where
  reaches_refl: "reaches step s s"
| reaches_step: "reaches step s t \<Longrightarrow> step t u \<Longrightarrow> reaches step s u"

lemma reaches_single: "step s t \<Longrightarrow> reaches step s t"
  by (rule reaches_step [OF reaches_refl])

lemma reaches_trans:
  assumes "reaches step t u" and "reaches step s t"
  shows "reaches step s u"
  using assms by (induction rule: reaches.induct) (auto intro: reaches_step)

locale transition_system =
  fixes start :: "'s \<Rightarrow> bool"
    and step :: "'s \<Rightarrow> 's \<Rightarrow> bool"
    and inv :: "'s \<Rightarrow> bool"
  assumes inv_start: "start s \<Longrightarrow> inv s"
    and inv_step: "inv s \<Longrightarrow> step s t \<Longrightarrow> inv t"
begin

lemma inv_reaches:
  assumes "reaches step s t" and "inv s"
  shows "inv t"
  using assms by (induction rule: reaches.induct) (auto intro: inv_step)

lemma inv_reachable: "start s \<Longrightarrow> reaches step s t \<Longrightarrow> inv t"
  using inv_reaches inv_start by blast

end

section \<open>Counting limits\<close>

text \<open>
  \<open>enter\<close> takes a place and fails when all are taken, \<open>leave\<close> returns one.
\<close>

locale bounded_counter =
  fixes enter :: "'s \<Rightarrow> 's option"
    and leave :: "'s \<Rightarrow> 's"
    and count :: "'s \<Rightarrow> int"
    and limit :: "'s \<Rightarrow> int"
  assumes enter_full: "enter s = None \<longleftrightarrow> limit s \<le> count s"
    and enter_count: "enter s = Some t \<Longrightarrow> count t = count s + 1"
    and enter_limit: "enter s = Some t \<Longrightarrow> limit t = limit s"
    and leave_count: "0 < count s \<Longrightarrow> count (leave s) = count s - 1"
    and leave_limit: "limit (leave s) = limit s"
begin

lemma enter_within: "count s \<le> limit s \<Longrightarrow> enter s = Some t \<Longrightarrow> count t \<le> limit t"
  using enter_full [of s] enter_count [of s t] enter_limit [of s t] by force

lemma enter_leave_count:
  "enter s = Some t \<Longrightarrow> 0 \<le> count s \<Longrightarrow> count (leave t) = count s"
  using enter_count [of s t] leave_count [of t] by simp

lemma leave_makes_room: "0 < count s \<Longrightarrow> count s \<le> limit s \<Longrightarrow> enter (leave s) \<noteq> None"
  using enter_full [of "leave s"] leave_count [of s] leave_limit [of s] by simp

end

section \<open>Tables of running operations\<close>

text \<open>
  \<open>track\<close> enters an operation started now under a fresh id, \<open>untrack\<close> removes it, and
  \<open>longest\<close> is how long the oldest one has been running (zero when there is none).
\<close>

definition longest_since :: "int \<Rightarrow> (nat \<times> int) list \<Rightarrow> int" where
  "longest_since now table = foldl (\<lambda>m p. max m (now - snd p)) 0 table"

lemma longest_since_le:
  "longest_since now table \<le> d \<longleftrightarrow> 0 \<le> d \<and> (\<forall>p \<in> set table. now - snd p \<le> d)"
proof -
  have "foldl (\<lambda>m p. max m (now - snd p)) m table \<le> d \<longleftrightarrow>
      m \<le> d \<and> (\<forall>p \<in> set table. now - snd p \<le> d)" for m
    by (induction table arbitrary: m) auto
  then show ?thesis by (simp add: longest_since_def)
qed

locale hold_table =
  fixes track :: "int \<Rightarrow> 's \<Rightarrow> nat \<times> 's"
    and untrack :: "nat \<Rightarrow> 's \<Rightarrow> 's"
    and table :: "'s \<Rightarrow> (nat \<times> int) list"
    and fresh :: "'s \<Rightarrow> bool"
    and longest :: "int \<Rightarrow> 's \<Rightarrow> int"
  assumes track_table: "fresh s \<Longrightarrow> track now s = (i, t) \<Longrightarrow> table t = (i, now) # table s"
    and track_fresh: "fresh s \<Longrightarrow> track now s = (i, t) \<Longrightarrow> i \<notin> fst ` set (table s) \<and> fresh t"
    and untrack_table: "table (untrack i s) = filter (\<lambda>p. fst p \<noteq> i) (table s)"
    and untrack_fresh: "fresh s \<Longrightarrow> fresh (untrack i s)"
    and longest_def: "longest now s = longest_since now (table s)"
begin

lemma overdue_iff:
  "0 \<le> d \<Longrightarrow> d < longest now s \<longleftrightarrow> (\<exists>p \<in> set (table s). d < now - snd p)"
  using longest_since_le [of now "table s" d] by (auto simp: longest_def not_le [symmetric])

lemma longest_idle: "table s = [] \<Longrightarrow> longest now s = 0"
  by (simp add: longest_def longest_since_def)

lemma untrack_track:
  assumes "fresh s" and "track now s = (i, t)"
  shows "table (untrack i t) = table s"
proof -
  have "i \<notin> fst ` set (table s)" using track_fresh [OF assms] by simp
  then have "filter (\<lambda>p. fst p \<noteq> i) (table s) = table s"
    by (auto simp: filter_id_conv)
  then show ?thesis by (simp add: untrack_table track_table [OF assms])
qed

end

end
