(* ===== verification/Go_Strings.thy ===== *)
theory Go_Strings
  imports Lint_Prelude
begin

text \<open>
  The functions of Go's \<open>strings\<close> and \<open>bytes\<close> packages the program calls, on byte
  strings (a Go string is a byte sequence, a HOL \<open>char\<close> is a byte).  Arguments come in
  the order of the Go function: the string first.
\<close>

section \<open>Prefixes and suffixes\<close>

definition has_prefix :: "string \<Rightarrow> string \<Rightarrow> bool" where
  "has_prefix s p \<longleftrightarrow> take (length p) s = p"

definition trim_prefix :: "string \<Rightarrow> string \<Rightarrow> string" where
  "trim_prefix s p = (if has_prefix s p then drop (length p) s else s)"

definition cut_prefix :: "string \<Rightarrow> string \<Rightarrow> string \<times> bool" where
  "cut_prefix s p = (if has_prefix s p then (drop (length p) s, True) else (s, False))"

definition has_suffix :: "string \<Rightarrow> string \<Rightarrow> bool" where
  "has_suffix s p \<longleftrightarrow> has_prefix (rev s) (rev p)"

definition trim_suffix :: "string \<Rightarrow> string \<Rightarrow> string" where
  "trim_suffix s p = (if has_suffix s p then take (length s - length p) s else s)"

lemma has_prefix_iff [go_string]: "has_prefix s p \<longleftrightarrow> prefix p s"
  by (auto simp: has_prefix_def prefix_def) (metis append_take_drop_id)

lemma has_suffix_iff [go_string]: "has_suffix s p \<longleftrightarrow> suffix p s"
  by (simp add: has_suffix_def has_prefix_iff suffix_to_prefix)

lemma trim_prefix_append [simp]: "trim_prefix (p @ s) p = s"
  by (simp add: trim_prefix_def has_prefix_def)

section \<open>Splitting at a byte\<close>

text \<open>\<open>strings.Split(s, sep)\<close> for a one-byte separator: always at least one piece.\<close>

fun split_on :: "char \<Rightarrow> string \<Rightarrow> string list" where
  "split_on c [] = [[]]"
| "split_on c (x # xs) =
     (if x = c then [] # split_on c xs
      else (x # hd (split_on c xs)) # tl (split_on c xs))"

text \<open>Joining with a one-byte separator (\<open>strings.Join\<close>).\<close>

fun join_with :: "char \<Rightarrow> string list \<Rightarrow> string" where
  "join_with c [] = []"
| "join_with c [s] = s"
| "join_with c (s # t # ss) = s @ c # join_with c (t # ss)"

text \<open>\<open>strings.Cut(s, sep)\<close> for a one-byte separator: before, after, found.\<close>

definition cut_at :: "char \<Rightarrow> string \<Rightarrow> string \<times> string \<times> bool" where
  "cut_at c s =
     (if c \<in> set s then (takeWhile (\<lambda>x. x \<noteq> c) s, tl (dropWhile (\<lambda>x. x \<noteq> c) s), True)
      else (s, [], False))"

lemma split_on_not_Nil [simp]: "split_on c s \<noteq> []"
  by (cases s) auto

lemma split_on_no_sep: "seg \<in> set (split_on c s) \<Longrightarrow> c \<notin> set seg"
proof (induction s arbitrary: seg)
  case (Cons x xs)
  have "hd (split_on c xs) \<in> set (split_on c xs)" by simp
  with Cons show ?case by (auto split: if_splits dest: list.set_sel(2) [rotated])
qed simp

lemma split_on_plain: "c \<notin> set s \<Longrightarrow> split_on c s = [s]"
  by (induction s) auto

lemma split_on_append: "c \<notin> set s \<Longrightarrow> split_on c (s @ c # t) = s # split_on c t"
  by (induction s) auto

lemma join_with_Cons: "ss \<noteq> [] \<Longrightarrow> join_with c (s # ss) = s @ c # join_with c ss"
  by (cases ss) auto

lemma join_with_hd_tl:
  "ss \<noteq> [] \<Longrightarrow> join_with c ((x # hd ss) # tl ss) = x # join_with c ss"
  by (cases ss; cases "tl ss") auto

lemma join_split: "join_with c (split_on c s) = s"
  by (induction s) (auto simp: join_with_Cons join_with_hd_tl)

lemma split_join:
  "ss \<noteq> [] \<Longrightarrow> \<forall>s \<in> set ss. c \<notin> set s \<Longrightarrow> split_on c (join_with c ss) = ss"
  by (induction c ss rule: join_with.induct) (auto simp: split_on_append split_on_plain)

lemma join_with_append:
  "xs \<noteq> [] \<Longrightarrow> ys \<noteq> [] \<Longrightarrow> join_with c (xs @ ys) = join_with c xs @ c # join_with c ys"
proof (induction xs)
  case (Cons x xs)
  then show ?case by (cases "xs = []") (auto simp: join_with_Cons)
qed simp

lemma join_with_inj:
  assumes "join_with c xs = join_with c ys" and "xs \<noteq> []" and "ys \<noteq> []"
    and "\<forall>s \<in> set xs. c \<notin> set s" and "\<forall>s \<in> set ys. c \<notin> set s"
  shows "xs = ys"
  using assms split_join by metis

lemma cut_at_fst: "fst (cut_at c s) = hd (split_on c s)"
  by (induction s) (auto simp: cut_at_def split: if_splits)

section \<open>Trimming white space\<close>

text \<open>
  The UTF-8 encodings of Unicode's White\_Space code points (\<open>unicode.IsSpace\<close>):
  six ASCII bytes, U+0085, U+00A0, U+1680, U+2000 to U+200A, U+2028, U+2029, U+202F,
  U+205F and U+3000.
\<close>

definition ascii_space :: "char list" where
  "ascii_space = map char_of [9::nat, 10, 11, 12, 13, 32]"

definition space_seqs :: "string list" where
  "space_seqs =
     map (\<lambda>c. [c]) ascii_space @
     map (map char_of) ([[194::nat, 133], [194, 160], [225, 154, 128]] @
       map (\<lambda>k. [226, 128, k]) ([128 ..< 139] @ [168, 169, 175]) @
       [[226, 129, 159], [227, 128, 128]])"

definition strip_one :: "string list \<Rightarrow> string \<Rightarrow> string option" where
  "strip_one qs s =
     (case filter (\<lambda>q. q \<noteq> [] \<and> has_prefix s q) qs of
        [] \<Rightarrow> None
      | q # _ \<Rightarrow> Some (drop (length q) s))"

lemma strip_one_shorter: "strip_one qs s = Some r \<Longrightarrow> length r < length s"
  by (auto simp: strip_one_def has_prefix_iff prefix_def filter_eq_Cons_iff
      split: list.splits)

function strip_all :: "string list \<Rightarrow> string \<Rightarrow> string" where
  "strip_all qs s = (case strip_one qs s of None \<Rightarrow> s | Some r \<Rightarrow> strip_all qs r)"
  by pat_completeness auto
termination
  by (relation "measure (\<lambda>(qs, s). length s)") (auto simp: strip_one_shorter)

declare strip_all.simps [simp del]

definition trim_space :: "string \<Rightarrow> string" where
  "trim_space s =
     rev (strip_all (map rev space_seqs) (rev (strip_all space_seqs s)))"

lemma strip_all_suffix: "suffix (strip_all qs s) s"
proof (induction qs s rule: strip_all.induct)
  case (1 qs s)
  show ?case
  proof (cases "strip_one qs s")
    case None
    then show ?thesis by (simp add: strip_all.simps [of qs s])
  next
    case (Some r)
    then have "suffix r s"
      by (auto simp: strip_one_def suffix_drop split: list.splits)
    with "1" [OF Some] Some show ?thesis
      by (simp add: strip_all.simps [of qs s] suffix_order.order_trans)
  qed
qed

lemma trim_space_sublist: "sublist (trim_space s) s"
proof -
  have "prefix (trim_space s) (strip_all space_seqs s)"
    using strip_all_suffix [of "map rev space_seqs" "rev (strip_all space_seqs s)"]
    by (simp add: trim_space_def suffix_to_prefix)
  then show ?thesis
    using strip_all_suffix [of space_seqs s]
    by (meson prefix_imp_sublist sublist_order.order_trans suffix_imp_sublist)
qed

lemma trim_space_length: "length (trim_space s) \<le> length s"
  by (rule sublist_length_le [OF trim_space_sublist])

text \<open>\<open>bytes.TrimRight(b, cutset)\<close> for a set of bytes.\<close>

definition trim_right :: "char set \<Rightarrow> string \<Rightarrow> string" where
  "trim_right cs s = rev (dropWhile (\<lambda>c. c \<in> cs) (rev s))"

end
