(* ===== verification/Go_Regexp.thy ===== *)
theory Go_Regexp
  imports Go_Strings
begin

text \<open>
  Go's \<open>regexp\<close> for the patterns the program compiles: sequences, alternatives,
  optional groups, captures and repetitions of one character class.  \<open>re_run\<close> is the
  leftmost-first (backtracking order) search that fixes which submatches are reported;
  \<open>re_lang\<close> is the language, and \<open>re_run_lang\<close> says that the search succeeds exactly on
  it.  Every pattern is byte based: the classes and literals they mention are ASCII, so
  a multi-byte rune is matched one byte at a time by the negated classes and by the dot.
\<close>

datatype re =
    Eps
  | Lit string
  | Rep "char \<Rightarrow> bool" nat "nat option"   \<comment> \<open>greedy, at least and at most\<close>
  | Lazy "char \<Rightarrow> bool"                  \<comment> \<open>\<open>*?\<close>\<close>
  | Seq re re
  | Alt re re
  | Opt re                               \<comment> \<open>greedy \<open>?\<close>\<close>
  | Cap nat re

type_synonym caps = "nat \<Rightarrow> string option"

section \<open>Repetition bounds\<close>

fun within_hi :: "nat option \<Rightarrow> nat \<Rightarrow> bool" where
  "within_hi None n \<longleftrightarrow> True"
| "within_hi (Some h) n \<longleftrightarrow> n \<le> h"

fun dec_hi :: "nat option \<Rightarrow> nat option" where
  "dec_hi None = None"
| "dec_hi (Some h) = Some (h - 1)"

lemma within_hi_Suc: "within_hi hi (Suc n) \<longleftrightarrow> hi \<noteq> Some 0 \<and> within_hi (dec_hi hi) n"
  by (cases hi) auto

lemma within_hi_0 [simp]: "within_hi hi 0"
  by (cases hi) auto

section \<open>The search\<close>

fun rep_run :: "(char \<Rightarrow> bool) \<Rightarrow> nat \<Rightarrow> nat option \<Rightarrow> string \<Rightarrow>
    (string \<Rightarrow> 'r option) \<Rightarrow> 'r option" where
  "rep_run P lo hi [] k = (if lo = 0 then k [] else None)"
| "rep_run P lo hi (x # xs) k =
     (if P x \<and> hi \<noteq> Some 0
      then (case rep_run P (lo - 1) (dec_hi hi) xs k of
              Some r \<Rightarrow> Some r
            | None \<Rightarrow> if lo = 0 then k (x # xs) else None)
      else if lo = 0 then k (x # xs) else None)"

fun lazy_run :: "(char \<Rightarrow> bool) \<Rightarrow> string \<Rightarrow> (string \<Rightarrow> 'r option) \<Rightarrow> 'r option" where
  "lazy_run P [] k = k []"
| "lazy_run P (x # xs) k =
     (case k (x # xs) of
        Some r \<Rightarrow> Some r
      | None \<Rightarrow> if P x then lazy_run P xs k else None)"

primrec re_run :: "re \<Rightarrow> string \<Rightarrow> caps \<Rightarrow> (string \<Rightarrow> caps \<Rightarrow> 'r option) \<Rightarrow> 'r option" where
  "re_run Eps s c k = k s c"
| "re_run (Lit l) s c k = (if has_prefix s l then k (drop (length l) s) c else None)"
| "re_run (Rep P lo hi) s c k = rep_run P lo hi s (\<lambda>t. k t c)"
| "re_run (Lazy P) s c k = lazy_run P s (\<lambda>t. k t c)"
| "re_run (Seq a b) s c k = re_run a s c (\<lambda>t d. re_run b t d k)"
| "re_run (Alt a b) s c k =
     (case re_run a s c k of Some r \<Rightarrow> Some r | None \<Rightarrow> re_run b s c k)"
| "re_run (Opt a) s c k =
     (case re_run a s c k of Some r \<Rightarrow> Some r | None \<Rightarrow> k s c)"
| "re_run (Cap n a) s c k =
     re_run a s c (\<lambda>t d. k t (d(n \<mapsto> take (length s - length t) s)))"

text \<open>An anchored pattern \<open>^r$\<close>, and \<open>FindSubmatch\<close> of an unanchored one.\<close>

definition re_full :: "re \<Rightarrow> string \<Rightarrow> caps option" where
  "re_full r s = re_run r s Map.empty (\<lambda>t c. if t = [] then Some c else None)"

definition re_matches :: "re \<Rightarrow> string \<Rightarrow> bool" where
  "re_matches r s \<longleftrightarrow> re_full r s \<noteq> None"

fun re_search :: "re \<Rightarrow> string \<Rightarrow> caps option" where
  "re_search r [] = re_run r [] Map.empty (\<lambda>t c. Some c)"
| "re_search r (x # xs) =
     (case re_run r (x # xs) Map.empty (\<lambda>t c. Some c) of
        Some c \<Rightarrow> Some c
      | None \<Rightarrow> re_search r xs)"

text \<open>A submatch that took no part in the match is the empty string, as in Go.\<close>

definition submatch :: "caps \<Rightarrow> nat \<Rightarrow> string" where
  "submatch c n = (case c n of None \<Rightarrow> [] | Some s \<Rightarrow> s)"

section \<open>The language\<close>

primrec re_lang :: "re \<Rightarrow> string \<Rightarrow> bool" where
  "re_lang Eps s \<longleftrightarrow> s = []"
| "re_lang (Lit l) s \<longleftrightarrow> s = l"
| "re_lang (Rep P lo hi) s \<longleftrightarrow>
     list_all P s \<and> lo \<le> length s \<and> within_hi hi (length s)"
| "re_lang (Lazy P) s \<longleftrightarrow> list_all P s"
| "re_lang (Seq a b) s \<longleftrightarrow> (\<exists>u v. s = u @ v \<and> re_lang a u \<and> re_lang b v)"
| "re_lang (Alt a b) s \<longleftrightarrow> re_lang a s \<or> re_lang b s"
| "re_lang (Opt a) s \<longleftrightarrow> s = [] \<or> re_lang a s"
| "re_lang (Cap n a) s \<longleftrightarrow> re_lang a s"

text \<open>Whether a search found something, kept opaque to the option splitter.\<close>

definition hit :: "'r option \<Rightarrow> bool" where
  "hit x \<longleftrightarrow> x \<noteq> None"

lemma hit_simps [simp]:
  "hit (Some x)" "\<not> hit None"
  "hit (case a of None \<Rightarrow> b | Some r \<Rightarrow> Some r) \<longleftrightarrow> hit a \<or> hit b"
  "hit (if c then a else b) \<longleftrightarrow> (if c then hit a else hit b)"
  by (auto simp: hit_def split: option.splits)

lemma split_Cons_prefix:
  "(\<exists>u v. x # xs = u @ v \<and> Q u v) \<longleftrightarrow> Q [] (x # xs) \<or> (\<exists>u v. xs = u @ v \<and> Q (x # u) v)"
  by (auto simp: Cons_eq_append_conv)

lemma rep_run_lang:
  "hit (rep_run P lo hi s k) \<longleftrightarrow>
     (\<exists>u v. s = u @ v \<and> list_all P u \<and> lo \<le> length u \<and> within_hi hi (length u) \<and> hit (k v))"
proof (induction P lo hi s k rule: rep_run.induct)
  case (1 P lo hi k)
  then show ?case by auto
next
  case (2 P lo hi x xs k)
  have "lo - 1 \<le> n \<longleftrightarrow> lo \<le> Suc n" for n by auto
  then show ?case
    unfolding split_Cons_prefix using "2.IH"
    by (auto simp: within_hi_Suc)
qed

lemma lazy_run_lang:
  "hit (lazy_run P s k) \<longleftrightarrow> (\<exists>u v. s = u @ v \<and> list_all P u \<and> hit (k v))"
proof (induction s)
  case (Cons x xs)
  then show ?case unfolding split_Cons_prefix by auto
qed auto

text \<open>
  A continuation whose success does not depend on the submatches: then the search
  succeeds exactly when some prefix is in the language and the continuation accepts
  the rest.
\<close>

definition caps_free :: "(string \<Rightarrow> caps \<Rightarrow> 'r option) \<Rightarrow> bool" where
  "caps_free k \<longleftrightarrow> (\<forall>t c d. hit (k t c) = hit (k t d))"

lemma caps_freeD: "caps_free k \<Longrightarrow> hit (k t c) \<longleftrightarrow> hit (k t d)"
  by (auto simp: caps_free_def)

lemma re_run_lang_aux:
  "caps_free k \<Longrightarrow>
    hit (re_run r s c k) \<longleftrightarrow> (\<exists>u v. s = u @ v \<and> re_lang r u \<and> hit (k v d))"
proof (induction r arbitrary: s c d k)
  case (Lit l)
  then show ?case
    by (auto simp: has_prefix_iff prefix_def caps_freeD [of k _ c d])
next
  case (Rep P lo hi)
  then show ?case
    using rep_run_lang [of P lo hi s "\<lambda>t. k t c"] by (simp add: caps_freeD [of k _ c d])
next
  case (Lazy P)
  then show ?case
    using lazy_run_lang [of P s "\<lambda>t. k t c"] by (simp add: caps_freeD [of k _ c d])
next
  case (Seq a b)
  have b: "hit (re_run b t e k) \<longleftrightarrow> (\<exists>u v. t = u @ v \<and> re_lang b u \<and> hit (k v d))" for t e
    using Seq.IH(2) Seq.prems by blast
  then have "caps_free (\<lambda>t e. re_run b t e k)"
    unfolding caps_free_def by blast
  from Seq.IH(1) [OF this, of s c d]
  have "hit (re_run (Seq a b) s c k) \<longleftrightarrow>
      (\<exists>u w z. s = u @ w @ z \<and> re_lang a u \<and> re_lang b w \<and> hit (k z d))"
    unfolding b by auto
  then show ?case by auto (metis append_assoc)
next
  case (Alt a b)
  from Alt.IH(1) [OF Alt.prems, of s c d] Alt.IH(2) [OF Alt.prems, of s c d]
  show ?case by auto
next
  case (Opt a)
  from Opt.IH [OF Opt.prems, of s c d] caps_freeD [OF Opt.prems, of s c d]
  show ?case by auto
next
  case (Cap n a)
  then have "caps_free (\<lambda>t d. k t (d(n \<mapsto> take (length s - length t) s)))"
    by (auto simp: caps_free_def)
  from Cap.IH [OF this, of s c d]
  have "hit (re_run (Cap n a) s c k) \<longleftrightarrow> (\<exists>u v. s = u @ v \<and> re_lang a u \<and>
      hit (k v (d(n \<mapsto> take (length s - length v) s))))" unfolding re_run.simps .
  also have "\<dots> \<longleftrightarrow> (\<exists>u v. s = u @ v \<and> re_lang a u \<and> hit (k v d))"
    using caps_freeD [OF Cap.prems] by blast
  finally show ?case by simp
qed (auto simp: caps_freeD)

lemma re_matches_iff [go_string]: "re_matches r s \<longleftrightarrow> re_lang r s"
proof -
  let ?k = "\<lambda>t (c::caps). if t = [] then Some c else None"
  have "caps_free ?k" by (simp add: caps_free_def)
  from re_run_lang_aux [OF this, of r s Map.empty Map.empty]
  show ?thesis by (auto simp: re_matches_def re_full_def hit_def split: if_splits)
qed

section \<open>Where a class repetition stops\<close>

lemma rep_run_stop:
  assumes "list_all P u" and "lo \<le> length u" and "within_hi hi (length u)"
    and "v = [] \<or> \<not> P (hd v) \<or> hi = Some (length u)" and "k v = Some r"
  shows "rep_run P lo hi (u @ v) k = Some r"
  using assms
proof (induction u arbitrary: lo hi)
  case Nil
  then show ?case by (cases v) auto
next
  case (Cons x u)
  have "rep_run P (lo - 1) (dec_hi hi) (u @ v) k = Some r"
    using Cons.prems by (intro Cons.IH) (auto simp: within_hi_Suc)
  with Cons.prems show ?case by (auto simp: within_hi_Suc)
qed

lemma rep_run_all:
  "list_all P u \<Longrightarrow> lo \<le> length u \<Longrightarrow> k [] = Some r \<Longrightarrow> rep_run P lo None u k = Some r"
  using rep_run_stop [of P u lo None "[]" k r] by simp

lemma lazy_run_stop:
  assumes "list_all P u" and "\<And>i. i < length u \<Longrightarrow> k (drop i (u @ v)) = None"
  shows "lazy_run P (u @ v) k = lazy_run P v k"
  using assms
proof (induction u)
  case (Cons x u)
  have "k (x # u @ v) = None" using Cons.prems(2) [of 0] by simp
  moreover have "k (drop i (u @ v)) = None" if "i < length u" for i
    using Cons.prems(2) [of "Suc i"] that by simp
  then have "lazy_run P (u @ v) k = lazy_run P v k"
    using Cons.prems(1) by (intro Cons.IH) auto
  ultimately show ?case using Cons.prems(1) by simp
qed simp

lemma lazy_run_hit: "k v = Some r \<Longrightarrow> lazy_run P v k = Some r"
  by (cases v) auto

text \<open>
  The same facts as conditional equations: on an append whose first part the class
  covers, the repetition hands the second part to the continuation.
\<close>

lemma rep_run_eq:
  "list_all P u \<Longrightarrow> lo \<le> length u \<Longrightarrow> v = [] \<or> \<not> P (hd v) \<Longrightarrow> hit (k v) \<Longrightarrow>
     rep_run P lo None (u @ v) k = k v"
  using rep_run_stop [of P u lo None v k] by (auto simp: hit_def)

lemma rep_run_eq_all:
  "list_all P u \<Longrightarrow> lo \<le> length u \<Longrightarrow> hit (k []) \<Longrightarrow> rep_run P lo None u k = k []"
  using rep_run_eq [of P u lo "[]" k] by simp

lemma lazy_run_eq:
  "list_all P u \<Longrightarrow> (\<And>i. i < length u \<Longrightarrow> k (drop i (u @ v)) = None) \<Longrightarrow> hit (k v) \<Longrightarrow>
     lazy_run P (u @ v) k = k v"
  using lazy_run_stop [of P u k v] by (cases v) (auto simp: hit_def)

lemma rep_run_zero [simp]: "rep_run P 0 (Some 0) s k = k s"
  by (cases s) auto

lemma case_option_same [simp]: "(case x of None \<Rightarrow> None | Some r \<Rightarrow> Some r) = x"
  by (cases x) auto

section \<open>What a submatch holds\<close>

text \<open>The groups of a pattern: every reported submatch is in its group's language.\<close>

primrec re_group_list :: "re \<Rightarrow> (nat \<times> re) list" where
  "re_group_list Eps = []"
| "re_group_list (Lit l) = []"
| "re_group_list (Rep P lo hi) = []"
| "re_group_list (Lazy P) = []"
| "re_group_list (Seq a b) = re_group_list a @ re_group_list b"
| "re_group_list (Alt a b) = re_group_list a @ re_group_list b"
| "re_group_list (Opt a) = re_group_list a"
| "re_group_list (Cap n a) = (n, a) # re_group_list a"

definition caps_from :: "re \<Rightarrow> caps \<Rightarrow> caps \<Rightarrow> bool" where
  "caps_from r c d \<longleftrightarrow>
     (\<forall>n. d n = c n \<or> (\<exists>a u. (n, a) \<in> set (re_group_list r) \<and> d n = Some u \<and> re_lang a u))"

lemma caps_from_refl [simp]: "caps_from r c c"
  by (simp add: caps_from_def)

lemma caps_from_mono:
  "caps_from a c d \<Longrightarrow> set (re_group_list a) \<subseteq> set (re_group_list r) \<Longrightarrow> caps_from r c d"
  unfolding caps_from_def by blast

lemma caps_from_trans: "caps_from r c d \<Longrightarrow> caps_from r d e \<Longrightarrow> caps_from r c e"
  unfolding caps_from_def by metis

lemma rep_run_sound:
  "rep_run P lo hi s k = Some z \<Longrightarrow>
     \<exists>u t. s = u @ t \<and> list_all P u \<and> lo \<le> length u \<and> within_hi hi (length u) \<and> k t = Some z"
proof (induction P lo hi s k rule: rep_run.induct)
  case (2 P lo hi x xs k)
  show ?case
  proof (cases "P x \<and> hi \<noteq> Some 0 \<and> rep_run P (lo - 1) (dec_hi hi) xs k \<noteq> None")
    case True
    with 2 obtain u t where "xs = u @ t" "list_all P u" "lo - 1 \<le> length u"
        "within_hi (dec_hi hi) (length u)" "k t = Some z" by (auto split: option.splits)
    with True show ?thesis
      by (intro exI [of _ "x # u"] exI [of _ t]) (auto simp: within_hi_Suc)
  next
    case False
    with 2 have "lo = 0 \<and> k (x # xs) = Some z" by (auto split: option.splits if_splits)
    then show ?thesis by (intro exI [of _ "[]"] exI [of _ "x # xs"]) auto
  qed
qed (auto split: if_splits)

lemma lazy_run_sound:
  "lazy_run P s k = Some z \<Longrightarrow> \<exists>u t. s = u @ t \<and> list_all P u \<and> k t = Some z"
proof (induction s)
  case (Cons x xs)
  show ?case
  proof (cases "k (x # xs)")
    case (Some r)
    with Cons.prems show ?thesis by (intro exI [of _ "[]"] exI [of _ "x # xs"]) auto
  next
    case None
    with Cons obtain u t where "P x" "xs = u @ t" "list_all P u" "k t = Some z"
      by (auto split: if_splits)
    then show ?thesis by (intro exI [of _ "x # u"] exI [of _ t]) auto
  qed
qed auto

lemma re_run_sound:
  "re_run r s c k = Some z \<Longrightarrow>
     \<exists>u t d. s = u @ t \<and> re_lang r u \<and> caps_from r c d \<and> k t d = Some z"
proof (induction r arbitrary: s c k)
  case Eps
  then show ?case by (intro exI [of _ "[]"] exI [of _ s] exI [of _ c]) simp
next
  case (Lit l)
  then obtain t where "s = l @ t" "k t c = Some z"
    by (auto simp: has_prefix_iff prefix_def split: if_splits)
  then show ?case by (intro exI [of _ l] exI [of _ t] exI [of _ c]) simp
next
  case (Rep P lo hi)
  then have "rep_run P lo hi s (\<lambda>t. k t c) = Some z" by simp
  from rep_run_sound [OF this] obtain u t where "s = u @ t" "re_lang (Rep P lo hi) u" "k t c = Some z"
    by auto
  then show ?case by (intro exI [of _ u] exI [of _ t] exI [of _ c]) simp
next
  case (Lazy P)
  then have "lazy_run P s (\<lambda>t. k t c) = Some z" by simp
  from lazy_run_sound [OF this] obtain u t where "s = u @ t" "re_lang (Lazy P) u" "k t c = Some z"
    by auto
  then show ?case by (intro exI [of _ u] exI [of _ t] exI [of _ c]) simp
next
  case (Seq a b)
  from Seq.prems have "re_run a s c (\<lambda>t d. re_run b t d k) = Some z" by simp
  from Seq.IH(1) [OF this] obtain u t d
    where 1: "s = u @ t" "re_lang a u" "caps_from a c d" and b: "re_run b t d k = Some z"
    by blast
  from Seq.IH(2) [OF b] obtain v w e
    where 2: "t = v @ w" "re_lang b v" "caps_from b d e" "k w e = Some z" by blast
  have "caps_from (Seq a b) c d" "caps_from (Seq a b) d e"
    by (rule caps_from_mono [OF 1(3)], simp) (rule caps_from_mono [OF 2(3)], simp)
  then have "caps_from (Seq a b) c e" by (rule caps_from_trans)
  moreover have "re_lang (Seq a b) (u @ v)" using 1(2) 2(2) by auto
  ultimately show ?case
    using 1(1) 2(1,4) by (intro exI [of _ "u @ v"] exI [of _ w] exI [of _ e]) simp
next
  case (Alt a b)
  then have "re_run a s c k = Some z \<or> re_run b s c k = Some z"
    by (cases "re_run a s c k") auto
  then show ?case
  proof
    assume "re_run a s c k = Some z"
    from Alt.IH(1) [OF this] obtain u t d
      where 1: "s = u @ t" "re_lang a u" "caps_from a c d" "k t d = Some z" by blast
    have "caps_from (Alt a b) c d" by (rule caps_from_mono [OF 1(3)]) simp
    with 1 show ?thesis by (intro exI [of _ u] exI [of _ t] exI [of _ d]) simp
  next
    assume "re_run b s c k = Some z"
    from Alt.IH(2) [OF this] obtain u t d
      where 1: "s = u @ t" "re_lang b u" "caps_from b c d" "k t d = Some z" by blast
    have "caps_from (Alt a b) c d" by (rule caps_from_mono [OF 1(3)]) simp
    with 1 show ?thesis by (intro exI [of _ u] exI [of _ t] exI [of _ d]) simp
  qed
next
  case (Opt a)
  then have "re_run a s c k = Some z \<or> k s c = Some z"
    by (cases "re_run a s c k") auto
  then show ?case
  proof
    assume "re_run a s c k = Some z"
    from Opt.IH [OF this] obtain u t d
      where 1: "s = u @ t" "re_lang a u" "caps_from a c d" "k t d = Some z" by blast
    have "caps_from (Opt a) c d" by (rule caps_from_mono [OF 1(3)]) simp
    with 1 show ?thesis by (intro exI [of _ u] exI [of _ t] exI [of _ d]) simp
  next
    assume "k s c = Some z"
    then show ?thesis by (intro exI [of _ "[]"] exI [of _ s] exI [of _ c]) simp
  qed
next
  case (Cap n a)
  let ?k = "\<lambda>t d. k t (d(n \<mapsto> take (length s - length t) s))"
  from Cap.prems have "re_run a s c ?k = Some z" by (simp only: re_run.simps)
  from Cap.IH [OF this] obtain u t d where 1: "s = u @ t" "re_lang a u" "caps_from a c d"
    and k: "k t (d(n \<mapsto> take (length s - length t) s)) = Some z" by blast
  have "caps_from (Cap n a) c (d(n \<mapsto> u))"
    using 1(2,3) by (auto simp: caps_from_def)
  moreover from k 1(1) have "k t (d(n \<mapsto> u)) = Some z" by simp
  ultimately show ?case using 1(1,2) unfolding re_lang.simps by blast
qed

lemma re_full_sound:
  assumes "re_full r s = Some c"
  shows "re_lang r s" and "caps_from r Map.empty c"
  using re_run_sound [OF assms [unfolded re_full_def]] by (auto split: if_splits)

lemma submatch_lang:
  assumes "re_full r s = Some c"
  shows "submatch c n = [] \<or> (\<exists>a. (n, a) \<in> set (re_group_list r) \<and> re_lang a (submatch c n))"
proof (cases "c n")
  case (Some u)
  with re_full_sound(2) [OF assms] obtain a v
    where "(n, a) \<in> set (re_group_list r)" "c n = Some v" "re_lang a v"
    unfolding caps_from_def by (metis option.distinct(1))
  then show ?thesis by (auto simp: submatch_def)
qed (simp add: submatch_def)

text \<open>A greedy repetition that has to give the tail \<open>w\<close> back to the continuation.\<close>

lemma rep_run_give_back:
  assumes "list_all P (u @ w)" and "v = [] \<or> \<not> P (hd v)" and "hit (k (w @ v))"
    and "\<And>i. 0 < i \<Longrightarrow> i \<le> length w \<Longrightarrow> k (drop i (w @ v)) = None"
  shows "rep_run P 0 None (u @ w @ v) k = k (w @ v)"
proof -
  have tail: "rep_run P 0 None (drop i w @ v) k = None" if i: "0 < i" "i \<le> length w" for i
  proof (rule ccontr)
    assume "rep_run P 0 None (drop i w @ v) k \<noteq> None"
    then obtain z where z: "rep_run P 0 None (drop i w @ v) k = Some z" by auto
    from rep_run_sound [OF z] obtain x t
      where x: "drop i w @ v = x @ t" "list_all P x" "k t = Some z" by auto
    have "length x \<le> length (drop i w)"
    proof (rule ccontr)
      assume "\<not> length x \<le> length (drop i w)"
      then have long: "length (drop i w) < length x" by simp
      from x(1) obtain y where "(drop i w = x @ y \<and> y @ v = t) \<or> (drop i w @ y = x \<and> v = y @ t)"
        unfolding append_eq_append_conv2 by blast
      with long have "x = drop i w @ y" "y \<noteq> []" "v = y @ t"
        by (auto dest!: arg_cong [where f = length])
      with x(2) assms(2) show False by (cases y) auto
    qed
    then have "t = drop (i + length x) (w @ v)"
      using x(1) i by (metis append_eq_conv_conj drop_append drop_drop add.commute
          diff_is_0_eq' drop_0)
    moreover have "i + length x \<le> length w" using \<open>length x \<le> length (drop i w)\<close> i by simp
    ultimately show False using assms(4) [of "i + length x"] i x(3) by simp
  qed
  have w: "rep_run P 0 None (w @ v) k = k (w @ v)"
  proof (cases w)
    case Nil
    with assms(2) show ?thesis by (cases v) auto
  next
    case (Cons x xs)
    with tail [of 1] have "rep_run P 0 None (xs @ v) k = None" by simp
    with Cons assms(1) show ?thesis by simp
  qed
  from assms(1) have "list_all P u" by simp
  then show ?thesis
  proof (induction u)
    case (Cons x u)
    then show ?case using assms(3) by (auto simp: hit_def)
  qed (simp add: w)
qed

section \<open>Character classes\<close>

definition digit :: "char \<Rightarrow> bool" where
  "digit c \<longleftrightarrow> 48 \<le> (of_char c :: nat) \<and> (of_char c :: nat) \<le> 57"

definition lower :: "char \<Rightarrow> bool" where
  "lower c \<longleftrightarrow> 97 \<le> (of_char c :: nat) \<and> (of_char c :: nat) \<le> 122"

definition upper :: "char \<Rightarrow> bool" where
  "upper c \<longleftrightarrow> 65 \<le> (of_char c :: nat) \<and> (of_char c :: nat) \<le> 90"

definition alnum :: "char \<Rightarrow> bool" where
  "alnum c \<longleftrightarrow> digit c \<or> lower c \<or> upper c"

definition hex_digit :: "char \<Rightarrow> bool" where
  "hex_digit c \<longleftrightarrow> digit c \<or> (97 \<le> (of_char c :: nat) \<and> (of_char c :: nat) \<le> 102)"

text \<open>\<open>\s\<close> of Go's regexp: tab, newline, form feed, carriage return and space.\<close>

definition re_space :: "char \<Rightarrow> bool" where
  "re_space c \<longleftrightarrow> (of_char c :: nat) \<in> {9, 10, 12, 13, 32}"

text \<open>\<open>.\<close> matches everything but newline.\<close>

definition re_dot :: "char \<Rightarrow> bool" where
  "re_dot c \<longleftrightarrow> c \<noteq> CHR 0x0A"

abbreviation one :: "(char \<Rightarrow> bool) \<Rightarrow> re" where
  "one P \<equiv> Rep P 1 (Some 1)"

abbreviation star :: "(char \<Rightarrow> bool) \<Rightarrow> re" where
  "star P \<equiv> Rep P 0 None"

abbreviation plus :: "(char \<Rightarrow> bool) \<Rightarrow> re" where
  "plus P \<equiv> Rep P 1 None"

lemma re_lang_one: "re_lang (one P) s \<longleftrightarrow> (\<exists>c. s = [c] \<and> P c)"
  by (cases s; cases "tl s") auto

text \<open>\<open>strconv.Atoi\<close> on a string of digits; the value is capped at the largest \<open>int\<close>
  (\<open>Atoi\<close> returns it with a range error, which the callers discard).\<close>

definition max_int :: int where
  "max_int = 9223372036854775807"

definition atoi :: "string \<Rightarrow> int" where
  "atoi s = min max_int (foldl (\<lambda>n c. 10 * n + (int (of_char c) - 48)) 0 s)"

lemma atoi_nonneg: "list_all digit s \<Longrightarrow> 0 \<le> atoi s"
proof -
  have "list_all digit s \<Longrightarrow> 0 \<le> n \<Longrightarrow>
      0 \<le> foldl (\<lambda>n c. 10 * n + (int (of_char c) - 48)) n s" for n
    by (induction s arbitrary: n) (auto simp: digit_def)
  then show "list_all digit s \<Longrightarrow> 0 \<le> atoi s" by (simp add: atoi_def max_int_def)
qed

end
