(* ===== verification/Findings.thy ===== *)
theory Findings
  imports Go_Regexp
begin

text \<open>
  \<open>linter/linter.go\<close>: the findings schema every driver normalises to, and the
  \<open>Linter\<close> interface.  A Go slice that may be nil is an option; an interface value is a
  record of its methods.  The interface's contract (what \<open>Command\<close> and \<open>Parse\<close> promise)
  is the locale \<open>lint_driver\<close>; each driver theory interprets it on its own model.
\<close>

section \<open>Findings and reports\<close>

definition ReportVersion :: int where
  "ReportVersion = 1"

definition SeverityError :: string where "SeverityError = ''error''"
definition SeverityWarning :: string where "SeverityWarning = ''warning''"
definition SeverityConvention :: string where "SeverityConvention = ''convention''"
definition SeverityRefactor :: string where "SeverityRefactor = ''refactor''"
definition SeverityInfo :: string where "SeverityInfo = ''info''"

definition contract_severities :: "string list" where
  "contract_severities =
     [SeverityError, SeverityWarning, SeverityConvention, SeverityRefactor, SeverityInfo]"

lemmas severity_defs = SeverityError_def SeverityWarning_def SeverityConvention_def
  SeverityRefactor_def SeverityInfo_def

record finding =
  f_path :: string
  f_line :: int
  f_column :: int
  f_end_line :: int
  f_end_column :: int
  f_severity :: string
  f_rule :: string
  f_message :: string

record report =
  r_version :: int
  r_language :: string
  r_tool :: string
  r_tool_id :: string
  r_findings :: "finding list option"   \<comment> \<open>\<open>None\<close> is the nil slice\<close>

definition findings_of :: "report \<Rightarrow> finding list" where
  "findings_of r = (case r_findings r of None \<Rightarrow> [] | Some fs \<Rightarrow> fs)"

text \<open>The schema of contract section 2: known severity, no negative position.\<close>

definition finding_ok :: "finding \<Rightarrow> bool" where
  "finding_ok f \<longleftrightarrow>
     f_severity f \<in> set contract_severities \<and>
     0 \<le> f_line f \<and> 0 \<le> f_column f \<and> 0 \<le> f_end_line f \<and> 0 \<le> f_end_column f"

lemma finding_ok_path [simp]: "finding_ok (f\<lparr>f_path := p\<rparr>) \<longleftrightarrow> finding_ok f"
  by (simp add: finding_ok_def)

section \<open>The Linter interface\<close>

text \<open>The ways a driver's \<open>Parse\<close> fails; the payload is what the message carries.\<close>

datatype parse_error =
    NoDiagnostics string int string   \<comment> \<open>tool, exit code, stderr snippet\<close>
  | ToolFailed string int string
  | Unparseable string string         \<comment> \<open>tool, stderr snippet\<close>
  | NoFindingsArray
  | BadSeverity string

record linter =
  l_language :: string
  l_name :: string
  l_command :: "string list \<Rightarrow> string list"
  l_parse :: "string \<Rightarrow> string \<Rightarrow> int \<Rightarrow> parse_error + report"
  l_env :: "string list option"       \<comment> \<open>\<open>Some\<close> when it implements Enver\<close>
  l_release :: "string option"        \<comment> \<open>\<open>Some\<close> when it has a Release method\<close>

text \<open>
  What \<open>Run\<close> and the server rely on: the argv names a program and passes all files in
  order and in one block, and a parsed report carries the schema version, the driver's
  language and a non-nil list of findings of known severity.
\<close>

locale lint_driver =
  fixes drv :: linter
    and findings_good :: "finding \<Rightarrow> bool"
  assumes command_shape:
      "\<exists>prog pre post. l_command drv files = prog # pre @ files @ post"
    and parse_header:
      "l_parse drv out err code = Inr r \<Longrightarrow>
         r_version r = ReportVersion \<and> r_language r = l_language drv"
    and parse_findings:
      "l_parse drv out err code = Inr r \<Longrightarrow>
         \<exists>fs. r_findings r = Some fs \<and> list_all findings_good fs"
    and good_path: "findings_good (f\<lparr>f_path := p\<rparr>) \<longleftrightarrow> findings_good f"
begin

lemma command_nonempty: "l_command drv files \<noteq> []"
  using command_shape [of files] by auto

lemma command_passes_files: "set files \<subseteq> set (l_command drv files)"
  using command_shape [of files] by auto

lemma parse_findings_of:
  "l_parse drv out err code = Inr r \<Longrightarrow> list_all findings_good (findings_of r)"
  using parse_findings [of out err code r] by (auto simp: findings_of_def)

end

text \<open>A driver that meets the contract for one notion of good findings meets it for a weaker one.\<close>

lemma lint_driver_weaken:
  assumes "lint_driver d P" and "\<And>f. P f \<Longrightarrow> Q f" and "\<And>f p. Q (f\<lparr>f_path := p\<rparr>) \<longleftrightarrow> Q f"
  shows "lint_driver d Q"
proof -
  from assms(1) have d: "\<And>files. \<exists>prog pre post. l_command d files = prog # pre @ files @ post"
    "\<And>out err code r. l_parse d out err code = Inr r \<Longrightarrow>
       r_version r = ReportVersion \<and> r_language r = l_language d"
    "\<And>out err code r. l_parse d out err code = Inr r \<Longrightarrow>
       \<exists>fs. r_findings r = Some fs \<and> list_all P fs"
    by (auto simp: lint_driver_def)
  have "\<exists>fs. r_findings r = Some fs \<and> list_all Q fs" if "l_parse d out err code = Inr r" for out err code r
    using d(3) [OF that] assms(2) by (auto simp: list_all_iff)
  then show ?thesis
    using d(1,2) assms(3) by unfold_locales auto
qed

definition severity_ok :: "finding \<Rightarrow> bool" where
  "severity_ok f \<longleftrightarrow> f_severity f \<in> set contract_severities"

lemma severity_ok_path [simp]: "severity_ok (f\<lparr>f_path := p\<rparr>) \<longleftrightarrow> severity_ok f"
  by (simp add: severity_ok_def)

end
