(* ===== verification/Go_Path.thy ===== *)
theory Go_Path
  imports Go_Strings
begin

text \<open>
  Go's lexical path functions on Unix (\<open>path.Clean\<close>, \<open>path.Dir\<close>, \<open>filepath.Join\<close>;
  \<open>filepath.Clean\<close> is \<open>path.Clean\<close> there), and what they say about the relative names
  the server accepts: a name all of whose segments are \<open>plain_seg\<close> is unchanged by
  \<open>clean\<close>, and joining it to a directory stays below that directory.
\<close>

section \<open>Clean\<close>

text \<open>
  \<open>clean_step\<close> processes one segment; the second argument is the stack of kept
  segments, last first.
\<close>

fun clean_step :: "bool \<Rightarrow> string list \<Rightarrow> string \<Rightarrow> string list" where
  "clean_step rooted st seg =
     (if seg = [] \<or> seg = ''.'' then st
      else if seg = ''..'' then
        (case st of
           [] \<Rightarrow> if rooted then [] else [seg]
         | t # ts \<Rightarrow> if t = ''..'' then seg # st else ts)
      else seg # st)"

definition clean_segs :: "bool \<Rightarrow> string list \<Rightarrow> string list" where
  "clean_segs rooted segs = rev (foldl (clean_step rooted) [] segs)"

definition clean :: "string \<Rightarrow> string" where
  "clean p =
     (if p = [] then ''.''
      else let rooted = (hd p = CHR ''/'');
               segs = clean_segs rooted (split_on CHR ''/'' p)
           in if rooted then CHR ''/'' # join_with CHR ''/'' segs
              else if segs = [] then ''.''
              else join_with CHR ''/'' segs)"

definition path_dir :: "string \<Rightarrow> string" where
  "path_dir p = clean (rev (dropWhile (\<lambda>c. c \<noteq> CHR ''/'') (rev p)))"

definition join_path :: "string \<Rightarrow> string \<Rightarrow> string" where
  "join_path a b =
     (if a = [] then (if b = [] then [] else clean b) else clean (a @ CHR ''/'' # b))"

section \<open>Plain segments\<close>

definition plain_seg :: "string \<Rightarrow> bool" where
  "plain_seg s \<longleftrightarrow> s \<noteq> [] \<and> s \<noteq> ''.'' \<and> s \<noteq> ''..'' \<and> CHR ''/'' \<notin> set s"

definition plain_name :: "string \<Rightarrow> bool" where
  "plain_name p \<longleftrightarrow> list_all plain_seg (split_on CHR ''/'' p)"

lemma plain_seg_clean_step [simp]: "plain_seg s \<Longrightarrow> clean_step r st s = s # st"
  by (simp add: plain_seg_def)

lemma clean_segs_plain: "list_all plain_seg ss \<Longrightarrow> clean_segs r ss = ss"
proof -
  have "list_all plain_seg ss \<Longrightarrow> foldl (clean_step r) st ss = rev ss @ st" for st
    by (induction ss arbitrary: st) (auto simp del: clean_step.simps)
  then show "list_all plain_seg ss \<Longrightarrow> clean_segs r ss = ss" by (simp add: clean_segs_def)
qed

lemma clean_segs_append_plain:
  "list_all plain_seg ss \<Longrightarrow> clean_segs r (ts @ ss) = clean_segs r ts @ ss"
proof -
  have "list_all plain_seg ss \<Longrightarrow> foldl (clean_step r) st ss = rev ss @ st" for st
    by (induction ss arbitrary: st) (auto simp del: clean_step.simps)
  then show "list_all plain_seg ss \<Longrightarrow> clean_segs r (ts @ ss) = clean_segs r ts @ ss"
    by (simp add: clean_segs_def)
qed

text \<open>What \<open>clean\<close> keeps: no empty and no \<open>.\<close> segment, and segments of the input only.\<close>

lemma clean_step_kept:
  "s \<in> set (clean_step r st seg) \<Longrightarrow> s \<in> set st \<or> (s = seg \<and> seg \<noteq> [] \<and> seg \<noteq> ''.'')"
  by (auto split: list.splits if_splits)

lemma clean_segs_kept:
  assumes "s \<in> set (clean_segs r segs)"
  shows "s \<in> set segs \<and> s \<noteq> [] \<and> s \<noteq> ''.''"
proof -
  have "s \<in> set (foldl (clean_step r) st segs) \<Longrightarrow>
      s \<in> set st \<or> (s \<in> set segs \<and> s \<noteq> [] \<and> s \<noteq> ''.'')" for st
  proof (induction segs arbitrary: st)
    case (Cons seg segs)
    from Cons.IH [of "clean_step r st seg"] Cons.prems clean_step_kept [of s r st seg]
    show ?case by auto
  qed simp
  from this [of "[]"] assms show ?thesis by (auto simp: clean_segs_def)
qed

lemma clean_segs_no_sep:
  "s \<in> set (clean_segs r (split_on c p)) \<Longrightarrow> c \<notin> set s"
  using clean_segs_kept split_on_no_sep by blast

lemma hd_join_with:
  "ss \<noteq> [] \<Longrightarrow> hd ss \<noteq> [] \<Longrightarrow> hd (join_with c ss) = hd (hd ss)"
  by (cases ss; cases "tl ss") auto

lemma join_with_Nil_iff: "\<forall>s \<in> set ss. s \<noteq> [] \<Longrightarrow> join_with c ss = [] \<longleftrightarrow> ss = []"
  by (cases ss; cases "tl ss") auto

section \<open>Names unchanged by clean\<close>

lemma split_fixed:
  assumes "clean p = p" and "p \<noteq> ''.''" and "\<not> has_prefix p ''/''"
  shows "split_on CHR ''/'' p = clean_segs False (split_on CHR ''/'' p)"
proof -
  from assms have ne: "p \<noteq> []" by (auto simp: clean_def)
  with assms(3) have nr: "hd p \<noteq> CHR ''/''" by (cases p) (auto simp: has_prefix_def)
  let ?ss = "clean_segs False (split_on CHR ''/'' p)"
  from assms ne nr have "?ss \<noteq> []" and "join_with CHR ''/'' ?ss = p"
    by (auto simp: clean_def Let_def split: if_splits)
  then show ?thesis
    using split_join [of ?ss "CHR ''/''"] clean_segs_no_sep by metis
qed

lemma plain_name_iff:
  "plain_name p \<longleftrightarrow>
     p \<noteq> [] \<and> \<not> has_prefix p ''/'' \<and> p \<noteq> ''.'' \<and> clean p = p \<and>
     ''..'' \<notin> set (split_on CHR ''/'' p)"
  (is "?L \<longleftrightarrow> ?R")
proof
  assume L: ?L
  let ?ss = "split_on CHR ''/'' p"
  from L have pl: "list_all plain_seg ?ss" by (simp add: plain_name_def)
  have hdss: "hd ?ss \<in> set ?ss" by simp
  with pl have "plain_seg (hd ?ss)" by (auto simp: list_all_iff)
  moreover have "p = [] \<Longrightarrow> hd ?ss = []" and "has_prefix p ''/'' \<Longrightarrow> hd ?ss = []"
    and "p = ''.'' \<Longrightarrow> hd ?ss = ''.''"
    by (cases p; auto simp: has_prefix_def)+
  ultimately have ne: "p \<noteq> []" and nr: "\<not> has_prefix p ''/''" and nd: "p \<noteq> ''.''"
    by (auto simp: plain_seg_def)
  from ne nr have "hd p \<noteq> CHR ''/''" by (cases p) (auto simp: has_prefix_def)
  with ne have "clean p = p"
    by (simp add: clean_def Let_def clean_segs_plain [OF pl] join_split)
  with pl ne nr nd show ?R by (auto simp: list_all_iff plain_seg_def)
next
  assume R: ?R
  then have "split_on CHR ''/'' p = clean_segs False (split_on CHR ''/'' p)"
    using split_fixed by blast
  with R show ?L
    unfolding plain_name_def list_all_iff plain_seg_def
    by (metis clean_segs_kept split_on_no_sep)
qed

section \<open>Parents and joins of plain names\<close>

lemma plain_join:
  "ss \<noteq> [] \<Longrightarrow> list_all plain_seg ss \<Longrightarrow> split_on CHR ''/'' (join_with CHR ''/'' ss) = ss"
  by (rule split_join) (auto simp: list_all_iff plain_seg_def)

lemma plain_name_join: "ss \<noteq> [] \<Longrightarrow> list_all plain_seg ss \<Longrightarrow> plain_name (join_with CHR ''/'' ss)"
  by (simp add: plain_name_def plain_join)

lemma clean_plain: "plain_name p \<Longrightarrow> clean p = p"
  by (simp add: plain_name_iff)

lemma clean_trailing_slash:
  assumes "plain_name p"
  shows "clean (p @ ''/'') = p"
proof -
  from assms have ne: "p \<noteq> []" and nr: "hd p \<noteq> CHR ''/''"
    unfolding plain_name_iff by (auto simp: has_prefix_def) (cases p, auto)
  let ?ss = "split_on CHR ''/'' p"
  from assms have pl: "list_all plain_seg ?ss" by (simp add: plain_name_def)
  have "split_on CHR ''/'' (p @ ''/'') = ?ss @ [[]]"
  proof -
    have "join_with CHR ''/'' (?ss @ [[]]) = p @ ''/''"
      by (simp add: join_with_append join_split)
    then show ?thesis
      using split_join [of "?ss @ [[]]" "CHR ''/''"] split_on_no_sep by (metis Un_iff
          append_is_Nil_conv empty_iff empty_set list.distinct(1) set_ConsD set_append)
  qed
  moreover have "clean_segs False (?ss @ [[]]) = clean_segs False ?ss"
    by (simp add: clean_segs_def)
  ultimately show ?thesis
    using ne nr by (simp add: clean_def Let_def clean_segs_plain [OF pl] join_split)
qed

lemma path_dir_join:
  assumes "list_all plain_seg (ss @ [s])"
  shows "path_dir (join_with CHR ''/'' (ss @ [s])) =
    (if ss = [] then ''.'' else join_with CHR ''/'' ss)"
proof -
  from assms have s: "\<forall>c \<in> set s. c \<noteq> CHR ''/''" by (auto simp: plain_seg_def)
  then have d: "dropWhile (\<lambda>c. c \<noteq> CHR ''/'') (rev s) = []"
    by simp
  show ?thesis
  proof (cases "ss = []")
    case True
    with d show ?thesis by (simp add: path_dir_def clean_def)
  next
    case False
    have "dropWhile (\<lambda>c. c \<noteq> CHR ''/'') (rev s @ CHR ''/'' # t) = CHR ''/'' # t" for t
      using s by (subst dropWhile_append2) auto
    with False have "rev (dropWhile (\<lambda>c. c \<noteq> CHR ''/'') (rev (join_with CHR ''/'' (ss @ [s]))))
        = join_with CHR ''/'' ss @ ''/''"
      by (simp add: join_with_append)
    with False assms show ?thesis
      by (simp add: path_dir_def clean_trailing_slash plain_name_join)
  qed
qed

text \<open>A clean absolute directory, such as a workspace or the cache root.\<close>

definition abs_dir :: "string \<Rightarrow> bool" where
  "abs_dir d \<longleftrightarrow> (\<exists>ss. ss \<noteq> [] \<and> list_all plain_seg ss \<and> d = CHR ''/'' # join_with CHR ''/'' ss)"

lemma join_path_inside:
  assumes "abs_dir d" and "plain_name p"
  shows "join_path d p = d @ CHR ''/'' # p"
proof -
  from assms(1) obtain ss where ss: "ss \<noteq> []" "list_all plain_seg ss"
    and d: "d = CHR ''/'' # join_with CHR ''/'' ss" by (auto simp: abs_dir_def)
  let ?ps = "split_on CHR ''/'' p"
  have pl: "list_all plain_seg ?ps" using assms(2) by (simp add: plain_name_def)
  have "d @ CHR ''/'' # p = CHR ''/'' # join_with CHR ''/'' (ss @ ?ps)"
    using ss by (simp add: d join_with_append join_split)
  moreover have "split_on CHR ''/'' (join_with CHR ''/'' (ss @ ?ps)) = ss @ ?ps"
    using ss pl by (intro plain_join) auto
  moreover have "clean_segs True ([] # (ss @ ?ps)) = ss @ ?ps"
    using clean_segs_append_plain [of "ss @ ?ps" True "[[]]"] ss pl
    by (simp add: clean_segs_def)
  ultimately show ?thesis
    by (simp add: join_path_def d clean_def Let_def)
qed

lemma clean_join_inside: "abs_dir d \<Longrightarrow> plain_name p \<Longrightarrow> clean (join_path d p) = join_path d p"
proof -
  assume d: "abs_dir d" and p: "plain_name p"
  from d have "d \<noteq> []" by (auto simp: abs_dir_def)
  then have "join_path d p = clean (d @ CHR ''/'' # p)" by (simp add: join_path_def)
  moreover have "join_path d p = d @ CHR ''/'' # p" using d p by (rule join_path_inside)
  ultimately show ?thesis by simp
qed

end
