(* ===== verification/Tool_Run.thy ===== *)
theory Tool_Run
  imports Findings Go_Path
begin

text \<open>
  \<open>linter/run.go\<close> and \<open>linter/version.go\<close>: running one native tool and normalising what it
  reports.  The operating system's part (what the process writes, how it exits, whether
  the context ended) is the record \<open>tool_exit\<close>, an argument of \<open>run_context\<close>.
\<close>

section \<open>Environments\<close>

definition ToolEnv :: "string list" where
  "ToolEnv =
     [''PATH=/usr/local/go/bin:/usr/local/sbin:/usr/local/bin:/usr/sbin:/usr/bin:/sbin:/bin'',
      ''HOME=/tmp'', ''TMPDIR=/tmp'', ''LANG=C.UTF-8'']"

definition ScrubbedEnv :: "linter \<Rightarrow> string list" where
  "ScrubbedEnv l = ToolEnv @ (case l_env l of None \<Rightarrow> [] | Some e \<Rightarrow> e)"

text \<open>\<open>os.LookupEnv\<close>: the first entry with that (non-empty) key.\<close>

fun lookup_env :: "string list \<Rightarrow> string \<Rightarrow> string option" where
  "lookup_env [] key = None"
| "lookup_env (kv # env) key =
     (case cut_at CHR ''='' kv of (k, v, ok) \<Rightarrow>
        if ok \<and> k = key \<and> key \<noteq> [] then Some v else lookup_env env key)"

text \<open>\<open>envWithDefaults\<close>: the loop appends each default whose key the process lacks.\<close>

fun env_defaults_loop :: "string list \<Rightarrow> string list \<Rightarrow> string list \<Rightarrow> string list" where
  "env_defaults_loop environ env [] = env"
| "env_defaults_loop environ env (kv # defaults) =
     (case cut_at CHR ''='' kv of (key, _, ok) \<Rightarrow>
        if \<not> ok then env_defaults_loop environ env defaults
        else if lookup_env environ key = None
        then env_defaults_loop environ (env @ [kv]) defaults
        else env_defaults_loop environ env defaults)"

definition envWithDefaults :: "string list \<Rightarrow> string list \<Rightarrow> string list" where
  "envWithDefaults environ defaults = env_defaults_loop environ environ defaults"

section \<open>The capped output buffer\<close>

record capped_buffer =
  cb_buf :: string
  cb_max :: int
  cb_overflow :: bool

definition capped_write :: "capped_buffer \<Rightarrow> string \<Rightarrow> capped_buffer \<times> nat" where
  "capped_write b p =
     (let room = cb_max b - int (length (cb_buf b))
      in if int (length p) > room
         then (if room > 0
               then b\<lparr>cb_overflow := True, cb_buf := cb_buf b @ take (nat room) p\<rparr>
               else b\<lparr>cb_overflow := True\<rparr>, length p)
         else (b\<lparr>cb_buf := cb_buf b @ p\<rparr>, length p))"

definition capped_new :: "int \<Rightarrow> capped_buffer" where
  "capped_new limit = \<lparr>cb_buf = [], cb_max = limit, cb_overflow = False\<rparr>"

definition capped_writes :: "capped_buffer \<Rightarrow> string list \<Rightarrow> capped_buffer" where
  "capped_writes b ps = foldl (\<lambda>b p. fst (capped_write b p)) b ps"

section \<open>Path normalisation\<close>

text \<open>
  \<open>sort.Slice\<close> by decreasing length of the cleaned path.  Go's sort is not stable; the
  model takes the stable order, and \<open>suffix_pick_sorted\<close> shows that the cleaned result
  is the same for every order the comparison allows.
\<close>

definition sort_longest :: "string list \<Rightarrow> string list" where
  "sort_longest files = sort_key (\<lambda>f. - int (length (clean f))) files"

fun first_clean_eq :: "string \<Rightarrow> string list \<Rightarrow> string option" where
  "first_clean_eq c [] = None"
| "first_clean_eq c (f # fs) = (if clean f = c then Some f else first_clean_eq c fs)"

fun first_suffix :: "string \<Rightarrow> string list \<Rightarrow> string option" where
  "first_suffix c [] = None"
| "first_suffix c (f # fs) =
     (if has_suffix c (CHR ''/'' # clean f) then Some f else first_suffix c fs)"

definition NormalizePath :: "string \<Rightarrow> string list \<Rightarrow> string" where
  "NormalizePath reported files =
     (let c = clean reported
      in case first_clean_eq c files of
           Some f \<Rightarrow> f
         | None \<Rightarrow> (case first_suffix c (sort_longest files) of Some f \<Rightarrow> f | None \<Rightarrow> c))"

section \<open>Diagnostics of operational failures\<close>

definition snippet_max :: nat where
  "snippet_max = 2000"

text \<open>The marker is a space, the three bytes of U+2026, and \<open>(truncated)\<close>.\<close>

definition truncated_mark :: string where
  "truncated_mark = '' '' @ map char_of [226::nat, 128, 166] @ ''(truncated)''"

definition StderrSnippet :: "string \<Rightarrow> string" where
  "StderrSnippet stderr =
     (let s = trim_space stderr
      in if length s > snippet_max then take snippet_max s @ truncated_mark else s)"

section \<open>Running a tool\<close>

datatype ctx_error = Canceled | DeadlineExceeded

datatype run_err =
    NotStarted string          \<comment> \<open>not an ExitError\<close>
  | ExitError int string       \<comment> \<open>ExitCode (negative: killed by a signal) and text\<close>

record tool_exit =
  te_stdout :: "string list"          \<comment> \<open>the writes, in order\<close>
  te_stderr :: "string list"
  te_err :: "run_err option"
  te_ctx :: "ctx_error option"        \<comment> \<open>\<open>ctx.Err()\<close> once the tool has exited\<close>

record run_options =
  o_dir :: string
  o_env :: "string list option"
  o_max_output :: int
  o_redact :: "(string \<Rightarrow> string) option"

datatype run_failure =
    CtxFailure ctx_error
  | ExecFailed string string
  | KilledBySignal string string string
  | OutputTooLarge string int
  | ParseFailure parse_error

definition DefaultMaxOutput :: int where
  "DefaultMaxOutput = 16777216"

text \<open>The environment \<open>RunContext\<close> gives the child; \<open>None\<close> inherits the caller's.\<close>

definition child_env :: "string list \<Rightarrow> linter \<Rightarrow> run_options \<Rightarrow> string list option" where
  "child_env environ l opts =
     (case o_env opts of
        Some e \<Rightarrow> Some e
      | None \<Rightarrow> (case l_env l of
          Some defaults \<Rightarrow> Some (envWithDefaults environ defaults)
        | None \<Rightarrow> None))"

definition normalize_findings :: "string list \<Rightarrow> report \<Rightarrow> report" where
  "normalize_findings files r =
     r\<lparr>r_findings := map_option (map (\<lambda>f. f\<lparr>f_path := NormalizePath (f_path f) files\<rparr>))
        (r_findings r)\<rparr>"

definition run_context ::
  "linter \<Rightarrow> string list \<Rightarrow> run_options \<Rightarrow> tool_exit \<Rightarrow> run_failure + report" where
  "run_context l files opts te =
     (let argv = l_command l files;
          limit = (if o_max_output opts \<le> 0 then DefaultMaxOutput else o_max_output opts);
          stdout = capped_writes (capped_new limit) (te_stdout te);
          stderr = capped_writes (capped_new limit) (te_stderr te)
      in case te_ctx te of
           Some e \<Rightarrow> Inl (CtxFailure e)
         | None \<Rightarrow>
           (let redact = (case o_redact opts of None \<Rightarrow> (\<lambda>b. b) | Some f \<Rightarrow> f);
                outBytes = redact (cb_buf stdout);
                errBytes = redact (cb_buf stderr);
                finish = (\<lambda>exitCode.
                  if cb_overflow stdout \<or> cb_overflow stderr
                  then Inl (OutputTooLarge (hd argv) limit)
                  else (case l_parse l outBytes errBytes exitCode of
                      Inl e \<Rightarrow> Inl (ParseFailure e)
                    | Inr r \<Rightarrow> Inr (normalize_findings files r)))
            in case te_err te of
                 None \<Rightarrow> finish 0
               | Some (NotStarted msg) \<Rightarrow> Inl (ExecFailed (hd argv) msg)
               | Some (ExitError code msg) \<Rightarrow>
                   if code < 0
                   then Inl (KilledBySignal (hd argv) msg (StderrSnippet errBytes))
                   else finish code))"

definition run_tool :: "linter \<Rightarrow> string list \<Rightarrow> tool_exit \<Rightarrow> run_failure + report" where
  "run_tool l files te =
     run_context l files
       \<lparr>o_dir = [], o_env = None, o_max_output = 0, o_redact = None\<rparr> te"

section \<open>Version probes\<close>

primrec re_groups :: "re \<Rightarrow> nat" where
  "re_groups Eps = 0"
| "re_groups (Lit l) = 0"
| "re_groups (Rep P lo hi) = 0"
| "re_groups (Lazy P) = 0"
| "re_groups (Seq a b) = re_groups a + re_groups b"
| "re_groups (Alt a b) = re_groups a + re_groups b"
| "re_groups (Opt a) = re_groups a"
| "re_groups (Cap n a) = Suc (re_groups a)"

text \<open>The second argument is the compiled pattern, the third the tool's combined output.\<close>

definition probeVersion :: "string \<Rightarrow> re option \<Rightarrow> string \<Rightarrow> string" where
  "probeVersion name pattern out =
     (case pattern of
        None \<Rightarrow> name
      | Some r \<Rightarrow>
          (case re_search r out of
             None \<Rightarrow> name
           | Some c \<Rightarrow> if re_groups r > 0 then name @ '' '' @ submatch c 1 else name))"

type_synonym versions = "string \<rightharpoonup> string"

definition version_key :: "string \<Rightarrow> string \<Rightarrow> string list \<Rightarrow> string" where
  "version_key name pattern argv =
     name @ [CHR 0x00] @ pattern @ [CHR 0x00] @ join_with (CHR 0x00) argv"

definition ToolVersion ::
  "versions \<Rightarrow> string \<Rightarrow> string \<Rightarrow> re option \<Rightarrow> string list \<Rightarrow> string \<Rightarrow> string \<times> versions" where
  "ToolVersion memo name pattern compiled argv out =
     (let key = version_key name pattern argv
      in case memo key of
           Some v \<Rightarrow> (v, memo)
         | None \<Rightarrow>
             (let v = probeVersion name compiled out in (v, memo(key \<mapsto> v))))"

section \<open>What the output buffer keeps\<close>

lemma capped_writes_Nil [simp]: "capped_writes b [] = b"
  by (simp add: capped_writes_def)

lemma capped_writes_Cons [simp]:
  "capped_writes b (p # ps) = capped_writes (fst (capped_write b p)) ps"
  by (simp add: capped_writes_def)

lemma capped_write_max [simp]: "cb_max (fst (capped_write b p)) = cb_max b"
  by (simp add: capped_write_def Let_def)

lemma capped_write_returns [simp]: "snd (capped_write b p) = length p"
  by (simp add: capped_write_def Let_def)

text \<open>The buffer's invariant: it never holds more than its maximum.\<close>

lemma capped_write_bound:
  "int (length (cb_buf b)) \<le> cb_max b \<Longrightarrow>
     int (length (cb_buf (fst (capped_write b p)))) \<le> cb_max b"
  by (auto simp: capped_write_def Let_def)

lemma capped_write_fst:
  assumes "int (length (cb_buf b)) \<le> cb_max b"
  shows "cb_buf (fst (capped_write b p)) = take (nat (cb_max b)) (cb_buf b @ p)"
    and "cb_overflow (fst (capped_write b p)) \<longleftrightarrow>
      cb_overflow b \<or> int (length (cb_buf b @ p)) > cb_max b"
  using assms by (auto simp: capped_write_def Let_def nat_diff_distrib)

lemma capped_writes_spec:
  "int (length (cb_buf b)) \<le> cb_max b \<Longrightarrow>
     cb_buf (capped_writes b ps) = take (nat (cb_max b)) (cb_buf b @ concat ps) \<and>
     (cb_overflow (capped_writes b ps) \<longleftrightarrow>
       cb_overflow b \<or> int (length (cb_buf b @ concat ps)) > cb_max b)"
proof (induction ps arbitrary: b)
  case (Cons p ps)
  let ?b = "fst (capped_write b p)"
  note w = capped_write_fst [OF Cons.prems, of p]
  have "int (length (cb_buf ?b)) \<le> cb_max ?b"
    using capped_write_bound Cons.prems by simp
  from Cons.IH [OF this] show ?case
    using w Cons.prems by (auto simp: min_def)
qed auto

lemma capped_new_writes:
  assumes "0 \<le> m"
  shows "cb_buf (capped_writes (capped_new m) ps) = take (nat m) (concat ps)"
    and "cb_overflow (capped_writes (capped_new m) ps) \<longleftrightarrow> int (length (concat ps)) > m"
  using capped_writes_spec [of "capped_new m" ps] assms by (simp_all add: capped_new_def)

section \<open>Defaults never override a variable\<close>

lemma lookup_env_append:
  "lookup_env (xs @ ys) k = (case lookup_env xs k of Some v \<Rightarrow> Some v | None \<Rightarrow> lookup_env ys k)"
  by (induction xs k rule: lookup_env.induct) (auto split: prod.splits)

lemma env_defaults_loop_eq:
  "env_defaults_loop environ env defaults =
     env @ filter (\<lambda>kv. case cut_at CHR ''='' kv of (k, _, ok) \<Rightarrow> ok \<and> lookup_env environ k = None)
       defaults"
proof (induction defaults arbitrary: env)
  case (Cons kv defaults)
  then show ?case by (cases "cut_at CHR ''='' kv") auto
qed simp

lemma lookup_env_filter:
  "(\<And>kv. kv \<in> set env \<Longrightarrow> fst (cut_at CHR ''='' kv) = k \<Longrightarrow> snd (snd (cut_at CHR ''='' kv)) \<Longrightarrow> P kv) \<Longrightarrow>
     lookup_env (filter P env) k = lookup_env env k"
proof (induction env)
  case (Cons kv env)
  have ih: "lookup_env (filter P env) k = lookup_env env k"
    by (rule Cons.IH) (use Cons.prems in auto)
  obtain a v ok where cut: "cut_at CHR ''='' kv = (a, v, ok)"
    by (cases "cut_at CHR ''='' kv") auto
  from Cons.prems [of kv] have "a = k \<Longrightarrow> ok \<Longrightarrow> P kv" by (simp add: cut)
  with ih show ?case by (auto simp: cut)
qed simp

lemma env_with_defaults_lookup:
  "lookup_env (envWithDefaults environ defaults) k =
     (case lookup_env environ k of Some v \<Rightarrow> Some v | None \<Rightarrow> lookup_env defaults k)"
proof (cases "lookup_env environ k")
  case None
  then show ?thesis
    unfolding envWithDefaults_def env_defaults_loop_eq lookup_env_append
    by (auto intro!: lookup_env_filter split: prod.splits)
qed (simp add: envWithDefaults_def env_defaults_loop_eq lookup_env_append)

section \<open>Path normalisation\<close>

lemma first_clean_eq_Some:
  "first_clean_eq c fs = Some f \<Longrightarrow> f \<in> set fs \<and> clean f = c"
  by (induction fs) (auto split: if_splits)

lemma first_clean_eq_None: "first_clean_eq c fs = None \<longleftrightarrow> (\<forall>f \<in> set fs. clean f \<noteq> c)"
  by (induction fs) auto

lemma first_suffix_None:
  "first_suffix c fs = None \<longleftrightarrow> (\<forall>f \<in> set fs. \<not> has_suffix c (CHR ''/'' # clean f))"
  by (induction fs) auto

abbreviation longest_first :: "string list \<Rightarrow> bool" where
  "longest_first fs \<equiv> sorted_wrt (\<lambda>a b. length (clean b) \<le> length (clean a)) fs"

lemma first_suffix_Some:
  assumes "longest_first fs" and "first_suffix c fs = Some g"
  shows "g \<in> set fs" and "has_suffix c (CHR ''/'' # clean g)"
    and "\<And>f. f \<in> set fs \<Longrightarrow> has_suffix c (CHR ''/'' # clean f) \<Longrightarrow>
      length (clean f) \<le> length (clean g)"
  using assms by (induction fs) (auto split: if_splits)

lemma sort_longest_props:
  "set (sort_longest fs) = set fs" "longest_first (sort_longest fs)"
proof -
  have "sorted (map (\<lambda>f. - int (length (clean f))) (sort_longest fs))"
    by (simp add: sort_longest_def)
  then show "longest_first (sort_longest fs)"
    by (simp add: sorted_wrt_map)
qed (simp add: sort_longest_def)

lemma same_suffix_same_clean:
  assumes "has_suffix c (CHR ''/'' # a)" and "has_suffix c (CHR ''/'' # b)" and "length a = length b"
  shows "a = b"
proof -
  from assms obtain u v where "c = u @ CHR ''/'' # a" and "c = v @ CHR ''/'' # b"
    by (auto simp: has_suffix_iff suffix_def)
  with assms(3) show ?thesis by (metis append_eq_append_conv length_Cons list.inject)
qed

text \<open>The cleaned pick is the same whichever order the unstable sort produced.\<close>

lemma suffix_pick_sorted:
  assumes "set fs = set gs" and "longest_first fs" and "longest_first gs"
  shows "map_option clean (first_suffix c fs) = map_option clean (first_suffix c gs)"
proof (cases "first_suffix c fs")
  case None
  with assms(1) show ?thesis using first_suffix_None by (metis option.map(1))
next
  case (Some f)
  note f = first_suffix_Some [OF assms(2) Some]
  with assms(1) obtain g where g': "first_suffix c gs = Some g"
    using first_suffix_None [of c gs] by (cases "first_suffix c gs") auto
  note g = first_suffix_Some [OF assms(3) g']
  from f g assms(1) have "length (clean f) = length (clean g)" by (simp add: le_antisym)
  then show ?thesis using f(2) g(2) g' Some same_suffix_same_clean by simp
qed

lemma NormalizePath_cases:
  "NormalizePath p fs \<in> set fs \<or> NormalizePath p fs = clean p"
  using first_clean_eq_Some [of "clean p" fs]
    first_suffix_Some(1) [OF sort_longest_props(2), of "clean p" fs] sort_longest_props(1) [of fs]
  by (auto simp: NormalizePath_def Let_def split: option.splits)

lemma NormalizePath_exact:
  "f \<in> set fs \<Longrightarrow> clean f = clean p \<Longrightarrow>
     NormalizePath p fs \<in> set fs \<and> clean (NormalizePath p fs) = clean p"
  using first_clean_eq_Some first_clean_eq_None [of "clean p" fs]
  by (auto simp: NormalizePath_def Let_def split: option.splits)

lemma NormalizePath_longest:
  assumes "\<forall>f \<in> set fs. clean f \<noteq> clean p"
    and "f \<in> set fs" and "has_suffix (clean p) (CHR ''/'' # clean f)"
  shows "NormalizePath p fs \<in> set fs"
    and "has_suffix (clean p) (CHR ''/'' # clean (NormalizePath p fs))"
    and "length (clean f) \<le> length (clean (NormalizePath p fs))"
proof -
  from assms(1) have n: "first_clean_eq (clean p) fs = None" by (simp add: first_clean_eq_None)
  from assms(2,3) obtain g where g: "first_suffix (clean p) (sort_longest fs) = Some g"
    using first_suffix_None [of "clean p" "sort_longest fs"] sort_longest_props(1)
    by (cases "first_suffix (clean p) (sort_longest fs)") auto
  have eq: "NormalizePath p fs = g" by (simp add: NormalizePath_def Let_def n g)
  note props = first_suffix_Some [OF sort_longest_props(2) g]
  show "NormalizePath p fs \<in> set fs"
    using props(1) sort_longest_props(1) by (simp add: eq)
  show "has_suffix (clean p) (CHR ''/'' # clean (NormalizePath p fs))"
    using props(2) by (simp add: eq)
  show "length (clean f) \<le> length (clean (NormalizePath p fs))"
    using props(3) [of f] sort_longest_props(1) assms(2,3) by (simp add: eq)
qed

text \<open>An absolute report of the one file below a workspace maps back to that file.\<close>

lemma NormalizePath_workspace:
  assumes "abs_dir ws" and "plain_name f"
  shows "NormalizePath (join_path ws f) [f] = f"
proof -
  have j: "join_path ws f = ws @ CHR ''/'' # f" using assms by (rule join_path_inside)
  then have "clean (join_path ws f) = ws @ CHR ''/'' # f"
    using assms by (metis clean_join_inside)
  moreover have "clean f = f" using assms(2) by (rule clean_plain)
  moreover have "has_suffix (ws @ CHR ''/'' # f) (CHR ''/'' # f)"
    by (simp add: has_suffix_iff suffix_def)
  ultimately show ?thesis
    by (simp add: NormalizePath_def Let_def sort_longest_def)
qed

section \<open>Snippets and version probes\<close>

lemma StderrSnippet_length: "length (StderrSnippet s) \<le> snippet_max + length truncated_mark"
  by (simp add: StderrSnippet_def Let_def)

lemma ToolVersion_memo:
  assumes "ToolVersion memo name pattern compiled argv out = (v, memo')"
  shows "ToolVersion memo' name pattern compiled' argv out' = (v, memo')"
  using assms by (auto simp: ToolVersion_def Let_def split: option.splits)

section \<open>Clients of the Linter interface\<close>

context lint_driver
begin

lemma run_context_report:
  assumes "run_context drv files opts te = Inr r"
  shows "r_version r = ReportVersion" and "r_language r = l_language drv"
    and "r_findings r \<noteq> None" and "list_all findings_good (findings_of r)"
    and "\<forall>f \<in> set (findings_of r). f_path f \<in> set files \<or> (\<exists>p. f_path f = clean p)"
proof -
  from assms obtain out err code r0
    where p: "l_parse drv out err code = Inr r0" and r: "r = normalize_findings files r0"
    by (auto simp: run_context_def Let_def split: option.splits run_err.splits if_splits sum.splits)
  from parse_findings [OF p] obtain fs where fs: "r_findings r0 = Some fs"
    and good: "list_all findings_good fs" by auto
  from parse_header [OF p] show "r_version r = ReportVersion" "r_language r = l_language drv"
    by (simp_all add: r normalize_findings_def)
  show "r_findings r \<noteq> None" by (simp add: r fs normalize_findings_def)
  have list: "findings_of r = map (\<lambda>f. f\<lparr>f_path := NormalizePath (f_path f) files\<rparr>) fs"
    by (simp add: r fs normalize_findings_def findings_of_def)
  show "list_all findings_good (findings_of r)"
    using good by (simp add: list list_all_iff good_path)
  show "\<forall>f \<in> set (findings_of r). f_path f \<in> set files \<or> (\<exists>p. f_path f = clean p)"
    using NormalizePath_cases by (fastforce simp: list)
qed

end

end
