(* ===== verification/Driver_Clangtidy.thy ===== *)
theory Driver_Clangtidy
  imports Tool_Run
begin

text \<open>
  \<open>languages/internal/clangtidy/clangtidy.go\<close>: the clang-tidy driver behind c and cpp.
  The version string of a report is an argument (\<open>Tool_Run.ToolVersion\<close> computes it once
  per process).  Proved: a diagnostic line written in clang-tidy's format is read back
  field by field, and the driver meets the \<open>Linter\<close> contract.
\<close>

definition ct_ToolID :: string where
  "ct_ToolID = ''clang-tidy''"

text \<open>\<^verbatim>\<open>^([^\s:][^:]*):(\d+):(\d+): (error|warning|remark|note): (.*?)( \[([^\[\]]+)\])?$\<close>\<close>

definition not_colon :: "char \<Rightarrow> bool" where
  "not_colon c \<longleftrightarrow> c \<noteq> CHR '':''"

definition path_start :: "char \<Rightarrow> bool" where
  "path_start c \<longleftrightarrow> \<not> re_space c \<and> c \<noteq> CHR '':''"

definition not_bracket :: "char \<Rightarrow> bool" where
  "not_bracket c \<longleftrightarrow> c \<noteq> CHR ''['' \<and> c \<noteq> CHR '']''"

definition ct_rule_re :: re where
  "ct_rule_re = Opt (Cap 6 (Seq (Lit '' ['') (Seq (Cap 7 (plus not_bracket)) (Lit '']''))))"

definition ct_diagRE :: re where
  "ct_diagRE =
     Seq (Cap 1 (Seq (one path_start) (star not_colon)))
    (Seq (Lit '':'') (Seq (Cap 2 (plus digit))
    (Seq (Lit '':'') (Seq (Cap 3 (plus digit))
    (Seq (Lit '': '')
    (Seq (Cap 4 (Alt (Lit ''error'') (Alt (Lit ''warning'') (Alt (Lit ''remark'') (Lit ''note'')))))
    (Seq (Lit '': '')
    (Seq (Cap 5 (Lazy re_dot)) ct_rule_re))))))))"

definition severityByName :: "string \<rightharpoonup> string" where
  "severityByName =
     [''error'' \<mapsto> SeverityError, ''warning'' \<mapsto> SeverityWarning, ''remark'' \<mapsto> SeverityInfo]"

definition ct_command :: "string \<Rightarrow> string list \<Rightarrow> string list" where
  "ct_command std files = (''clang-tidy'' # files) @ [''--'', ''-std='' @ std]"

text \<open>One iteration of the loop over the lines of a stream.\<close>

definition ct_line :: "string \<Rightarrow> finding option" where
  "ct_line raw =
     (case re_full ct_diagRE raw of
        None \<Rightarrow> None
      | Some m \<Rightarrow>
          (case severityByName (submatch m 4) of
             None \<Rightarrow> None
           | Some sev \<Rightarrow> Some
               \<lparr>f_path = submatch m 1, f_line = atoi (submatch m 2),
                f_column = atoi (submatch m 3), f_end_line = 0, f_end_column = 0,
                f_severity = sev, f_rule = submatch m 7, f_message = submatch m 5\<rparr>))"

fun ct_stream :: "finding list \<Rightarrow> string list \<Rightarrow> finding list" where
  "ct_stream findings [] = findings"
| "ct_stream findings (raw # lines) =
     (case ct_line raw of
        None \<Rightarrow> ct_stream findings lines
      | Some f \<Rightarrow> ct_stream (findings @ [f]) lines)"

definition ct_parse :: "string \<Rightarrow> string \<Rightarrow> string \<Rightarrow> string \<Rightarrow> int \<Rightarrow> parse_error + report" where
  "ct_parse language tool stdout stderr exitCode =
     (let findings = ct_stream (ct_stream [] (split_on CHR 0x0A stdout)) (split_on CHR 0x0A stderr)
      in if exitCode \<noteq> 0 \<and> findings = []
         then Inl (NoDiagnostics ''clang-tidy'' exitCode (StderrSnippet stderr))
         else Inr \<lparr>r_version = ReportVersion, r_language = language, r_tool = tool,
                   r_tool_id = ct_ToolID, r_findings = Some findings\<rparr>)"

definition ct_New :: "string \<Rightarrow> string \<Rightarrow> string \<Rightarrow> string \<Rightarrow> linter" where
  "ct_New tool language name std =
     \<lparr>l_language = language, l_name = name, l_command = ct_command std,
      l_parse = ct_parse language tool, l_env = None, l_release = None\<rparr>"

section \<open>Reading one line\<close>

text \<open>The format clang-tidy prints a diagnostic in, with and without a check name.\<close>

definition ct_head :: "char \<Rightarrow> string \<Rightarrow> string \<Rightarrow> string \<Rightarrow> string \<Rightarrow> string" where
  "ct_head p path ln col sev =
     ([p] @ path) @ '':'' @ ln @ '':'' @ col @ '': '' @ sev @ '': ''"

definition ct_print :: "char \<Rightarrow> string \<Rightarrow> string \<Rightarrow> string \<Rightarrow> string \<Rightarrow> string \<Rightarrow> string \<Rightarrow> string" where
  "ct_print p path ln col sev msg rule =
     ct_head p path ln col sev @ msg @ '' ['' @ rule @ '']''"

definition ct_wellformed :: "char \<Rightarrow> string \<Rightarrow> string \<Rightarrow> string \<Rightarrow> string \<Rightarrow> string \<Rightarrow> bool" where
  "ct_wellformed p path ln col sev msg \<longleftrightarrow>
     path_start p \<and> list_all not_colon path \<and>
     list_all digit ln \<and> ln \<noteq> [] \<and> list_all digit col \<and> col \<noteq> [] \<and>
     sev \<in> {''error'', ''warning'', ''remark'', ''note''} \<and> list_all re_dot msg"

lemma digit_colon [simp]: "\<not> digit CHR '':''"
  by (simp add: digit_def)

lemma not_colon_colon [simp]: "\<not> not_colon CHR '':''"
  by (simp add: not_colon_def)

text \<open>The bracketed rule at the end of a line, and why no shorter message matches.\<close>

abbreviation accept :: "string \<Rightarrow> caps \<Rightarrow> caps option" where
  "accept t c \<equiv> (if t = [] then Some c else None)"

lemma ct_rule_lang:
  "re_lang ct_rule_re t \<longleftrightarrow>
     t = [] \<or> (\<exists>r. t = CHR '' '' # CHR ''['' # r @ '']'' \<and> list_all not_bracket r \<and> r \<noteq> [])"
  unfolding ct_rule_re_def by (auto simp: Suc_le_eq)

lemma ct_rule_none:
  assumes "CHR ''['' \<in> set (tl (tl t))"
  shows "re_run ct_rule_re t c accept = None"
proof -
  have "caps_free accept" by (simp add: caps_free_def)
  from re_run_lang_aux [OF this, of ct_rule_re t c c]
  have "hit (re_run ct_rule_re t c accept) \<longleftrightarrow> re_lang ct_rule_re t" by simp
  moreover have "\<not> re_lang ct_rule_re t"
  proof
    assume "re_lang ct_rule_re t"
    then consider "t = []" | r where "t = CHR '' '' # CHR ''['' # r @ '']''" "list_all not_bracket r"
      unfolding ct_rule_lang by blast
    then show False
      using assms by cases (auto simp: list_all_iff not_bracket_def)
  qed
  ultimately show ?thesis by (simp add: hit_def)
qed

lemma ct_rule_some:
  assumes "list_all not_bracket rule" and "rule \<noteq> []"
  shows "re_run ct_rule_re (CHR '' '' # CHR ''['' # rule @ '']'') c accept =
    Some (c(7 \<mapsto> rule, 6 \<mapsto> CHR '' '' # CHR ''['' # rule @ '']''))"
proof -
  have "\<not> not_bracket CHR '']''" by (simp add: not_bracket_def)
  with assms show ?thesis
    unfolding ct_rule_re_def
    by (simp add: has_prefix_def rep_run_eq Suc_le_eq)
qed

definition ct_head_caps :: "char \<Rightarrow> string \<Rightarrow> string \<Rightarrow> string \<Rightarrow> string \<Rightarrow> caps" where
  "ct_head_caps p path ln col sev =
     Map.empty(1 \<mapsto> p # path, 2 \<mapsto> ln, 3 \<mapsto> col, 4 \<mapsto> sev)"

definition ct_msg_cont :: "caps \<Rightarrow> string \<Rightarrow> string \<Rightarrow> caps option" where
  "ct_msg_cont c rest t = re_run ct_rule_re t (c(5 \<mapsto> take (length rest - length t) rest)) accept"

lemma ct_sev_run:
  assumes "sev \<in> {''error'', ''warning'', ''remark'', ''note''}" and "hit (k ('': '' @ t) c)"
  shows "re_run (Alt (Lit ''error'') (Alt (Lit ''warning'') (Alt (Lit ''remark'') (Lit ''note''))))
    (sev @ '': '' @ t) c k = k ('': '' @ t) c"
  using assms by (auto simp: has_prefix_def hit_def)

lemma ct_head_run:
  assumes wf: "ct_wellformed p path ln col sev msg"
    and h: "hit (lazy_run re_dot rest (ct_msg_cont (ct_head_caps p path ln col sev) rest))"
  shows "re_run ct_diagRE (ct_head p path ln col sev @ rest) Map.empty accept =
    lazy_run re_dot rest (ct_msg_cont (ct_head_caps p path ln col sev) rest)"
proof -
  let ?c4 = "ct_head_caps p path ln col sev"
  let ?R = "lazy_run re_dot rest (ct_msg_cont ?c4 rest)"
  let ?c1 = "Map.empty(1 \<mapsto> p # path)" and ?c2 = "Map.empty(1 \<mapsto> p # path, 2 \<mapsto> ln)"
  let ?c3 = "Map.empty(1 \<mapsto> p # path, 2 \<mapsto> ln, 3 \<mapsto> col)"
  define r5 where "r5 = Seq (Lit '': '') (Seq (Cap 5 (Lazy re_dot)) ct_rule_re)"
  define r4 where "r4 = Seq (Cap 4 (Alt (Lit ''error'') (Alt (Lit ''warning'') (Alt (Lit ''remark'') (Lit ''note''))))) r5"
  define r3 where "r3 = Seq (Cap 3 (plus digit)) (Seq (Lit '': '') r4)"
  define r2 where "r2 = Seq (Cap 2 (plus digit)) (Seq (Lit '':'') r3)"
  have w: "path_start p" "list_all not_colon path" "list_all digit ln" "ln \<noteq> []"
    "list_all digit col" "col \<noteq> []" "sev \<in> {''error'', ''warning'', ''remark'', ''note''}"
    using wf by (auto simp: ct_wellformed_def)
  have 5: "re_run r5 ('': '' @ rest) ?c4 accept = ?R"
    by (simp add: r5_def has_prefix_def ct_msg_cont_def [abs_def])
  have 4: "re_run r4 (sev @ '': '' @ rest) ?c3 accept = ?R"
    using w(7) h 5 ct_sev_run [of sev "\<lambda>t d. re_run r5 t (d(4 \<mapsto> take (length (sev @ '': '' @ rest) - length t) (sev @ '': '' @ rest))) accept" rest ?c3]
    by (simp add: r4_def ct_head_caps_def)
  have 3: "re_run r3 (col @ '': '' @ sev @ '': '' @ rest) ?c2 accept = ?R"
    using w(5,6) h 4
    by (simp add: r3_def has_prefix_def rep_run_eq Suc_le_eq)
  have 2: "re_run r2 (ln @ '':'' @ col @ '': '' @ sev @ '': '' @ rest) ?c1 accept = ?R"
    using w(3,4) h 3
    by (simp add: r2_def has_prefix_def rep_run_eq Suc_le_eq)
  have re: "ct_diagRE = Seq (Cap 1 (Seq (one path_start) (star not_colon))) (Seq (Lit '':'') r2)"
    by (simp add: ct_diagRE_def r2_def r3_def r4_def r5_def)
  show ?thesis
    unfolding re using w(1,2) h 2
    by (simp add: ct_head_def has_prefix_def rep_run_eq)
qed

lemma ct_msg_run:
  assumes "list_all re_dot msg" and "list_all not_bracket rule" and "rule \<noteq> []"
  shows "lazy_run re_dot (msg @ '' ['' @ rule @ '']'') (ct_msg_cont c (msg @ '' ['' @ rule @ '']'')) =
    Some (c(5 \<mapsto> msg, 7 \<mapsto> rule, 6 \<mapsto> '' ['' @ rule @ '']''))"
proof -
  let ?r = "'' ['' @ rule @ '']''"
  have hit: "ct_msg_cont c (msg @ ?r) ?r = Some (c(5 \<mapsto> msg, 7 \<mapsto> rule, 6 \<mapsto> ?r))"
    using assms(2,3) by (simp add: ct_msg_cont_def ct_rule_some)
  have "ct_msg_cont c (msg @ ?r) (drop i (msg @ ?r)) = None" if "i < length msg" for i
  proof -
    have "CHR ''['' \<in> set (tl (tl (drop i (msg @ ?r))))"
    proof (cases "drop i msg")
      case (Cons x xs)
      then show ?thesis using that by (cases xs) auto
    qed (use that in simp)
    then show ?thesis by (simp add: ct_msg_cont_def ct_rule_none)
  qed
  with assms(1) show ?thesis by (subst lazy_run_eq) (simp_all add: hit [simplified])
qed

lemma ct_line_print:
  assumes "ct_wellformed p path ln col sev msg" and "list_all not_bracket rule" and "rule \<noteq> []"
  shows "ct_line (ct_print p path ln col sev msg rule) =
    map_option (\<lambda>s. \<lparr>f_path = p # path, f_line = atoi ln, f_column = atoi col, f_end_line = 0,
      f_end_column = 0, f_severity = s, f_rule = rule, f_message = msg\<rparr>) (severityByName sev)"
proof -
  let ?c = "ct_head_caps p path ln col sev"
  have "list_all re_dot msg" using assms(1) by (simp add: ct_wellformed_def)
  note m = ct_msg_run [OF this assms(2,3), of ?c]
  have "re_full ct_diagRE (ct_print p path ln col sev msg rule) =
      Some (?c(5 \<mapsto> msg, 7 \<mapsto> rule, 6 \<mapsto> '' ['' @ rule @ '']''))"
    using ct_head_run [OF assms(1), of "msg @ '' ['' @ rule @ '']''"] m
    by (simp add: re_full_def ct_print_def)
  then show ?thesis
    by (simp add: ct_line_def ct_head_caps_def submatch_def split: option.splits)
qed

section \<open>The whole output\<close>

lemma ct_stream_eq: "ct_stream acc lines = acc @ List.map_filter ct_line lines"
  by (induction acc lines rule: ct_stream.induct)
    (auto simp: List.map_filter_def split: option.splits)

lemma ct_line_ok:
  assumes "ct_line raw = Some f"
  shows "finding_ok f"
proof -
  from assms obtain m where m: "re_full ct_diagRE raw = Some m"
    and f: "f_severity f \<in> set contract_severities" "f_line f = atoi (submatch m 2)"
      "f_column f = atoi (submatch m 3)" "f_end_line f = 0" "f_end_column f = 0"
    by (auto simp: ct_line_def severityByName_def contract_severities_def
        split: option.splits if_splits)
  have "list_all digit (submatch m 2)" "list_all digit (submatch m 3)"
    using submatch_lang [OF m, of 2] submatch_lang [OF m, of 3]
    by (auto simp: ct_diagRE_def ct_rule_re_def)
  with f show ?thesis by (simp add: finding_ok_def atoi_nonneg)
qed

text \<open>A non-zero exit is an operational failure only when nothing could be parsed.\<close>

lemma ct_parse_cases:
  "ct_parse language tool out err code =
     (let fs = List.map_filter ct_line (split_on CHR 0x0A out) @
               List.map_filter ct_line (split_on CHR 0x0A err)
      in if code \<noteq> 0 \<and> fs = [] then Inl (NoDiagnostics ''clang-tidy'' code (StderrSnippet err))
         else Inr \<lparr>r_version = 1, r_language = language, r_tool = tool,
                   r_tool_id = ''clang-tidy'', r_findings = Some fs\<rparr>)"
  by (simp add: ct_parse_def ct_stream_eq ReportVersion_def ct_ToolID_def)

lemma ct_lines_ok: "list_all finding_ok (List.map_filter ct_line lines)"
  by (rule list_all_map_filter) (rule ct_line_ok)

interpretation ct: lint_driver "ct_New tool language name std" finding_ok
proof unfold_locales
  show "\<exists>prog pre post. l_command (ct_New tool language name std) files = prog # pre @ files @ post" for files
    by (intro exI [of _ "''clang-tidy''"] exI [of _ "[]"] exI) (simp add: ct_New_def ct_command_def)
qed (auto simp: ct_New_def ct_parse_cases Let_def ReportVersion_def ct_lines_ok split: if_splits)

end
