(* ===== verification/Driver_Govet.thy ===== *)
theory Driver_Govet
  imports Driver_Clangtidy
begin

text \<open>
  \<open>languages/internal/govet/govet.go\<close>: the \<open>go vet\<close> driver.  Diagnostics come on stderr;
  a line with the \<open>vet:\<close> prefix is a compile error, any other diagnostic a warning.
\<close>

definition gv_ToolID :: string where
  "gv_ToolID = ''go vet''"

text \<open>\<^verbatim>\<open>^([^\s:][^:]*\.go):(\d+)(?::(\d+))?: (.+)$\<close>\<close>

definition gv_col_re :: re where
  "gv_col_re = Opt (Seq (Lit '':'') (Cap 3 (plus digit)))"

definition gv_diagRE :: re where
  "gv_diagRE =
     Seq (Cap 1 (Seq (one path_start) (Seq (star not_colon) (Lit ''.go''))))
    (Seq (Lit '':'') (Seq (Cap 2 (plus digit))
    (Seq gv_col_re (Seq (Lit '': '') (Cap 4 (plus re_dot))))))"

definition gv_command :: "string list \<Rightarrow> string list" where
  "gv_command files = [''go'', ''vet''] @ files"

definition gv_env :: "string list" where
  "gv_env =
     [''GOCACHE=/tmp/cobe-gocache'', ''GOPATH=/tmp/cobe-gopath'', ''GOTOOLCHAIN=local'',
      ''GOPROXY=off'', ''GOMAXPROCS=2'']"

definition gv_line :: "string \<Rightarrow> finding option" where
  "gv_line raw =
     (let line = trim_space raw
      in if line = [] \<or> has_prefix line ''#'' then None
         else (case cut_prefix line ''vet: '' of (rest, ok) \<Rightarrow>
           (let severity = (if ok then SeverityError else SeverityWarning)
            in case re_full gv_diagRE rest of
                 None \<Rightarrow> None
               | Some m \<Rightarrow> Some
                   \<lparr>f_path = submatch m 1, f_line = atoi (submatch m 2),
                    f_column = (if submatch m 3 \<noteq> [] then atoi (submatch m 3) else 0),
                    f_end_line = 0, f_end_column = 0, f_severity = severity,
                    f_rule = [], f_message = submatch m 4\<rparr>)))"

fun gv_lines :: "finding list \<Rightarrow> string list \<Rightarrow> finding list" where
  "gv_lines findings [] = findings"
| "gv_lines findings (raw # lines) =
     (case gv_line raw of
        None \<Rightarrow> gv_lines findings lines
      | Some f \<Rightarrow> gv_lines (findings @ [f]) lines)"

definition gv_parse :: "string \<Rightarrow> string \<Rightarrow> string \<Rightarrow> string \<Rightarrow> int \<Rightarrow> parse_error + report" where
  "gv_parse language tool stdout stderr exitCode =
     (let findings = gv_lines [] (split_on CHR 0x0A stderr)
      in if exitCode \<noteq> 0 \<and> findings = []
         then Inl (NoDiagnostics ''go vet'' exitCode (StderrSnippet stderr))
         else Inr \<lparr>r_version = ReportVersion, r_language = language, r_tool = tool,
                   r_tool_id = gv_ToolID, r_findings = Some findings\<rparr>)"

definition gv_New :: "string \<Rightarrow> string \<Rightarrow> string \<Rightarrow> linter" where
  "gv_New tool language name =
     \<lparr>l_language = language, l_name = name, l_command = gv_command,
      l_parse = gv_parse language tool, l_env = Some gv_env, l_release = None\<rparr>"

section \<open>Reading one diagnostic\<close>

text \<open>\<open>go vet\<close>'s format: the column is optional.\<close>

definition gv_print :: "char \<Rightarrow> string \<Rightarrow> string \<Rightarrow> string option \<Rightarrow> string \<Rightarrow> string" where
  "gv_print p path ln col msg =
     [p] @ path @ ''.go:'' @ ln @ (case col of None \<Rightarrow> [] | Some c \<Rightarrow> '':'' @ c) @ '': '' @ msg"

definition gv_wellformed :: "char \<Rightarrow> string \<Rightarrow> string \<Rightarrow> string option \<Rightarrow> string \<Rightarrow> bool" where
  "gv_wellformed p path ln col msg \<longleftrightarrow>
     path_start p \<and> list_all not_colon path \<and> list_all digit ln \<and> ln \<noteq> [] \<and>
     (\<forall>c. col = Some c \<longrightarrow> list_all digit c \<and> c \<noteq> []) \<and> list_all re_dot msg \<and> msg \<noteq> []"

definition gv_tail :: re where
  "gv_tail = Seq (Lit '': '') (Cap 4 (plus re_dot))"

lemma gv_tail_run:
  assumes "list_all re_dot msg" and "msg \<noteq> []"
  shows "re_run gv_tail ('': '' @ msg) c accept = Some (c(4 \<mapsto> msg))"
  using assms
  by (simp add: gv_tail_def has_prefix_def rep_run_eq_all Suc_le_eq)

lemma gv_col_run:
  assumes "list_all digit col" and "col \<noteq> []" and "list_all re_dot msg" and "msg \<noteq> []"
  shows "re_run gv_col_re ('':'' @ col @ '': '' @ msg) c (\<lambda>t d. re_run gv_tail t d accept) =
    Some (c(3 \<mapsto> col, 4 \<mapsto> msg))"
  using assms gv_tail_run [OF assms(3,4), of "c(3 \<mapsto> col)"]
  by (simp add: gv_col_re_def has_prefix_def rep_run_eq Suc_le_eq)

lemma gv_nocol_run:
  assumes "list_all re_dot msg" and "msg \<noteq> []"
  shows "re_run gv_col_re ('': '' @ msg) c (\<lambda>t d. re_run gv_tail t d accept) = Some (c(4 \<mapsto> msg))"
  using gv_tail_run [OF assms, of c]
  by (simp add: gv_col_re_def has_prefix_def digit_def)

lemma gv_match:
  assumes "gv_wellformed p path ln col msg"
  shows "re_full gv_diagRE (gv_print p path ln col msg) =
    Some (case col of
        None \<Rightarrow> Map.empty(1 \<mapsto> p # path @ ''.go'', 2 \<mapsto> ln, 4 \<mapsto> msg)
      | Some c \<Rightarrow> Map.empty(1 \<mapsto> p # path @ ''.go'', 2 \<mapsto> ln, 3 \<mapsto> c, 4 \<mapsto> msg))"
proof -
  define rest where "rest = (case col of None \<Rightarrow> [] | Some c \<Rightarrow> '':'' @ c) @ '': '' @ msg"
  define R :: caps where "R = (case col of
        None \<Rightarrow> Map.empty(1 \<mapsto> p # path @ ''.go'', 2 \<mapsto> ln, 4 \<mapsto> msg)
      | Some c \<Rightarrow> Map.empty(1 \<mapsto> p # path @ ''.go'', 2 \<mapsto> ln, 3 \<mapsto> c, 4 \<mapsto> msg))"
  let ?k = "\<lambda>t d. re_run gv_tail t d accept"
  define r2 where "r2 = Seq (Cap 2 (plus digit)) (Seq gv_col_re gv_tail)"
  have w: "path_start p" "list_all not_colon path" "list_all digit ln" "ln \<noteq> []"
    "list_all re_dot msg" "msg \<noteq> []"
    using assms by (auto simp: gv_wellformed_def)
  have 3: "re_run gv_col_re rest (Map.empty(1 \<mapsto> p # path @ ''.go'', 2 \<mapsto> ln)) ?k = Some R"
    using assms w gv_nocol_run gv_col_run
    by (cases col) (auto simp: rest_def R_def gv_wellformed_def fun_upd_twist)
  have hdrest: "rest \<noteq> [] \<and> \<not> digit (hd rest)"
    by (cases col) (auto simp: rest_def digit_def)
  have 2: "re_run r2 (ln @ rest) (Map.empty(1 \<mapsto> p # path @ ''.go'')) accept = Some R"
    using w 3 hdrest by (simp add: r2_def rep_run_eq Suc_le_eq)
  have go: "list_all not_colon (path @ ''.go'')" using w by (simp add: not_colon_def)
  have re: "gv_diagRE = Seq (Cap 1 (Seq (one path_start) (Seq (star not_colon) (Lit ''.go''))))
      (Seq (Lit '':'') r2)"
    by (simp add: gv_diagRE_def r2_def gv_tail_def)
  have drops: "has_prefix (drop i (''.go'' @ '':'' @ t)) ''.go'' = False"
    if "0 < i" "i \<le> length ''.go''" for i t
  proof -
    from that have "i = 1 \<or> i = 2 \<or> i = 3" by auto
    then show ?thesis by (auto simp: has_prefix_def)
  qed
  let ?s = "[p] @ path @ ''.go'' @ '':'' @ ln @ rest"
  define kk where "kk = (\<lambda>t. re_run (Lit ''.go'') t Map.empty (\<lambda>t d. re_run (Seq (Lit '':'') r2) t
      (d(1 \<mapsto> take (length ?s - length t) ?s)) accept))"
  have "take (4 + length path) (p # path @ CHR ''.'' # CHR ''g'' # CHR ''o'' # x) =
      p # path @ ''.go''" for x
    by (simp add: take_Cons' numeral_eq_Suc)
  then have kk: "kk (''.go'' @ '':'' @ ln @ rest) = Some R"
    using 2 by (simp add: has_prefix_def kk_def)
  have none: "kk (drop i (''.go'' @ '':'' @ ln @ rest)) = None"
    if "0 < i" "i \<le> length ''.go''" for i
    using drops [OF that, of "ln @ rest"] by (simp add: kk_def)
  have "rep_run not_colon 0 None (path @ ''.go'' @ '':'' @ ln @ rest) kk =
      kk (''.go'' @ '':'' @ ln @ rest)"
    using go none kk by (intro rep_run_give_back) (simp_all add: hit_def)
  moreover have "re_full gv_diagRE ?s = rep_run not_colon 0 None (path @ ''.go'' @ '':'' @ ln @ rest) kk"
    using w(1) by (simp add: re_full_def re kk_def)
  ultimately have "re_full gv_diagRE ?s = Some R" using kk by simp
  moreover have "gv_print p path ln col msg = ?s"
    by (simp add: gv_print_def rest_def)
  ultimately show ?thesis by (simp add: R_def)
qed

text \<open>A diagnostic, plain or behind the \<open>vet:\<close> prefix of a compile error.\<close>

lemma gv_line_print:
  assumes wf: "gv_wellformed p path ln col msg"
    and raw: "trim_space raw = (if compile then ''vet: '' else []) @ gv_print p path ln col msg"
    and start: "p \<noteq> CHR ''#''" and novet: "\<not> has_prefix (gv_print p path ln col msg) ''vet: ''"
  shows "gv_line raw = Some
    \<lparr>f_path = p # path @ ''.go'', f_line = atoi ln,
     f_column = (case col of None \<Rightarrow> 0 | Some c \<Rightarrow> atoi c), f_end_line = 0, f_end_column = 0,
     f_severity = (if compile then SeverityError else SeverityWarning), f_rule = [],
     f_message = msg\<rparr>"
proof -
  let ?d = "gv_print p path ln col msg"
  have d: "?d = p # tl ?d" by (simp add: gv_print_def)
  have "\<forall>c. col = Some c \<longrightarrow> c \<noteq> []" using wf by (auto simp: gv_wellformed_def)
  moreover have "\<not> has_prefix (trim_space raw) ''#''" "trim_space raw \<noteq> []"
    using start d by (auto simp: raw has_prefix_def split: if_splits)
      (metis list.inject take_Suc_Cons)+
  moreover have "cut_prefix (trim_space raw) ''vet: '' = (?d, compile)"
    using novet by (auto simp: raw cut_prefix_def has_prefix_def)
  moreover note gv_match [OF wf]
  ultimately show ?thesis
    by (cases col) (simp_all add: gv_line_def submatch_def)
qed

section \<open>The whole output\<close>

lemma gv_lines_eq: "gv_lines acc lines = acc @ List.map_filter gv_line lines"
  by (induction acc lines rule: gv_lines.induct)
    (auto simp: List.map_filter_def split: option.splits)

lemma gv_line_ok:
  assumes "gv_line raw = Some f"
  shows "finding_ok f"
proof -
  from assms obtain m rest where m: "re_full gv_diagRE rest = Some m"
    and f: "f_severity f \<in> set contract_severities" "f_line f = atoi (submatch m 2)"
      "f_column f = (if submatch m 3 \<noteq> [] then atoi (submatch m 3) else 0)"
      "f_end_line f = 0" "f_end_column f = 0"
    by (auto simp: gv_line_def Let_def contract_severities_def
        split: option.splits if_splits prod.splits)
  have "list_all digit (submatch m 2)" "list_all digit (submatch m 3)"
    using submatch_lang [OF m, of 2] submatch_lang [OF m, of 3]
    by (auto simp: gv_diagRE_def gv_col_re_def)
  with f show ?thesis by (simp add: finding_ok_def atoi_nonneg)
qed

lemma gv_lines_ok: "list_all finding_ok (List.map_filter gv_line lines)"
  by (rule list_all_map_filter) (rule gv_line_ok)

lemma gv_parse_cases:
  "gv_parse language tool out err code =
     (let fs = List.map_filter gv_line (split_on CHR 0x0A err)
      in if code \<noteq> 0 \<and> fs = [] then Inl (NoDiagnostics ''go vet'' code (StderrSnippet err))
         else Inr \<lparr>r_version = 1, r_language = language, r_tool = tool,
                   r_tool_id = ''go vet'', r_findings = Some fs\<rparr>)"
  by (simp add: gv_parse_def gv_lines_eq ReportVersion_def gv_ToolID_def Let_def)

interpretation gv: lint_driver "gv_New tool language name" finding_ok
proof unfold_locales
  show "\<exists>prog pre post. l_command (gv_New tool language name) files = prog # pre @ files @ post" for files
    by (intro exI [of _ "''go''"] exI [of _ "[''vet'']"] exI [of _ "[]"])
      (simp add: gv_New_def gv_command_def)
qed (auto simp: gv_New_def gv_parse_cases Let_def ReportVersion_def gv_lines_ok split: if_splits)

end
