(* ===== verification/Go_Json.thy ===== *)
theory Go_Json
  imports Go_Regexp
begin

text \<open>
  The decoding half of Go's \<open>encoding/json\<close> that the program uses: from a JSON value to
  Go structs.  An object is the list of its members in document order; members decode
  one after the other into the struct, so the last of several equal keys wins, an
  unknown key is ignored and \<open>null\<close> leaves a non-pointer field as it is.  A field name
  matches a key exactly or, failing that, under Unicode case folding.  The step from
  text to a JSON value is \<open>Json_Parse\<close>.
\<close>

datatype json =
    JNull
  | JBool bool
  | JNum string              \<comment> \<open>the number's literal\<close>
  | JStr string
  | JArr "json list"
  | JObj "(string \<times> json) list"

section \<open>Integers\<close>

definition in_int64 :: "int \<Rightarrow> bool" where
  "in_int64 n \<longleftrightarrow> - (2 ^ 63) \<le> n \<and> n < 2 ^ 63"

definition wrap64 :: "int \<Rightarrow> int" where
  "wrap64 n = (n + 2 ^ 63) mod 2 ^ 64 - 2 ^ 63"

lemma wrap64_in: "in_int64 (wrap64 n)"
  unfolding in_int64_def wrap64_def
  using pos_mod_bound [of "2 ^ 64" "n + 2 ^ 63"] pos_mod_sign [of "2 ^ 64" "n + 2 ^ 63"] by simp

lemma wrap64_id: "in_int64 n \<Longrightarrow> wrap64 n = n"
  by (simp add: in_int64_def wrap64_def)

definition digits_value :: "string \<Rightarrow> int" where
  "digits_value s = foldl (\<lambda>n c. 10 * n + (int (of_char c) - 48)) 0 s"

text \<open>\<open>strconv.ParseInt(lit, 10, 64)\<close>: a fraction, an exponent or an overflow fails.\<close>

definition parse_int :: "string \<Rightarrow> int option" where
  "parse_int lit =
     (case lit of
        [] \<Rightarrow> None
      | c # ds \<Rightarrow>
          let neg = (c = CHR ''-'');
              body = (if neg then ds else lit);
              v = (if neg then - digits_value body else digits_value body)
          in if body \<noteq> [] \<and> list_all digit body \<and> in_int64 v then Some v else None)"

section \<open>Field names\<close>

text \<open>
  Folding of a key: ASCII letters to one case, and the two other runes that fold to an
  ASCII letter, U+017F (to s) and U+212A (to k).
\<close>

fun fold_name :: "string \<Rightarrow> string" where
  "fold_name [] = []"
| "fold_name (c # cs) =
     (if upper c then char_of (of_char c + (32::nat)) # fold_name cs
      else (case cs of
          d # ds \<Rightarrow>
            if c = CHR 0xC5 \<and> d = CHR 0xBF then CHR ''s'' # fold_name ds
            else (case ds of
                e # es \<Rightarrow>
                  if c = CHR 0xE2 \<and> d = CHR 0x84 \<and> e = CHR 0xAA then CHR ''k'' # fold_name es
                  else c # fold_name cs
              | [] \<Rightarrow> c # fold_name cs)
        | [] \<Rightarrow> c # fold_name cs))"

text \<open>The field of a struct that a key names.\<close>

definition field_of :: "string list \<Rightarrow> string \<Rightarrow> string option" where
  "field_of names key =
     (if key \<in> set names then Some key
      else List.find (\<lambda>n. fold_name n = fold_name key) names)"

section \<open>Decoders\<close>

text \<open>A decoder takes the field's current value; \<open>None\<close> is an UnmarshalTypeError.\<close>

type_synonym 'a decoder = "'a \<Rightarrow> json \<Rightarrow> 'a option"

definition dec_string :: "string decoder" where
  "dec_string cur j = (case j of JStr s \<Rightarrow> Some s | JNull \<Rightarrow> Some cur | _ \<Rightarrow> None)"

definition dec_int :: "int decoder" where
  "dec_int cur j = (case j of JNum l \<Rightarrow> parse_int l | JNull \<Rightarrow> Some cur | _ \<Rightarrow> None)"

text \<open>Pointer fields: \<open>null\<close> sets nil.\<close>

definition dec_ptr :: "'a \<Rightarrow> 'a decoder \<Rightarrow> 'a option decoder" where
  "dec_ptr zero dec cur j =
     (case j of
        JNull \<Rightarrow> Some None
      | _ \<Rightarrow> map_option Some (dec (case cur of Some v \<Rightarrow> v | None \<Rightarrow> zero) j))"

text \<open>Slices: \<open>null\<close> sets nil, an array decodes element by element into zero values.\<close>

fun dec_elems :: "'a \<Rightarrow> 'a decoder \<Rightarrow> json list \<Rightarrow> 'a list option" where
  "dec_elems zero dec [] = Some []"
| "dec_elems zero dec (j # js) =
     (case dec zero j of
        None \<Rightarrow> None
      | Some v \<Rightarrow> map_option ((#) v) (dec_elems zero dec js))"

definition dec_slice :: "'a \<Rightarrow> 'a decoder \<Rightarrow> 'a list option decoder" where
  "dec_slice zero dec cur j =
     (case j of
        JNull \<Rightarrow> Some None
      | JArr js \<Rightarrow> map_option Some (dec_elems zero dec js)
      | _ \<Rightarrow> None)"

text \<open>Structs: \<open>setf\<close> decodes the member of a field into the struct.\<close>

fun dec_members ::
  "string list \<Rightarrow> (string \<Rightarrow> 'j \<Rightarrow> 'a \<Rightarrow> 'a option) \<Rightarrow> (string \<times> 'j) list \<Rightarrow> 'a \<Rightarrow> 'a option" where
  "dec_members names setf [] v = Some v"
| "dec_members names setf ((k, j) # ms) v =
     (case field_of names k of
        None \<Rightarrow> dec_members names setf ms v
      | Some n \<Rightarrow>
          (case setf n j v of
             None \<Rightarrow> None
           | Some v' \<Rightarrow> dec_members names setf ms v'))"

definition dec_struct ::
  "string list \<Rightarrow> (string \<Rightarrow> json \<Rightarrow> 'a \<Rightarrow> 'a option) \<Rightarrow> 'a decoder" where
  "dec_struct names setf cur j =
     (case j of
        JObj ms \<Rightarrow> dec_members names setf ms cur
      | JNull \<Rightarrow> Some cur
      | _ \<Rightarrow> None)"

lemma dec_elems_all:
  "dec_elems zero dec js = Some vs \<Longrightarrow> (\<And>j v. dec zero j = Some v \<Longrightarrow> P v) \<Longrightarrow> list_all P vs"
  by (induction js arbitrary: vs) (auto split: option.splits)

lemma dec_elems_length: "dec_elems zero dec js = Some vs \<Longrightarrow> length vs = length js"
  by (induction js arbitrary: vs) (auto split: option.splits)

lemma dec_members_inv:
  assumes "dec_members names setf ms v = Some w" and "P v"
    and "\<And>n j v v'. P v \<Longrightarrow> setf n j v = Some v' \<Longrightarrow> P v'"
  shows "P w"
  using assms(1,2)
proof (induction ms arbitrary: v)
  case (Cons m ms)
  then show ?case
    using assms(3) by (cases m) (auto split: option.splits)
qed simp

end
