(* ===== verification/Json_Text.thy ===== *)
theory Json_Text
  imports Go_Json
begin

text \<open>
  The encoding half of \<open>encoding/json\<close> and of \<open>strconv\<close>: decimal integers, string
  literals with and without HTML escaping, and compact documents.  The one fact about
  them that the program's line protocol and its single-line responses rest on is
  \<open>json_text_no_newline\<close>.
\<close>

section \<open>Integers\<close>

fun nat_digits :: "nat \<Rightarrow> string" where
  "nat_digits n = (if n < 10 then [char_of (48 + n)] else nat_digits (n div 10) @ [char_of (48 + n mod 10)])"

declare nat_digits.simps [simp del]

definition int_text :: "int \<Rightarrow> string" where
  "int_text i = (if i < 0 then CHR ''-'' # nat_digits (nat (- i)) else nat_digits (nat i))"

lemma digit_char: "(n::nat) < 10 \<Longrightarrow> digit (char_of (48 + n))"
  by (simp add: digit_def)

lemma nat_digits_digits: "list_all digit (nat_digits n)"
proof (induction n rule: nat_digits.induct)
  case (1 n)
  then show ?case by (simp add: nat_digits.simps [of n] digit_char)
qed

lemma nat_digits_not_Nil [simp]: "nat_digits n \<noteq> []"
  by (simp add: nat_digits.simps [of n])

lemma digits_value_snoc: "digits_value (s @ [c]) = 10 * digits_value s + (int (of_char c) - 48)"
  by (simp add: digits_value_def)

lemma digits_value_nat: "digits_value (nat_digits n) = int n"
proof (induction n rule: nat_digits.induct)
  case (1 n)
  show ?case
  proof (cases "n < 10")
    case False
    with 1 have "digits_value (nat_digits n) = 10 * int (n div 10) + int (n mod 10)"
      by (simp add: nat_digits.simps [of n] digits_value_snoc of_nat_mod)
    also have "\<dots> = int (10 * (n div 10) + n mod 10)" by (simp only: of_nat_add of_nat_mult of_nat_numeral)
    also have "\<dots> = int n" by (simp only: mult_div_mod_eq)
    finally show ?thesis .
  qed (simp add: nat_digits.simps [of n] digits_value_def)
qed

text \<open>Printing and \<open>ParseInt\<close> are inverse on 64-bit integers.\<close>

lemma parse_int_text: "in_int64 i \<Longrightarrow> parse_int (int_text i) = Some i"
proof -
  assume i: "in_int64 i"
  show ?thesis
  proof (cases "i < 0")
    case True
    with i show ?thesis
      by (simp add: parse_int_def int_text_def nat_digits_digits digits_value_nat)
  next
    case False
    obtain c cs where n: "nat_digits (nat i) = c # cs" by (cases "nat_digits (nat i)") auto
    with nat_digits_digits [of "nat i"] have "c \<noteq> CHR ''-''" by (auto simp: digit_def)
    with False i n show ?thesis
      using nat_digits_digits [of "nat i"] digits_value_nat [of "nat i"]
      by (simp add: parse_int_def int_text_def)
  qed
qed

section \<open>String literals\<close>

text \<open>
  The length of the UTF-8 encoded rune at the start of a non-empty string, zero when the
  bytes are not one (\<open>utf8.DecodeRune\<close> returning \<open>RuneError\<close> of size 1).
\<close>

definition byte_in :: "nat \<Rightarrow> nat \<Rightarrow> string \<Rightarrow> nat \<Rightarrow> bool" where
  "byte_in lo hi s i \<longleftrightarrow> i < length s \<and> lo \<le> of_char (s ! i) \<and> of_char (s ! i) \<le> hi"

definition rune_size :: "string \<Rightarrow> nat" where
  "rune_size s =
     (if byte_in 0 127 s 0 then 1
      else if byte_in 194 223 s 0 then (if byte_in 128 191 s 1 then 2 else 0)
      else if byte_in 224 239 s 0
      then (if byte_in (if s ! 0 = CHR 0xE0 then 160 else 128) (if s ! 0 = CHR 0xED then 159 else 191) s 1
              \<and> byte_in 128 191 s 2 then 3 else 0)
      else if byte_in 240 244 s 0
      then (if byte_in (if s ! 0 = CHR 0xF0 then 144 else 128) (if s ! 0 = CHR 0xF4 then 143 else 191) s 1
              \<and> byte_in 128 191 s 2 \<and> byte_in 128 191 s 3 then 4 else 0)
      else 0)"

definition hex_char :: "nat \<Rightarrow> char" where
  "hex_char n = (if n < 10 then char_of (48 + n) else char_of (87 + n))"

text \<open>One ASCII byte of a literal.\<close>

definition ascii_escape :: "bool \<Rightarrow> char \<Rightarrow> string" where
  "ascii_escape html c =
     (if c = CHR 0x5C \<or> c = CHR 0x22 then [CHR 0x5C, c]
      else if c = CHR 0x08 then [CHR 0x5C, CHR ''b'']
      else if c = CHR 0x0C then [CHR 0x5C, CHR ''f'']
      else if c = CHR 0x0A then [CHR 0x5C, CHR ''n'']
      else if c = CHR 0x0D then [CHR 0x5C, CHR ''r'']
      else if c = CHR 0x09 then [CHR 0x5C, CHR ''t'']
      else if (of_char c :: nat) < 32 \<or> html \<and> c \<in> set ''<>&''
      then [CHR 0x5C, CHR ''u'', CHR ''0'', CHR ''0'', hex_char (of_char c div 16), hex_char (of_char c mod 16)]
      else [c])"

definition line_separators :: "string list" where
  "line_separators = [[CHR 0xE2, CHR 0x80, CHR 0xA8], [CHR 0xE2, CHR 0x80, CHR 0xA9]]"

function json_chars :: "bool \<Rightarrow> string \<Rightarrow> string" where
  "json_chars html [] = []"
| "json_chars html (c # cs) =
     (let n = rune_size (c # cs); r = take n (c # cs)
      in if n = 0 then CHR 0x5C # ''ufffd'' @ json_chars html cs
         else (if n = 1 then ascii_escape html c
               else if r \<in> set line_separators
               then CHR 0x5C # ''u202'' @ [hex_char (of_char (last r) mod 16)]
               else r) @ json_chars html (drop (n - 1) cs))"
  by pat_completeness auto
termination
  by (relation "measure (\<lambda>(html, s). length s)") auto

definition json_string :: "bool \<Rightarrow> string \<Rightarrow> string" where
  "json_string html s = [CHR 0x22] @ json_chars html s @ [CHR 0x22]"

section \<open>Documents\<close>

text \<open>The compact form; \<open>marshal\<close> appends the newline of \<open>Encoder.Encode\<close>.\<close>

fun json_text :: "bool \<Rightarrow> json \<Rightarrow> string" where
  "json_text html JNull = ''null''"
| "json_text html (JBool b) = (if b then ''true'' else ''false'')"
| "json_text html (JNum l) = l"
| "json_text html (JStr s) = json_string html s"
| "json_text html (JArr js) = ''['' @ join_with CHR '','' (map (json_text html) js) @ '']''"
| "json_text html (JObj ms) =
     ''{'' @ join_with CHR '','' (map (\<lambda>(k, j). json_string html k @ '':'' @ json_text html j) ms) @ ''}''"

definition marshal :: "json \<Rightarrow> string" where
  "marshal j = json_text False j @ [CHR 0x0A]"

text \<open>
  The same text with white space: \<open>nl i\<close> starts a line at nesting \<open>i\<close>, \<open>sp\<close> follows a colon.
\<close>

fun join_text :: "string \<Rightarrow> string list \<Rightarrow> string" where
  "join_text sep [] = []"
| "join_text sep [s] = s"
| "join_text sep (s # t # ss) = s @ sep @ join_text sep (t # ss)"

fun json_layout :: "(nat \<Rightarrow> string) \<Rightarrow> string \<Rightarrow> bool \<Rightarrow> nat \<Rightarrow> json \<Rightarrow> string" where
  "json_layout nl sp html i (JArr js) =
     (if js = [] then ''[]''
      else ''['' @ nl (Suc i) @ join_text (CHR '','' # nl (Suc i)) (map (json_layout nl sp html (Suc i)) js)
        @ nl i @ '']'')"
| "json_layout nl sp html i (JObj ms) =
     (if ms = [] then ''{}''
      else ''{'' @ nl (Suc i)
        @ join_text (CHR '','' # nl (Suc i))
            (map (\<lambda>(k, j). json_string html k @ '':'' @ sp @ json_layout nl sp html (Suc i) j) ms)
        @ nl i @ ''}'')"
| "json_layout nl sp html i j = json_text html j"

text \<open>\<open>Encoder.Encode\<close> after \<open>SetIndent("", "  ")\<close> and \<open>SetEscapeHTML(false)\<close>.\<close>

definition indent :: "nat \<Rightarrow> string" where
  "indent i = CHR 0x0A # replicate (2 * i) CHR '' ''"

definition marshal_indent :: "json \<Rightarrow> string" where
  "marshal_indent j = json_layout indent '' '' False 0 j @ [CHR 0x0A]"

lemma join_text_char: "join_text [c] ss = join_with c ss"
  by (induction c ss rule: join_with.induct) auto

lemma json_layout_compact: "json_layout (\<lambda>_. []) [] html i j = json_text html j"
proof (induction "\<lambda>_::nat. [] :: string" "[] :: string" html i j rule: json_layout.induct)
  case (1 html i js)
  then have eq: "map (json_layout (\<lambda>_. []) [] html (Suc i)) js = map (json_text html) js"
    by (cases "js = []") simp_all
  show ?case by (simp add: join_text_char eq)
next
  case (2 html i ms)
  then have eq: "map (\<lambda>(k, j). json_string html k @ CHR '':'' # json_layout (\<lambda>_. []) [] html (Suc i) j) ms =
      map (\<lambda>(k, j). json_string html k @ CHR '':'' # json_text html j) ms"
    by (cases "ms = []") (auto intro!: map_cong)
  show ?case by (simp add: join_text_char eq)
qed simp_all

text \<open>Optional members of a struct (\<open>omitempty\<close> on a string).\<close>

definition omit_empty :: "string \<Rightarrow> string \<Rightarrow> (string \<times> json) list" where
  "omit_empty key v = (if v = [] then [] else [(key, JStr v)])"

section \<open>One document is one line\<close>

definition printable :: "char \<Rightarrow> bool" where
  "printable c \<longleftrightarrow> 32 \<le> (of_char c :: nat)"

lemma printable_ascii [simp]:
  "printable (CHR 0x5C)" "printable (CHR 0x22)" "printable CHR '',''" "printable CHR '':''"
  "printable CHR ''[''" "printable CHR '']''" "printable CHR ''{''" "printable CHR ''}''"
  "printable CHR ''n''" "printable CHR ''u''" "printable CHR ''l''" "printable CHR ''t''" "printable CHR ''r''" "printable CHR ''e''" "printable CHR ''f''" "printable CHR ''a''" "printable CHR ''s''"
  by (simp_all add: printable_def)

lemma hex_char_printable: "n < 16 \<Longrightarrow> printable (hex_char n)"
  by (simp add: hex_char_def printable_def)

lemma ascii_escape_printable: "list_all printable (ascii_escape html c)"
  by (auto simp: ascii_escape_def printable_def hex_char_printable [unfolded printable_def]
      less_mult_imp_div_less not_less)

lemma byte_in_high: "byte_in lo hi s i \<Longrightarrow> 32 \<le> lo \<Longrightarrow> printable (s ! i)"
  by (auto simp: byte_in_def printable_def)

lemma rune_size_high:
  assumes "1 < rune_size s" and "x \<in> set (take (rune_size s) s)"
  shows "printable x"
proof -
  obtain i where i: "i < rune_size s" "x = s ! i" using assms(2) by (auto simp: in_set_conv_nth)
  have le: "rune_size s \<le> 4" by (simp add: rune_size_def)
  have 0: "printable (s ! 0)"
    using assms(1) byte_in_high [of _ _ s 0] by (auto simp: rune_size_def split: if_splits)
  have 1: "printable (s ! 1)"
    using assms(1) byte_in_high [of _ _ s 1] by (auto simp: rune_size_def split: if_splits)
  have 2: "2 < rune_size s \<Longrightarrow> printable (s ! 2)"
    using byte_in_high [of _ _ s 2] by (auto simp: rune_size_def split: if_splits)
  have 3: "3 < rune_size s \<Longrightarrow> printable (s ! 3)"
    using byte_in_high [of _ _ s 3] by (auto simp: rune_size_def split: if_splits)
  from i(1) le have "i = 0 \<or> i = 1 \<or> i = 2 \<or> i = 3" by auto
  then show ?thesis using i 0 1 2 3 by auto
qed

lemma json_chars_printable: "list_all printable (json_chars html s)"
proof (induction html s rule: json_chars.induct)
  case (2 html c cs)
  let ?n = "rune_size (c # cs)"
  have mods: "printable (hex_char (of_char (last (take ?n (c # cs))) mod 16))"
    by (rule hex_char_printable) simp
  have take: "1 < ?n \<Longrightarrow> list_all printable (take ?n (c # cs))"
    using rune_size_high by (auto simp: list_all_iff)
  consider "?n = 0" | "?n = 1" | "1 < ?n" by linarith
  then show ?case
  proof cases
    case 1
    with 2 show ?thesis by (simp add: printable_def)
  next
    case n: 2
    with 2 show ?thesis by (simp add: ascii_escape_printable)
  next
    case 3
    with 2 show ?thesis using mods take by (simp add: Let_def) (simp add: printable_def)
  qed
qed simp

lemma join_with_all: "P c \<Longrightarrow> \<forall>s \<in> set ss. list_all P s \<Longrightarrow> list_all P (join_with c ss)"
  by (induction c ss rule: join_with.induct) auto

text \<open>A document whose number literals are digits and such.\<close>

fun json_plain :: "json \<Rightarrow> bool" where
  "json_plain (JNum l) \<longleftrightarrow> list_all printable l"
| "json_plain (JArr js) \<longleftrightarrow> (\<forall>j \<in> set js. json_plain j)"
| "json_plain (JObj ms) \<longleftrightarrow> (\<forall>m \<in> set ms. json_plain (snd m))"
| "json_plain j \<longleftrightarrow> True"

lemma json_text_printable: "json_plain j \<Longrightarrow> list_all printable (json_text html j)"
proof (induction html j rule: json_text.induct)
  case (6 html ms)
  have "list_all printable (json_string html k @ '':'' @ json_text html j)" if "(k, j) \<in> set ms" for k j
    using 6 that by (fastforce simp: json_string_def json_chars_printable)
  then show ?case by (auto intro!: join_with_all)
qed (auto simp: json_string_def json_chars_printable intro!: join_with_all)

lemma json_text_no_newline: "json_plain j \<Longrightarrow> CHR 0x0A \<notin> set (json_text html j)"
  using json_text_printable [of j html] by (auto simp: list_all_iff printable_def)

lemma int_text_printable: "list_all printable (int_text i)"
proof -
  have "list_all printable (nat_digits n)" for n
    using nat_digits_digits [of n] by (auto simp: list_all_iff digit_def printable_def)
  then show ?thesis by (simp add: int_text_def printable_def)
qed

end
