(* ===== verification/Json_Parse.thy ===== *)
theory Json_Parse
  imports Json_Text
begin

text \<open>
  The syntax half of \<open>encoding/json\<close>: from a text to a value.  \<open>json_parse\<close> is the syntax of
  \<open>Unmarshal\<close> and \<open>json_first\<close> that of one \<open>Decode\<close> of a \<open>Decoder\<close>; \<open>raw_object\<close> keeps the text of
  each member for a \<open>RawMessage\<close>.  What \<open>Json_Text\<close> writes is read back (\<open>json_parse_text\<close>).  The recursion is bounded by the length of the text,
  which is always enough (\<open>parse_fuel\<close>), and nesting by the package's limit.
\<close>

section \<open>Strings\<close>

definition hex_value :: "char \<Rightarrow> nat option" where
  "hex_value c =
     (let n = of_char c :: nat
      in if 48 \<le> n \<and> n \<le> 57 then Some (n - 48)
         else if 97 \<le> n \<and> n \<le> 102 then Some (n - 87)
         else if 65 \<le> n \<and> n \<le> 70 then Some (n - 55)
         else None)"

text \<open>Four hexadecimal digits.\<close>

fun hex4 :: "string \<Rightarrow> (nat \<times> string) option" where
  "hex4 (a # b # c # d # s) =
     (case (hex_value a, hex_value b, hex_value c, hex_value d) of
        (Some a, Some b, Some c, Some d) \<Rightarrow> Some (4096 * a + 256 * b + 16 * c + d, s)
      | _ \<Rightarrow> None)"
| "hex4 s = None"

text \<open>\<open>utf8.EncodeRune\<close>, for runes that are not surrogates.\<close>

definition utf8_encode :: "nat \<Rightarrow> string" where
  "utf8_encode u =
     (if u < 0x80 then [char_of u]
      else if u < 0x800 then [char_of (192 + u div 64), char_of (128 + u mod 64)]
      else if u < 0x10000
      then [char_of (224 + u div 4096), char_of (128 + u div 64 mod 64), char_of (128 + u mod 64)]
      else [char_of (240 + u div 262144), char_of (128 + u div 4096 mod 64),
            char_of (128 + u div 64 mod 64), char_of (128 + u mod 64)])"

definition replacement_char :: string where
  "replacement_char = [CHR 0xEF, CHR 0xBF, CHR 0xBD]"

text \<open>The second half of a surrogate pair.\<close>

definition low_surrogate :: "string \<Rightarrow> (nat \<times> string) option" where
  "low_surrogate s =
     (case s of
        a # b # r \<Rightarrow>
          if a = CHR 0x5C \<and> b = CHR ''u''
          then (case hex4 r of
              Some (u, r') \<Rightarrow> if 0xDC00 \<le> u \<and> u < 0xE000 then Some (u, r') else None
            | None \<Rightarrow> None)
          else None
      | _ \<Rightarrow> None)"

text \<open>What follows a backslash: the bytes it stands for and the rest.\<close>

definition unescape :: "string \<Rightarrow> (string \<times> string) option" where
  "unescape s =
     (case s of
        [] \<Rightarrow> None
      | e # r \<Rightarrow>
          if e = CHR 0x22 \<or> e = CHR 0x5C \<or> e = CHR 0x2F then Some ([e], r)
          else if e = CHR ''b'' then Some ([CHR 0x08], r)
          else if e = CHR ''f'' then Some ([CHR 0x0C], r)
          else if e = CHR ''n'' then Some ([CHR 0x0A], r)
          else if e = CHR ''r'' then Some ([CHR 0x0D], r)
          else if e = CHR ''t'' then Some ([CHR 0x09], r)
          else if e = CHR ''u''
          then (case hex4 r of
              None \<Rightarrow> None
            | Some (u, r') \<Rightarrow>
                if u < 0xD800 \<or> 0xE000 \<le> u then Some (utf8_encode u, r')
                else (case (if u < 0xDC00 then low_surrogate r' else None) of
                    Some (v, r'') \<Rightarrow> Some (utf8_encode (0x10000 + 1024 * (u - 0xD800) + (v - 0xDC00)), r'')
                  | None \<Rightarrow> Some (replacement_char, r')))
          else None)"

lemma hex4_length: "hex4 s = Some (u, r) \<Longrightarrow> length r < length s"
  by (cases s rule: hex4.cases) (auto split: option.splits)

lemma low_surrogate_length: "low_surrogate s = Some (u, r) \<Longrightarrow> length r < length s"
  by (auto simp: low_surrogate_def split: list.splits if_splits option.splits dest!: hex4_length)

lemma unescape_length: "unescape s = Some (b, r) \<Longrightarrow> length r < length s"
  by (auto simp: unescape_def split: list.splits if_splits option.splits
      dest!: hex4_length low_surrogate_length)

text \<open>The body of a string up to its closing quote.\<close>

function parse_chars :: "string \<Rightarrow> (string \<times> string) option" where
  "parse_chars [] = None"
| "parse_chars (c # cs) =
     (if c = CHR 0x22 then Some ([], cs)
      else if c = CHR 0x5C
      then (case unescape cs of
          None \<Rightarrow> None
        | Some (b, r) \<Rightarrow> map_option (\<lambda>(s, r'). (b @ s, r')) (parse_chars r))
      else if (of_char c :: nat) < 32 then None
      else (let n = rune_size (c # cs)
            in if n = 0 then map_option (\<lambda>(s, r'). (replacement_char @ s, r')) (parse_chars cs)
               else map_option (\<lambda>(s, r'). (take n (c # cs) @ s, r')) (parse_chars (drop (n - 1) cs))))"
  by pat_completeness auto
termination
  by (relation "measure length") (auto dest: unescape_length)

section \<open>Numbers\<close>

definition digits_text :: "string \<Rightarrow> (string \<times> string) option" where
  "digits_text s =
     (let d = takeWhile digit s in if d = [] then None else Some (d, dropWhile digit s))"

definition parse_sign :: "string \<Rightarrow> string \<Rightarrow> string \<times> string" where
  "parse_sign signs s =
     (case s of c # r \<Rightarrow> if c \<in> set signs then ([c], r) else ([], s) | [] \<Rightarrow> ([], []))"

definition int_part :: "string \<Rightarrow> (string \<times> string) option" where
  "int_part s =
     (case s of c # r \<Rightarrow> if c = CHR ''0'' then Some ([c], r) else digits_text s | [] \<Rightarrow> None)"

definition frac_part :: "string \<Rightarrow> (string \<times> string) option" where
  "frac_part s =
     (case s of
        c # r \<Rightarrow> if c = CHR ''.'' then map_option (\<lambda>(d, r'). (c # d, r')) (digits_text r) else Some ([], s)
      | [] \<Rightarrow> Some ([], []))"

definition exp_part :: "string \<Rightarrow> (string \<times> string) option" where
  "exp_part s =
     (case s of
        c # r \<Rightarrow>
          if c = CHR ''e'' \<or> c = CHR ''E''
          then (case parse_sign ''+-'' r of
              (g, r1) \<Rightarrow> map_option (\<lambda>(d, r'). (c # g @ d, r')) (digits_text r1))
          else Some ([], s)
      | [] \<Rightarrow> Some ([], []))"

definition parse_number :: "string \<Rightarrow> (string \<times> string) option" where
  "parse_number s =
     (case parse_sign ''-'' s of
        (g, s1) \<Rightarrow>
          Option.bind (int_part s1) (\<lambda>(i, s2).
          Option.bind (frac_part s2) (\<lambda>(f, s3).
          map_option (\<lambda>(e, s4). (g @ i @ f @ e, s4)) (exp_part s3))))"

section \<open>Values\<close>

definition json_space :: "char \<Rightarrow> bool" where
  "json_space c \<longleftrightarrow> c = CHR '' '' \<or> c = CHR 0x09 \<or> c = CHR 0x0A \<or> c = CHR 0x0D"

definition skip_space :: "string \<Rightarrow> string" where
  "skip_space s = dropWhile json_space s"

definition literals :: "(string \<times> json) list" where
  "literals = [(''null'', JNull), (''true'', JBool True), (''false'', JBool False)]"

fun parse_literal :: "(string \<times> json) list \<Rightarrow> string \<Rightarrow> (json \<times> string) option" where
  "parse_literal [] s = None"
| "parse_literal ((l, j) # ls) s =
     (if take (length l) s = l then Some (j, drop (length l) s) else parse_literal ls s)"

text \<open>
  The first argument bounds the recursion, the second is how much deeper the value may nest.
\<close>

fun parse_value :: "nat \<Rightarrow> nat \<Rightarrow> string \<Rightarrow> (json \<times> string) option"
  and parse_elems :: "nat \<Rightarrow> nat \<Rightarrow> string \<Rightarrow> (json list \<times> string) option"
  and parse_members :: "nat \<Rightarrow> nat \<Rightarrow> string \<Rightarrow> ((string \<times> json) list \<times> string) option" where
  "parse_value 0 d s = None"
| "parse_value (Suc n) d s =
     (case skip_space s of
        [] \<Rightarrow> None
      | c # cs \<Rightarrow>
          if c = CHR 0x22 then map_option (\<lambda>(t, r). (JStr t, r)) (parse_chars cs)
          else if c = CHR ''['' then
            (if d = 0 then None
             else if take 1 (skip_space cs) = '']'' then Some (JArr [], drop 1 (skip_space cs))
             else map_option (\<lambda>(js, r). (JArr js, r)) (parse_elems n (d - 1) cs))
          else if c = CHR ''{'' then
            (if d = 0 then None
             else if take 1 (skip_space cs) = ''}'' then Some (JObj [], drop 1 (skip_space cs))
             else map_option (\<lambda>(ms, r). (JObj ms, r)) (parse_members n (d - 1) cs))
          else if c = CHR ''-'' \<or> digit c then map_option (\<lambda>(l, r). (JNum l, r)) (parse_number (c # cs))
          else parse_literal literals (c # cs))"
| "parse_elems 0 d s = None"
| "parse_elems (Suc n) d s =
     (case parse_value n d s of
        None \<Rightarrow> None
      | Some (j, r) \<Rightarrow>
          (case skip_space r of
             [] \<Rightarrow> None
           | c # cs \<Rightarrow>
               if c = CHR '']'' then Some ([j], cs)
               else if c = CHR '','' then map_option (\<lambda>(js, r'). (j # js, r')) (parse_elems n d cs)
               else None))"
| "parse_members 0 d s = None"
| "parse_members (Suc n) d s =
     (case skip_space s of
        [] \<Rightarrow> None
      | q # qs \<Rightarrow>
          if q \<noteq> CHR 0x22 then None
          else (case parse_chars qs of
              None \<Rightarrow> None
            | Some (k, r0) \<Rightarrow>
                (case skip_space r0 of
                   [] \<Rightarrow> None
                 | e # es \<Rightarrow>
                     if e \<noteq> CHR '':'' then None
                     else (case parse_value n d es of
                         None \<Rightarrow> None
                       | Some (j, r) \<Rightarrow>
                           (case skip_space r of
                              [] \<Rightarrow> None
                            | c # cs \<Rightarrow>
                                if c = CHR ''}'' then Some ([(k, j)], cs)
                                else if c = CHR '',''
                                then map_option (\<lambda>(ms, r'). ((k, j) # ms, r')) (parse_members n d cs)
                                else None)))))"

definition maxNestingDepth :: nat where "maxNestingDepth = 10000"

definition json_first :: "string \<Rightarrow> (json \<times> string) option" where
  "json_first s = parse_value (Suc (length s)) maxNestingDepth s"

definition json_parse :: "string \<Rightarrow> json option" where
  "json_parse s =
     (case json_first s of
        None \<Rightarrow> None
      | Some (j, r) \<Rightarrow> if skip_space r = [] then Some j else None)"

text \<open>The members of an object with the text of each value, for fields of type \<open>RawMessage\<close>.\<close>

definition raw_text :: "string \<Rightarrow> string \<Rightarrow> string" where
  "raw_text s r = (let v = skip_space s in take (length v - length r) v)"

fun raw_members :: "nat \<Rightarrow> nat \<Rightarrow> string \<Rightarrow> ((string \<times> json \<times> string) list \<times> string) option" where
  "raw_members 0 d s = None"
| "raw_members (Suc n) d s =
     (case skip_space s of
        [] \<Rightarrow> None
      | q # qs \<Rightarrow>
          if q \<noteq> CHR 0x22 then None
          else (case parse_chars qs of
              None \<Rightarrow> None
            | Some (k, r0) \<Rightarrow>
                (case skip_space r0 of
                   [] \<Rightarrow> None
                 | e # es \<Rightarrow>
                     if e \<noteq> CHR '':'' then None
                     else (case parse_value n d es of
                         None \<Rightarrow> None
                       | Some (j, r) \<Rightarrow>
                           (case skip_space r of
                              [] \<Rightarrow> None
                            | c # cs \<Rightarrow>
                                if c = CHR ''}'' then Some ([(k, j, raw_text es r)], cs)
                                else if c = CHR '',''
                                then map_option (\<lambda>(ms, r'). ((k, j, raw_text es r) # ms, r')) (raw_members n d cs)
                                else None)))))"

definition raw_object :: "string \<Rightarrow> (string \<times> json \<times> string) list option" where
  "raw_object s =
     (case skip_space s of
        [] \<Rightarrow> None
      | c # cs \<Rightarrow>
          if c \<noteq> CHR ''{'' then None
          else if take 1 (skip_space cs) = ''}'' then Some []
          else map_option fst (raw_members (length s) (maxNestingDepth - 1) cs))"

lemma raw_members_parse:
  "parse_members n d s = map_option (\<lambda>(ms, r). (map (\<lambda>(k, j, raw). (k, j)) ms, r)) (raw_members n d s)"
  by (induction n d s rule: raw_members.induct)
    (auto simp: option.map_comp comp_def case_prod_unfold split: list.splits option.splits)

section \<open>String literals are read back\<close>

text \<open>A string with every byte that is not part of a rune replaced; valid UTF-8 is unchanged.\<close>

function utf8_clean :: "string \<Rightarrow> string" where
  "utf8_clean [] = []"
| "utf8_clean (c # cs) =
     (let n = rune_size (c # cs)
      in if n = 0 then replacement_char @ utf8_clean cs
         else take n (c # cs) @ utf8_clean (drop (n - 1) cs))"
  by pat_completeness auto
termination
  by (relation "measure length") auto

definition utf8_valid :: "string \<Rightarrow> bool" where
  "utf8_valid s \<longleftrightarrow> utf8_clean s = s"

lemma rune_size_bounds: "rune_size s \<le> length s" "rune_size s \<le> 4"
proof -
  have b: "Suc i \<le> length s" if "byte_in lo hi s i" for lo hi i using that by (simp add: byte_in_def)
  obtain l3 h3 l4 h4 where r: "rune_size s =
     (if byte_in 0 127 s 0 then 1
      else if byte_in 194 223 s 0 then (if byte_in 128 191 s 1 then 2 else 0)
      else if byte_in 224 239 s 0 then (if byte_in l3 h3 s 1 \<and> byte_in 128 191 s 2 then 3 else 0)
      else if byte_in 240 244 s 0
      then (if byte_in l4 h4 s 1 \<and> byte_in 128 191 s 2 \<and> byte_in 128 191 s 3 then 4 else 0)
      else 0)"
    using rune_size_def by blast
  show "rune_size s \<le> 4" unfolding r by simp
  show "rune_size s \<le> length s" unfolding r by (auto dest!: b)
qed

lemma byte_in_take: "i < n \<Longrightarrow> n \<le> length s \<Longrightarrow> byte_in lo hi (take n s @ t) i \<longleftrightarrow> byte_in lo hi s i"
  by (auto simp: byte_in_def nth_append)

lemma rune_size_take:
  assumes n: "rune_size s = n" and "0 < n"
  shows "rune_size (take n s @ t) = n"
proof -
  have len: "n \<le> length s" using rune_size_bounds(1) [of s] n by simp
  have 0: "(take n s @ t) ! 0 = s ! 0" using \<open>0 < n\<close> len by (simp add: nth_append)
  have b: "byte_in lo hi (take n s @ t) i \<longleftrightarrow> byte_in lo hi s i" if "i < n" for lo hi i
    using byte_in_take [OF that len] .
  have b0: "byte_in lo hi (take n s @ t) 0 \<longleftrightarrow> byte_in lo hi s 0" for lo hi using b [OF \<open>0 < n\<close>] .
  consider "byte_in 0 127 s 0" | "\<not> byte_in 0 127 s 0" "byte_in 194 223 s 0"
    | "\<not> byte_in 0 127 s 0" "\<not> byte_in 194 223 s 0" "byte_in 224 239 s 0"
    | "\<not> byte_in 0 127 s 0" "\<not> byte_in 194 223 s 0" "\<not> byte_in 224 239 s 0" "byte_in 240 244 s 0"
    using n \<open>0 < n\<close> by (auto simp: rune_size_def split: if_splits)
  then show ?thesis
  proof cases
    case 1
    with n show ?thesis by (simp add: rune_size_def b0)
  next
    case 2
    with n \<open>0 < n\<close> have k: "byte_in 128 191 s 1" "n = 2" by (auto simp: rune_size_def split: if_splits)
    from 2 k b [of 1] show ?thesis unfolding rune_size_def 0 b0 by simp
  next
    case 3
    with n \<open>0 < n\<close> have "n = 3" by (auto simp: rune_size_def split: if_splits)
    with 3 n b [of 1] b [of 2] show ?thesis unfolding rune_size_def 0 b0 by simp
  next
    case 4
    with n \<open>0 < n\<close> have "n = 4" by (auto simp: rune_size_def split: if_splits)
    with 4 n b [of 1] b [of 2] b [of 3] show ?thesis unfolding rune_size_def 0 b0 by simp
  qed
qed

lemma hex_value_char: "n < 16 \<Longrightarrow> hex_value (hex_char n) = Some n"
  by (cases "n < 10") (simp_all add: hex_value_def hex_char_def Let_def)

lemma char_of_bytes:
  "char_of (226::nat) = CHR 0xE2" "char_of (128::nat) = CHR 0x80" "char_of (168::nat) = CHR 0xA8"
  "char_of (169::nat) = CHR 0xA9" "char_of (239::nat) = CHR 0xEF" "char_of (191::nat) = CHR 0xBF"
  "char_of (189::nat) = CHR 0xBD"
  by (simp_all add: char_of_eq_iff)

lemma hex_value_zero: "hex_value CHR ''0'' = Some 0"
  by (simp add: hex_value_def)

lemma hex4_byte:
  "hex4 (CHR ''0'' # CHR ''0'' # hex_char (of_char c div 16) # hex_char (of_char c mod 16) # t) =
     Some (of_char c, t)"
proof -
  have "(of_char c :: nat) div 16 < 16" by (simp add: less_mult_imp_div_less)
  then have "hex_value (hex_char (of_char c div 16)) = Some (of_char c div 16)" by (rule hex_value_char)
  moreover have "hex_value (hex_char (of_char c mod 16)) = Some (of_char c mod 16)"
    by (rule hex_value_char) simp
  ultimately show ?thesis by (simp add: hex_value_zero)
qed

lemma unescape_byte:
  "(of_char c :: nat) < 128 \<Longrightarrow>
     unescape (CHR ''u'' # CHR ''0'' # CHR ''0'' # hex_char (of_char c div 16) # hex_char (of_char c mod 16) # t) =
     Some ([c], t)"
  by (simp add: unescape_def hex4_byte utf8_encode_def del: hex4.simps)

lemma parse_ascii:
  assumes "(of_char c :: nat) < 128"
  shows "parse_chars (ascii_escape html c @ t) = map_option (\<lambda>(s, r). (c # s, r)) (parse_chars t)"
proof -
  have one: "rune_size (c # t) = 1" using assms by (simp add: rune_size_def byte_in_def)
  have short: ?thesis if "ascii_escape html c = [CHR 0x5C, e]" and "\<And>r. unescape (e # r) = Some ([c], r)" for e
    using that by simp
  show ?thesis
  proof (cases "c \<in> {CHR 0x5C, CHR 0x22, CHR 0x08, CHR 0x0C, CHR 0x0A, CHR 0x0D, CHR 0x09}")
    case True
    then show ?thesis
      by (elim insertE; simp add: ascii_escape_def unescape_def)
  next
    case special: False
    show ?thesis
    proof (cases "(of_char c :: nat) < 32 \<or> html \<and> c \<in> set ''<>&''")
      case True
      with special have "ascii_escape html c =
        [CHR 0x5C, CHR ''u'', CHR ''0'', CHR ''0'', hex_char (of_char c div 16), hex_char (of_char c mod 16)]"
        unfolding ascii_escape_def by (simp only: insert_iff empty_iff de_Morgan_disj if_False if_True simp_thms)
      with unescape_byte [OF assms, of t] show ?thesis by simp
    next
      case False
      with special have "ascii_escape html c = [c]"
        unfolding ascii_escape_def by (simp only: insert_iff empty_iff de_Morgan_disj if_False if_True simp_thms)
      with special False one show ?thesis by simp
    qed
  qed
qed

lemma rune_first:
  assumes "1 < rune_size (c # cs)"
  shows "194 \<le> (of_char c :: nat)"
  using assms by (auto simp: rune_size_def byte_in_def split: if_splits)

text \<open>One rune of several bytes, escaped or as it is.\<close>

lemma parse_rune:
  assumes n: "rune_size (c # cs) = n" and gt: "1 < n"
  shows "parse_chars ((if take n (c # cs) \<in> set line_separators
      then CHR 0x5C # ''u202'' @ [hex_char (of_char (last (take n (c # cs))) mod 16)]
      else take n (c # cs)) @ t) = map_option (\<lambda>(s, r). (take n (c # cs) @ s, r)) (parse_chars t)"
proof (cases "take n (c # cs) \<in> set line_separators")
  case True
  then have "take n (c # cs) = [CHR 0xE2, CHR 0x80, CHR 0xA8] \<or> take n (c # cs) = [CHR 0xE2, CHR 0x80, CHR 0xA9]"
    by (simp add: line_separators_def)
  then show ?thesis
    by (elim disjE) (simp_all add: line_separators_def unescape_def hex_value_def hex_char_def utf8_encode_def
        char_of_bytes)
next
  case False
  obtain m where m: "n = Suc m" using gt by (cases n) auto
  have c: "c \<noteq> CHR 0x22" "c \<noteq> CHR 0x5C" "\<not> (of_char c :: nat) < 32"
    using rune_first [of c cs] n gt by auto
  have "rune_size (take n (c # cs) @ t) = n" using rune_size_take [OF n] gt by simp
  then have r: "rune_size (c # take m cs @ t) = Suc m" by (simp add: m)
  have len: "m \<le> length cs" using rune_size_bounds(1) [of "c # cs"] n m by simp
  have "parse_chars (c # take m cs @ t) = map_option (\<lambda>(s, r'). (c # take m cs @ s, r')) (parse_chars t)"
    using c r len by simp
  with False m show ?thesis by simp
qed

lemma parse_json_chars:
  "parse_chars (json_chars html s @ CHR 0x22 # t) = Some (utf8_clean s, t)"
proof (induction html s rule: json_chars.induct)
  case (2 html c cs)
  let ?n = "rune_size (c # cs)"
  consider "?n = 0" | "?n = 1" | "1 < ?n" by linarith
  then show ?case
  proof cases
    case 1
    with 2(1) [OF refl refl] show ?thesis
      by (simp add: unescape_def hex_value_def utf8_encode_def replacement_char_def char_of_bytes)
  next
    case n: 2
    then have "(of_char c :: nat) < 128"
      by (auto simp: rune_size_def byte_in_def split: if_splits)
    from parse_ascii [OF this] 2(2) [OF refl refl] n show ?thesis by (simp add: Let_def)
  next
    case 3
    from parse_rune [OF refl 3] 2(2) [OF refl refl] 3 show ?thesis by (simp add: Let_def)
  qed
qed simp

section \<open>Numbers are read back\<close>

definition number_stop :: "string \<Rightarrow> bool" where
  "number_stop s \<longleftrightarrow> (s = [] \<or> \<not> digit (hd s) \<and> hd s \<notin> set ''.eE'')"

lemma digits_text_append:
  assumes "digits_text s = Some (d, r)" and "number_stop t"
  shows "digits_text (s @ t) = Some (d, r @ t)"
proof -
  from assms(1) have d: "d = takeWhile digit s" "r = dropWhile digit s" "d \<noteq> []"
    by (auto simp: digits_text_def Let_def split: if_splits)
  show ?thesis
  proof (cases "r = []")
    case True
    then have all: "\<forall>c \<in> set s. digit c" using d(2) by simp
    have "takeWhile digit t = []" "dropWhile digit t = t"
      using assms(2) by (cases t; simp add: number_stop_def)+
    moreover have "d = s" using all d(1) by simp
    moreover have "s \<noteq> []" using d(1,3) by auto
    ultimately show ?thesis using all True
      by (simp add: digits_text_def Let_def takeWhile_append dropWhile_append)
  next
    case False
    then obtain c where "c \<in> set s" "\<not> digit c" using d(2) by auto
    with d show ?thesis by (auto simp: digits_text_def Let_def)
  qed
qed

lemma int_part_append:
  "int_part s = Some (i, r) \<Longrightarrow> number_stop t \<Longrightarrow> int_part (s @ t) = Some (i, r @ t)"
  using digits_text_append [of s i r t] by (cases s) (auto simp: int_part_def split: if_splits)

lemma frac_part_append:
  "frac_part s = Some (i, r) \<Longrightarrow> number_stop t \<Longrightarrow> frac_part (s @ t) = Some (i, r @ t)"
  by (cases s; cases t) (auto simp: frac_part_def number_stop_def digits_text_append split: if_splits)

lemma parse_sign_append: "s \<noteq> [] \<Longrightarrow> parse_sign g (s @ t) = (fst (parse_sign g s), snd (parse_sign g s) @ t)"
  by (cases s) (auto simp: parse_sign_def)

lemma digits_text_Nil [simp]: "digits_text [] = None"
  by (simp add: digits_text_def)

lemma exp_part_append:
  assumes "exp_part s = Some (i, r)" and t: "number_stop t"
  shows "exp_part (s @ t) = Some (i, r @ t)"
proof (cases s)
  case Nil
  with assms show ?thesis by (cases t) (auto simp: exp_part_def number_stop_def)
next
  case (Cons c cs)
  show ?thesis
  proof (cases "c = CHR ''e'' \<or> c = CHR ''E''")
    case True
    obtain g r1 where g: "parse_sign ''+-'' cs = (g, r1)" by fastforce
    with assms(1) Cons True obtain d r' where d: "digits_text r1 = Some (d, r')" "i = c # g @ d" "r = r'"
      by (auto simp: exp_part_def)
    have "cs \<noteq> []" using d(1) g by (auto simp: parse_sign_def)
    then show ?thesis
      using True Cons g d digits_text_append [OF d(1) t] by (auto simp: exp_part_def parse_sign_append)
  next
    case False
    then have "i = []" "r = c # cs" using assms(1) Cons by (auto simp: exp_part_def)
    with False show ?thesis unfolding Cons by (simp add: exp_part_def)
  qed
qed

lemma parse_number_append:
  assumes "parse_number s = Some (l, r)" and t: "number_stop t"
  shows "parse_number (s @ t) = Some (l, r @ t)"
proof -
  obtain g s1 where g: "parse_sign ''-'' s = (g, s1)" by fastforce
  with assms(1) obtain i s2 f s3 e where p: "int_part s1 = Some (i, s2)" "frac_part s2 = Some (f, s3)"
    "exp_part s3 = Some (e, r)" "l = g @ i @ f @ e"
    by (auto simp: parse_number_def bind_eq_Some_conv)
  have "s \<noteq> []" using p(1) g by (auto simp: parse_sign_def int_part_def)
  then have "parse_sign ''-'' (s @ t) = (g, s1 @ t)" using g by (simp add: parse_sign_append)
  with int_part_append [OF p(1) t] frac_part_append [OF p(2) t] exp_part_append [OF p(3) t] p(4)
  show ?thesis by (simp add: parse_number_def)
qed

lemma parse_number_head:
  assumes "parse_number s = Some (l, r)"
  shows "\<exists>c cs. s = c # cs \<and> (c = CHR ''-'' \<or> digit c)"
proof (cases s)
  case Nil
  with assms show ?thesis by (simp add: parse_number_def parse_sign_def int_part_def)
next
  case (Cons c cs)
  have "c = CHR ''-'' \<or> digit c"
  proof (rule ccontr)
    assume n: "\<not> (c = CHR ''-'' \<or> digit c)"
    then have "c \<noteq> CHR ''0''" by (auto simp: digit_def)
    with n have "int_part (c # cs) = None" by (simp add: int_part_def digits_text_def)
    with n Cons assms show False by (simp add: parse_number_def parse_sign_def)
  qed
  with Cons show ?thesis by simp
qed

section \<open>Documents are read back\<close>

text \<open>Number literals are well formed, and values nest at most \<open>d\<close> deep.\<close>

fun json_wf :: "nat \<Rightarrow> json \<Rightarrow> bool" where
  "json_wf d (JNum l) \<longleftrightarrow> parse_number l = Some (l, [])"
| "json_wf d (JArr js) \<longleftrightarrow> 0 < d \<and> (\<forall>j \<in> set js. json_wf (d - 1) j)"
| "json_wf d (JObj ms) \<longleftrightarrow> 0 < d \<and> (\<forall>m \<in> set ms. json_wf (d - 1) (snd m))"
| "json_wf d j \<longleftrightarrow> True"

lemma json_wf_mono: "json_wf d j \<Longrightarrow> d \<le> e \<Longrightarrow> json_wf e j"
proof (induction d j arbitrary: e rule: json_wf.induct)
  case (3 d ms)
  then show ?case by (auto dest: diff_le_mono [of d e 1])
qed (auto dest: diff_le_mono)

fun json_clean :: "json \<Rightarrow> json" where
  "json_clean (JStr s) = JStr (utf8_clean s)"
| "json_clean (JArr js) = JArr (map json_clean js)"
| "json_clean (JObj ms) = JObj (map (\<lambda>m. (utf8_clean (fst m), json_clean (snd m))) ms)"
| "json_clean j = j"

lemma number_chars: "c = CHR ''-'' \<or> digit c \<Longrightarrow> \<not> json_space c \<and> c \<notin> set ''\"[]{}''"
  by (auto simp: digit_def json_space_def)

lemma skip_space_head [simp]: "\<not> json_space c \<Longrightarrow> skip_space (c # cs) = c # cs"
  by (simp add: skip_space_def)

lemma skip_space_blank [simp]: "list_all json_space w \<Longrightarrow> skip_space (w @ s) = skip_space s"
  by (induction w) (auto simp: skip_space_def)

lemma parse_value_blank [simp]: "list_all json_space w \<Longrightarrow> parse_value n d (w @ s) = parse_value n d s"
  by (cases n) simp_all

lemma raw_members_blank [simp]: "list_all json_space w \<Longrightarrow> raw_members n d (w @ s) = raw_members n d s"
  by (cases n) simp_all

lemma punct_chars [simp]:
  "\<not> json_space CHR '',''" "\<not> json_space CHR '':''" "\<not> json_space CHR '']''" "\<not> json_space CHR ''}''"
  "\<not> json_space CHR ''\"''" "\<not> json_space CHR ''[''" "\<not> json_space CHR ''{''"
  by (simp_all add: json_space_def)

lemma stops [simp]:
  "number_stop (CHR '','' # t)" "number_stop (CHR '']'' # t)" "number_stop (CHR ''}'' # t)"
  by (simp_all add: number_stop_def digit_def)

lemma blank_stops: "list_all json_space w \<Longrightarrow> number_stop t \<Longrightarrow> number_stop (w @ t)"
  by (cases w) (auto simp: number_stop_def digit_def json_space_def)

lemma join_text_head:
  "xs \<noteq> [] \<Longrightarrow> hd xs = c # cs \<Longrightarrow> \<exists>ds. join_text sep xs = c # ds"
  by (induction sep xs rule: join_text.induct) auto

text \<open>What one value, at any fuel that covers its text, parses to.\<close>

definition reads_back :: "nat \<Rightarrow> string \<Rightarrow> json \<Rightarrow> bool" where
  "reads_back d s j \<longleftrightarrow>
     (\<forall>n t. length s < n \<longrightarrow> number_stop t \<longrightarrow> parse_value n d (s @ t) = Some (json_clean j, t))"

lemma reads_backI:
  assumes "\<And>m t. length s \<le> m \<Longrightarrow> number_stop t \<Longrightarrow> parse_value (Suc m) d (s @ t) = Some (json_clean j, t)"
  shows "reads_back d s j"
  unfolding reads_back_def
proof (intro allI impI)
  fix n t assume "length s < n" "number_stop t"
  then show "parse_value n d (s @ t) = Some (json_clean j, t)"
    using assms by (cases n) (simp_all add: less_Suc_eq_le)
qed

lemma reads_literal: "reads_back d (json_text html JNull) JNull" "reads_back d (json_text html (JBool b)) (JBool b)"
  by (rule reads_backI; cases b; simp add: json_space_def digit_def literals_def skip_space_def)+

lemma reads_number:
  assumes "parse_number l = Some (l, [])"
  shows "reads_back d l (JNum l)"
proof (rule reads_backI)
  fix m t assume t: "number_stop t"
  obtain c cs where l: "l = c # cs" "c = CHR ''-'' \<or> digit c" using parse_number_head [OF assms] by blast
  have "parse_number (c # cs @ t) = Some (l, t)" using parse_number_append [OF assms t] l(1) by simp
  with l number_chars [OF l(2)]
  show "parse_value (Suc m) d (l @ t) = Some (json_clean (JNum l), t)" by auto
qed

lemma reads_string: "reads_back d (json_string html s) (JStr s)"
  by (rule reads_backI) (simp add: json_string_def parse_json_chars)

text \<open>White space at the start of a line and after a colon does not matter.\<close>

locale json_spacing =
  fixes nl :: "nat \<Rightarrow> string" and sp :: string
  assumes nl_blank: "list_all json_space (nl i)" and sp_blank: "list_all json_space sp"
begin

lemma layout_head:
  assumes "json_wf d j"
  shows "\<exists>c cs. json_layout nl sp html i j = c # cs \<and> \<not> json_space c \<and> c \<noteq> CHR '']''"
proof (cases j)
  case (JNum l)
  from assms JNum have "parse_number l = Some (l, [])" by simp
  from parse_number_head [OF this] obtain c cs where "l = c # cs" "c = CHR ''-'' \<or> digit c" by blast
  with JNum number_chars [of c] show ?thesis by (intro exI [of _ c] exI [of _ cs]) simp
qed (auto simp: json_space_def json_string_def)

lemma layout_skip: "json_wf d j \<Longrightarrow> skip_space (json_layout nl sp html i j @ t) = json_layout nl sp html i j @ t"
  using layout_head [of d j html i] by auto

lemma elems_text:
  assumes "js \<noteq> []" and "\<forall>j \<in> set js. reads_back d (f j) j"
    and "length (join_text (CHR '','' # nl k) (map f js)) + 1 < n"
  shows "parse_elems n d (nl k @ join_text (CHR '','' # nl k) (map f js) @ nl i @ CHR '']'' # t) =
    Some (map json_clean js, t)"
  using assms
proof (induction js arbitrary: n)
  case (Cons j js)
  from Cons.prems(3) obtain m where n: "n = Suc m" by (cases n) auto
  have val: "parse_value m d (f j @ u) = Some (json_clean j, u)"
    if "number_stop u" "length (f j) < m" for u
    using Cons.prems(2) that by (simp add: reads_back_def)
  show ?case
  proof (cases js)
    case Nil
    with Cons.prems n val [of "nl i @ CHR '']'' # t"] show ?thesis
      by (simp add: nl_blank blank_stops)
  next
    case (Cons j' ks)
    let ?u = "join_text (CHR '','' # nl k) (map f js)"
    have join: "join_text (CHR '','' # nl k) (map f (j # js)) = f j @ CHR '','' # nl k @ ?u"
      by (simp add: Cons)
    have "length (f j) < m" using Cons.prems n join by simp
    from val [OF _ this, of "CHR '','' # nl k @ ?u @ nl i @ CHR '']'' # t"]
    have "parse_value m d (f j @ CHR '','' # nl k @ ?u @ nl i @ CHR '']'' # t) =
        Some (json_clean j, CHR '','' # nl k @ ?u @ nl i @ CHR '']'' # t)" by simp
    moreover have "parse_elems m d (nl k @ ?u @ nl i @ CHR '']'' # t) = Some (map json_clean js, t)"
      using Cons.IH [of m] Cons.prems n join Cons by simp
    ultimately show ?thesis unfolding join n by (simp add: nl_blank)
  qed
qed simp

abbreviation member_text :: "bool \<Rightarrow> nat \<Rightarrow> string \<times> json \<Rightarrow> string" where
  "member_text html i m \<equiv> json_string html (fst m) @ '':'' @ sp @ json_layout nl sp html i (snd m)"

lemma raw_members_text:
  assumes "ms \<noteq> []" and "\<forall>m \<in> set ms. json_wf d (snd m)"
    and "\<forall>m \<in> set ms. reads_back d (json_layout nl sp html k (snd m)) (snd m)"
    and "length (join_text (CHR '','' # nl k) (map (member_text html k) ms)) + 1 < n"
  shows "raw_members n d (nl k @ join_text (CHR '','' # nl k) (map (member_text html k) ms) @ nl i @ CHR ''}'' # t) =
    Some (map (\<lambda>m. (utf8_clean (fst m), json_clean (snd m), json_layout nl sp html k (snd m))) ms, t)"
  using assms
proof (induction ms arbitrary: n)
  case (Cons m ms)
  obtain key j where m: "m = (key, j)" by fastforce
  from Cons.prems(4) obtain p where n: "n = Suc p" by (cases n) auto
  have wf: "json_wf d j" using Cons.prems(2) by (simp add: m)
  let ?v = "json_layout nl sp html k j"
  have val: "parse_value p d (sp @ ?v @ u) = Some (json_clean j, u)"
    if "number_stop u" "length (member_text html k m) \<le> p" for u
    using Cons.prems(3) that by (simp add: m reads_back_def json_string_def sp_blank)
  have raw: "raw_text (sp @ ?v @ u) u = ?v" for u
    by (simp add: raw_text_def layout_skip [OF wf] sp_blank)
  show ?case
  proof (cases ms)
    case Nil
    with Cons.prems(4) n have "length (member_text html k m) \<le> p" by simp
    from val [OF _ this, of "nl i @ CHR ''}'' # t"] Nil n show ?thesis
      by (simp add: m json_string_def parse_json_chars raw nl_blank blank_stops)
  next
    case (Cons m' ms')
    let ?u = "join_text (CHR '','' # nl k) (map (member_text html k) ms)"
    have join: "join_text (CHR '','' # nl k) (map (member_text html k) (m # ms)) =
        member_text html k m @ CHR '','' # nl k @ ?u"
      by (simp add: Cons)
    have "length (member_text html k m) \<le> p" using Cons.prems(4) n join by simp
    from val [OF _ this, of "CHR '','' # nl k @ ?u @ nl i @ CHR ''}'' # t"]
    have "parse_value p d (sp @ ?v @ CHR '','' # nl k @ ?u @ nl i @ CHR ''}'' # t) =
        Some (json_clean j, CHR '','' # nl k @ ?u @ nl i @ CHR ''}'' # t)" by simp
    moreover have "raw_members p d (nl k @ ?u @ nl i @ CHR ''}'' # t) =
        Some (map (\<lambda>m. (utf8_clean (fst m), json_clean (snd m), json_layout nl sp html k (snd m))) ms, t)"
      using Cons.IH [of p] Cons.prems n join Cons by simp
    ultimately show ?thesis unfolding join n
      by (simp add: m json_string_def parse_json_chars raw nl_blank)
  qed
qed simp

lemma members_text:
  assumes "ms \<noteq> []" and "\<forall>m \<in> set ms. json_wf d (snd m)"
    and "\<forall>m \<in> set ms. reads_back d (json_layout nl sp html k (snd m)) (snd m)"
    and "length (join_text (CHR '','' # nl k) (map (member_text html k) ms)) + 1 < n"
  shows "parse_members n d (nl k @ join_text (CHR '','' # nl k) (map (member_text html k) ms) @ nl i @ CHR ''}'' # t) =
    Some (map (\<lambda>m. (utf8_clean (fst m), json_clean (snd m))) ms, t)"
  unfolding raw_members_parse raw_members_text [OF assms] by simp

lemma layout_object:
  "ms \<noteq> [] \<Longrightarrow> json_layout nl sp html i (JObj ms) =
     CHR ''{'' # nl (Suc i) @ join_text (CHR '','' # nl (Suc i)) (map (member_text html (Suc i)) ms) @ nl i @ ''}''"
  by (simp add: case_prod_unfold)

lemma members_head:
  "ms \<noteq> [] \<Longrightarrow> \<exists>ds. join_text sep (map (member_text html k) ms) = CHR 0x22 # ds"
  by (cases ms) (auto simp: json_string_def intro!: join_text_head)

lemma reads_array:
  assumes "\<forall>j \<in> set js. json_wf d j" and "\<forall>j \<in> set js. reads_back d (json_layout nl sp html (Suc i) j) j"
  shows "reads_back (Suc d) (json_layout nl sp html i (JArr js)) (JArr js)"
proof (rule reads_backI)
  fix m t assume len: "length (json_layout nl sp html i (JArr js)) \<le> m"
  show "parse_value (Suc m) (Suc d) (json_layout nl sp html i (JArr js) @ t) = Some (json_clean (JArr js), t)"
  proof (cases "js = []")
    case False
    let ?u = "join_text (CHR '','' # nl (Suc i)) (map (json_layout nl sp html (Suc i)) js)"
    from False obtain c cs where h: "json_layout nl sp html (Suc i) (hd js) = c # cs" "\<not> json_space c" "c \<noteq> CHR '']''"
      using layout_head [of d "hd js" html "Suc i"] assms(1) by auto
    then obtain ds where u: "?u = c # ds"
      using join_text_head [of "map (json_layout nl sp html (Suc i)) js"] False by (auto simp: hd_map)
    have "parse_elems m d (nl (Suc i) @ ?u @ nl i @ CHR '']'' # t) = Some (map json_clean js, t)"
      using elems_text [OF False assms(2), of "Suc i" m i t] len False by simp
    then show ?thesis using h u False by (simp add: nl_blank)
  qed simp
qed

lemma reads_object:
  assumes "\<forall>m \<in> set ms. json_wf d (snd m)"
    and "\<forall>m \<in> set ms. reads_back d (json_layout nl sp html (Suc i) (snd m)) (snd m)"
  shows "reads_back (Suc d) (json_layout nl sp html i (JObj ms)) (JObj ms)"
proof (rule reads_backI)
  fix m t assume len: "length (json_layout nl sp html i (JObj ms)) \<le> m"
  show "parse_value (Suc m) (Suc d) (json_layout nl sp html i (JObj ms) @ t) = Some (json_clean (JObj ms), t)"
  proof (cases "ms = []")
    case False
    let ?u = "join_text (CHR '','' # nl (Suc i)) (map (member_text html (Suc i)) ms)"
    from members_head [OF False] obtain ds where u: "?u = CHR 0x22 # ds" by blast
    have "parse_members m d (nl (Suc i) @ ?u @ nl i @ CHR ''}'' # t) =
        Some (map (\<lambda>m. (utf8_clean (fst m), json_clean (snd m))) ms, t)"
      using members_text [OF False assms, of m i t] len unfolding layout_object [OF False] by simp
    then show ?thesis using u unfolding layout_object [OF False] by (simp add: nl_blank)
  qed simp
qed

lemma layout_reads_back: "json_wf d j \<Longrightarrow> reads_back d (json_layout nl sp html i j) j"
proof (induction j arbitrary: d i)
  case (JArr js)
  from JArr.prems obtain e where "d = Suc e" by (cases d) auto
  with JArr show ?case by (auto intro!: reads_array simp del: json_layout.simps)
next
  case (JObj ms)
  from JObj.prems obtain e where d: "d = Suc e" by (cases d) auto
  with JObj have "\<forall>m \<in> set ms. reads_back e (json_layout nl sp html (Suc i) (snd m)) (snd m)"
    by (fastforce simp: snds.simps)
  with d JObj.prems show ?case by (simp add: reads_object del: json_layout.simps)
qed (simp_all add: reads_literal reads_number reads_string del: json_text.simps(1,2))

text \<open>A document followed by something else, and a whole text.\<close>

lemma json_first_layout:
  assumes "json_wf maxNestingDepth j" and "number_stop t"
  shows "json_first (json_layout nl sp html i j @ t) = Some (json_clean j, t)"
  using layout_reads_back [OF assms(1), of html i] assms(2)
  by (simp add: json_first_def reads_back_def del: parse_value.simps)

lemma json_parse_layout:
  assumes "json_wf maxNestingDepth j" and "list_all json_space t"
  shows "json_parse (json_layout nl sp html i j @ t) = Some (json_clean j)"
proof -
  have "number_stop t" "skip_space t = []"
    using blank_stops [OF assms(2), of "[]"] skip_space_blank [OF assms(2), of "[]"]
    by (simp_all add: number_stop_def skip_space_def)
  with json_first_layout [OF assms(1)] show ?thesis by (simp add: json_parse_def)
qed

text \<open>The texts of the members of an object that was written.\<close>

lemma raw_object_layout:
  assumes "json_wf maxNestingDepth (JObj ms)"
  shows "raw_object (json_layout nl sp html i (JObj ms)) =
    Some (map (\<lambda>m. (utf8_clean (fst m), json_clean (snd m), json_layout nl sp html (Suc i) (snd m))) ms)"
proof (cases "ms = []")
  case False
  let ?s = "json_layout nl sp html i (JObj ms)"
  let ?u = "join_text (CHR '','' # nl (Suc i)) (map (member_text html (Suc i)) ms)"
  from members_head [OF False] obtain ds where u: "?u = CHR 0x22 # ds" by blast
  have "raw_members (length ?s) (maxNestingDepth - 1) (nl (Suc i) @ ?u @ nl i @ CHR ''}'' # []) =
      Some (map (\<lambda>m. (utf8_clean (fst m), json_clean (snd m), json_layout nl sp html (Suc i) (snd m))) ms, [])"
    using assms layout_reads_back
      raw_members_text [OF False, of "maxNestingDepth - 1" html "Suc i" "length ?s" i "[]"]
    unfolding layout_object [OF False] by simp
  then show ?thesis using u unfolding layout_object [OF False]
    by (simp add: raw_object_def nl_blank del: raw_members.simps)
qed (simp add: raw_object_def)

end

interpretation compact: json_spacing "\<lambda>_. []" "[]"
  by unfold_locales simp_all

interpretation indented: json_spacing indent "'' ''"
  by unfold_locales (simp_all add: indent_def json_space_def list_all_iff)

lemmas json_first_text = compact.json_first_layout [unfolded json_layout_compact]
lemmas json_parse_text = compact.json_parse_layout [where t = "[]", simplified, unfolded json_layout_compact]
lemmas raw_object_text = compact.raw_object_layout [unfolded json_layout_compact]

lemma json_parse_marshal:
  assumes "json_wf maxNestingDepth j"
  shows "json_parse (marshal j) = Some (json_clean j)" "json_parse (marshal_indent j) = Some (json_clean j)"
  using compact.json_parse_layout [OF assms, of "[CHR 0x0A]" False] 
    indented.json_parse_layout [OF assms, of "[CHR 0x0A]" False]
  by (simp_all add: marshal_def marshal_indent_def json_layout_compact json_space_def)

declare utf8_clean.simps(2) [simp del]

section \<open>The bound on the recursion\<close>

lemma skip_space_length: "length (skip_space s) \<le> length s"
  by (simp add: skip_space_def length_dropWhile_le)

lemma parse_chars_length: "parse_chars s = Some (t, r) \<Longrightarrow> length r < length s"
proof (induction s arbitrary: t rule: parse_chars.induct)
  case (2 c cs)
  then show ?case
    by (fastforce simp: Let_def split: if_splits option.splits dest: unescape_length)
qed simp

lemma digits_text_length: "digits_text s = Some (d, r) \<Longrightarrow> length r < length s"
  by (cases s) (auto simp: digits_text_def Let_def length_dropWhile_le le_imp_less_Suc split: if_splits)

lemma parse_number_length: "parse_number s = Some (l, r) \<Longrightarrow> length r < length s"
proof -
  assume p: "parse_number s = Some (l, r)"
  obtain g s1 where g: "parse_sign ''-'' s = (g, s1)" by fastforce
  with p obtain i s2 f s3 e where p: "int_part s1 = Some (i, s2)" "frac_part s2 = Some (f, s3)"
    "exp_part s3 = Some (e, r)"
    by (auto simp: parse_number_def bind_eq_Some_conv)
  have sign: "parse_sign g' t = (h, u) \<Longrightarrow> length u \<le> length t" for g' t h u
    by (auto simp: parse_sign_def split: list.splits if_splits)
  have "length s2 < length s1" using p(1) by (auto simp: int_part_def split: list.splits if_splits dest: digits_text_length)
  moreover have "length s3 \<le> length s2" using p(2) digits_text_length
    by (fastforce simp: frac_part_def split: list.splits if_splits)
  moreover have "length r \<le> length s3" using p(3) digits_text_length sign
    by (fastforce simp: exp_part_def split: list.splits if_splits prod.splits)
  moreover have "length s1 \<le> length s" using sign [OF g] .
  ultimately show ?thesis by simp
qed

lemma parse_literal_length:
  "parse_literal ls s = Some (j, r) \<Longrightarrow> \<forall>l \<in> set ls. fst l \<noteq> [] \<Longrightarrow> length r < length s"
proof (induction ls s rule: parse_literal.induct)
  case (2 l j' ls s)
  then show ?case by (cases "take (length l) s = l") (cases s; auto)+
qed simp

text \<open>What is read off a text, and that any bound above its length reads the same.\<close>

definition settled :: "(nat \<Rightarrow> ('a \<times> string) option) \<Rightarrow> string \<Rightarrow> 'a \<times> string \<Rightarrow> bool" where
  "settled p s v \<longleftrightarrow>
     length (snd v) < length s \<and> (\<forall>m. length s - length (snd v) < m \<longrightarrow> p m = Some v)"

lemma settledI:
  assumes "length (snd v) < length s" and "\<And>m. length s - length (snd v) \<le> m \<Longrightarrow> p (Suc m) = Some v"
  shows "settled p s v"
  unfolding settled_def
proof (intro conjI allI impI)
  fix m assume "length s - length (snd v) < m"
  then show "p m = Some v" using assms(2) by (cases m) (simp_all add: less_Suc_eq_le)
qed (fact assms(1))

lemma settledD:
  assumes "settled p s v"
  shows "length (snd v) < length s" "length s - length (snd v) < m \<Longrightarrow> p m = Some v"
  using assms by (auto simp: settled_def)

lemma parse_settles:
  "parse_value n d s = Some v \<Longrightarrow> settled (\<lambda>m. parse_value m d s) s v"
  "parse_elems n d s = Some vs \<Longrightarrow> settled (\<lambda>m. parse_elems m d s) s vs"
  "parse_members n d s = Some ws \<Longrightarrow> settled (\<lambda>m. parse_members m d s) s ws"
proof (induction n d s and n d s and n d s arbitrary: v and vs and ws
    rule: parse_value_parse_elems_parse_members.induct)
  case (2 n d s)
  obtain c cs where c: "skip_space s = c # cs" using 2(3) by (auto split: list.splits)
  have cs: "length cs < length s" using skip_space_length [of s] c by simp
  have drop: "length (drop 1 (skip_space cs)) < length s" using skip_space_length [of cs] cs by simp
  consider (elems) w where "c = CHR ''[''" "d \<noteq> 0" "take 1 (skip_space cs) \<noteq> '']''"
      "parse_elems n (d - 1) cs = Some w" "v = (JArr (fst w), snd w)"
    | (members) w where "c = CHR ''{''" "d \<noteq> 0" "take 1 (skip_space cs) \<noteq> ''}''"
      "parse_members n (d - 1) cs = Some w" "v = (JObj (fst w), snd w)"
    | (flat) "length (snd v) < length s" "\<And>m. parse_value (Suc m) d s = Some v"
  proof (cases "c = CHR ''['' \<and> d \<noteq> 0 \<and> take 1 (skip_space cs) \<noteq> '']''
      \<or> c = CHR ''{'' \<and> d \<noteq> 0 \<and> take 1 (skip_space cs) \<noteq> ''}''")
    case True
    with 2(3) c that(1,2) show ?thesis by auto
  next
    case False
    then have "\<And>m. parse_value (Suc m) d s = parse_value (Suc n) d s" using c by auto
    moreover have "length (snd v) < length s"
      using False 2(3) c cs drop parse_chars_length [of cs] parse_number_length [of "c # cs"]
        parse_literal_length [of literals "c # cs"]
      by (auto simp: literals_def split: if_splits)
    ultimately show ?thesis using that(3) 2(3) by simp
  qed
  then show ?case
  proof cases
    case elems
    have "settled (\<lambda>m. parse_elems m (d - 1) cs) cs w" using 2(1) [OF c] elems by simp
    note w = settledD [OF this]
    from elems c cs w show ?thesis by (intro settledI) (simp_all add: case_prod_unfold)
  next
    case members
    have "settled (\<lambda>m. parse_members m (d - 1) cs) cs w" using 2(2) [OF c] members by simp
    note w = settledD [OF this]
    from members c cs w show ?thesis by (intro settledI) (simp_all add: case_prod_unfold)
  next
    case flat
    then show ?thesis by (intro settledI) simp_all
  qed
next
  case (4 n d s)
  then obtain k u where k: "parse_value n d s = Some (k, u)" by (auto split: option.splits)
  note k1 = settledD [OF 4(1) [OF k]]
  from 4(3) k obtain c cs where c: "skip_space u = c # cs" by (auto split: list.splits)
  have cs: "length cs < length u" using skip_space_length [of u] c by simp
  show ?case
  proof (cases "c = CHR '']''")
    case True
    with 4(3) k c have "vs = ([k], cs)" by auto
    with True cs c k1 show ?thesis by (intro settledI) simp_all
  next
    case False
    with 4(3) k c obtain w where w: "c = CHR '',''" "parse_elems n d cs = Some w" "vs = (k # fst w, snd w)"
      by (auto split: if_splits)
    note w1 = settledD [OF 4(2) [OF k refl c False w(1,2)]]
    show ?thesis using False k1 w1 cs c w by (intro settledI) (simp_all add: case_prod_unfold)
  qed
next
  case (6 n d s)
  obtain qs where q: "skip_space s = CHR 0x22 # qs" using 6(3) by (auto split: list.splits if_splits)
  with 6(3) obtain key u where key: "parse_chars qs = Some (key, u)" by (auto split: option.splits)
  with 6(3) q obtain es where e: "skip_space u = CHR '':'' # es" by (auto split: list.splits if_splits)
  with 6(3) q key obtain k x where k: "parse_value n d es = Some (k, x)" by (auto split: option.splits)
  note k1 = settledD [OF 6(1) [OF q _ key refl e _ k]]
  from 6(3) q key e k obtain c cs where c: "skip_space x = c # cs" by (auto split: list.splits)
  have len: "length es < length s" "length cs < length x"
    using skip_space_length [of s] skip_space_length [of u] skip_space_length [of x]
      parse_chars_length [OF key] q e c by simp_all
  show ?case
  proof (cases "c = CHR ''}''")
    case True
    with 6(3) q key e k c have "ws = ([(key, k)], cs)" by auto
    with True q key e c len k1 show ?thesis by (intro settledI) simp_all
  next
    case False
    with 6(3) q key e k c obtain w
      where w: "c = CHR '',''" "parse_members n d cs = Some w" "ws = ((key, k) # fst w, snd w)"
      by (auto split: if_splits)
    note w1 = settledD [OF 6(2) [OF q _ key refl e _ k refl c False w(1,2)]]
    show ?thesis using False q key e c w len k1 w1 by (intro settledI) (simp_all add: case_prod_unfold)
  qed
qed simp_all

lemma parse_fuel:
  assumes "length s < n"
  shows "parse_value n d s = parse_value (Suc (length s)) d s"
proof (cases "\<exists>m v. parse_value m d s = Some v")
  case True
  then obtain m v where "parse_value m d s = Some v" by blast
  from settledD(2) [OF parse_settles(1) [OF this]] assms show ?thesis
    by (simp del: parse_value.simps)
next
  case False
  then show ?thesis by (metis not_None_eq)
qed

end
