(* ===== verification/Driver_Ruff.thy ===== *)
theory Driver_Ruff
  imports Tool_Run Json_Parse
begin

text \<open>
  \<open>languages/internal/ruff/ruff.go\<close>: the ruff driver behind the python languages.
\<close>

definition rf_ToolID :: string where
  "rf_ToolID = ''ruff''"

definition rf_BinPath :: string where
  "rf_BinPath = ''/usr/local/bin/ruff''"

record position =
  p_row :: int
  p_column :: int

record diagnostic =
  d_code :: "string option"
  d_message :: string
  d_filename :: string
  d_location :: position
  d_end_location :: position

definition zero_position :: position where
  "zero_position = \<lparr>p_row = 0, p_column = 0\<rparr>"

definition zero_diagnostic :: diagnostic where
  "zero_diagnostic = \<lparr>d_code = None, d_message = [], d_filename = [],
     d_location = zero_position, d_end_location = zero_position\<rparr>"

definition dec_position :: "position decoder" where
  "dec_position = dec_struct [''row'', ''column'']
     (\<lambda>n j v. if n = ''row'' then map_option (\<lambda>x. v\<lparr>p_row := x\<rparr>) (dec_int (p_row v) j)
              else map_option (\<lambda>x. v\<lparr>p_column := x\<rparr>) (dec_int (p_column v) j))"

definition dec_diagnostic :: "diagnostic decoder" where
  "dec_diagnostic = dec_struct [''code'', ''message'', ''filename'', ''location'', ''end_location'']
     (\<lambda>n j v.
        if n = ''code'' then map_option (\<lambda>x. v\<lparr>d_code := x\<rparr>) (dec_ptr [] dec_string (d_code v) j)
        else if n = ''message'' then map_option (\<lambda>x. v\<lparr>d_message := x\<rparr>) (dec_string (d_message v) j)
        else if n = ''filename'' then map_option (\<lambda>x. v\<lparr>d_filename := x\<rparr>) (dec_string (d_filename v) j)
        else if n = ''location'' then map_option (\<lambda>x. v\<lparr>d_location := x\<rparr>) (dec_position (d_location v) j)
        else map_option (\<lambda>x. v\<lparr>d_end_location := x\<rparr>) (dec_position (d_end_location v) j))"

definition rf_severity :: "string \<Rightarrow> string" where
  "rf_severity code =
     (if code = [] \<or> code = ''invalid-syntax'' \<or> has_prefix code ''E9'' then SeverityError
      else if code = ''F821'' \<or> code = ''F822'' \<or> code = ''F823'' then SeverityError
      else if has_prefix code ''E'' then SeverityConvention
      else SeverityWarning)"

definition rf_command :: "string \<Rightarrow> string list \<Rightarrow> string list" where
  "rf_command target files =
     [rf_BinPath, ''check'', ''--no-cache'', ''--output-format=json'', ''--target-version'', target] @ files"

definition rf_finding :: "diagnostic \<Rightarrow> finding" where
  "rf_finding d =
     (let code = (case d_code d of None \<Rightarrow> [] | Some c \<Rightarrow> c);
          f = \<lparr>f_path = d_filename d,
               f_line = max (p_row (d_location d)) 0,
               f_column = max (p_column (d_location d)) 0,
               f_end_line = 0, f_end_column = 0,
               f_severity = rf_severity code, f_rule = code, f_message = d_message d\<rparr>
      in if p_row (d_end_location d) > 0
         then f\<lparr>f_end_line := p_row (d_end_location d),
                f_end_column := max (wrap64 (p_column (d_end_location d) - 1)) 0\<rparr>
         else f)"

definition rf_parse ::
  "string \<Rightarrow> string \<Rightarrow> string \<Rightarrow> string \<Rightarrow> int \<Rightarrow> parse_error + report" where
  "rf_parse language tool stdout stderr exitCode =
     (if exitCode \<noteq> 0 \<and> exitCode \<noteq> 1
      then Inl (ToolFailed ''ruff'' exitCode (StderrSnippet stderr))
      else (case Option.bind (json_parse stdout) (dec_slice zero_diagnostic dec_diagnostic None) of
          None \<Rightarrow> Inl (Unparseable ''ruff'' (StderrSnippet stderr))
        | Some diagnostics \<Rightarrow>
            Inr \<lparr>r_version = ReportVersion, r_language = language, r_tool = tool,
                 r_tool_id = rf_ToolID,
                 r_findings = Some (map rf_finding
                   (case diagnostics of None \<Rightarrow> [] | Some ds \<Rightarrow> ds))\<rparr>))"

definition rf_New ::
  "string \<Rightarrow> string \<Rightarrow> string \<Rightarrow> string \<Rightarrow> linter" where
  "rf_New tool language name target =
     \<lparr>l_language = language, l_name = name, l_command = rf_command target,
      l_parse = rf_parse language tool, l_env = None, l_release = None\<rparr>"

section \<open>Correctness\<close>

lemma rf_severity_contract: "rf_severity code \<in> set contract_severities"
  by (simp add: rf_severity_def contract_severities_def)

text \<open>Which codes reach students as errors.\<close>

lemma rf_severity_error_iff:
  "rf_severity code = SeverityError \<longleftrightarrow>
     code \<in> {[], ''invalid-syntax'', ''F821'', ''F822'', ''F823''} \<or> has_prefix code ''E9''"
  by (auto simp: rf_severity_def severity_defs)

lemma rf_finding_ok: "finding_ok (rf_finding d)"
  by (simp add: rf_finding_def Let_def finding_ok_def rf_severity_contract)

text \<open>ruff's exclusive end column becomes the contract's inclusive one.\<close>

lemma rf_end_inclusive:
  assumes "0 < p_row (d_end_location d)" and "0 < p_column (d_end_location d)"
    and "in_int64 (p_column (d_end_location d))"
  shows "f_end_line (rf_finding d) = p_row (d_end_location d)"
    and "f_end_column (rf_finding d) + 1 = p_column (d_end_location d)"
proof -
  from assms(2,3) have "wrap64 (p_column (d_end_location d) - 1) = p_column (d_end_location d) - 1"
    by (intro wrap64_id) (simp add: in_int64_def)
  with assms show "f_end_line (rf_finding d) = p_row (d_end_location d)"
    and "f_end_column (rf_finding d) + 1 = p_column (d_end_location d)"
    by (simp_all add: rf_finding_def Let_def)
qed

lemma rf_end_absent:
  "p_row (d_end_location d) \<le> 0 \<Longrightarrow> f_end_line (rf_finding d) = 0 \<and> f_end_column (rf_finding d) = 0"
  by (simp add: rf_finding_def Let_def)

lemma rf_parse_failure:
  "code \<notin> {0, 1} \<Longrightarrow> rf_parse language tool out err code =
     Inl (ToolFailed ''ruff'' code (StderrSnippet err))"
  by (simp add: rf_parse_def)

interpretation rf: lint_driver "rf_New tool language name target" finding_ok
proof unfold_locales
  show "\<exists>prog pre post. l_command (rf_New tool language name target) files =
      prog # pre @ files @ post" for files
    by (intro exI [of _ rf_BinPath] exI [of _ "[''check'', ''--no-cache'', ''--output-format=json'',
        ''--target-version'', target]"] exI [of _ "[]"]) (simp add: rf_New_def rf_command_def)
qed (auto simp: rf_New_def rf_parse_def list_all_iff rf_finding_ok split: if_splits option.splits)

end
