(* ===== verification/Driver_Javac.thy ===== *)
theory Driver_Javac
  imports Tool_Run Json_Parse
begin

text \<open>
  \<open>languages/internal/javac/javac.go\<close>: the javac driver.  Its input is the worker's report
  object, either printed by the one-shot run or taken from a reply of the resident JVM.
\<close>

definition jc_ToolID :: string where
  "jc_ToolID = ''javac''"

definition jc_javaPath :: string where
  "jc_javaPath = ''/opt/java/bin/java''"

definition jc_workerJar :: string where
  "jc_workerJar = ''/opt/javac-worker.jar''"

definition jc_severities :: "string list" where
  "jc_severities = [SeverityError, SeverityWarning]"

definition jc_command :: "string \<Rightarrow> string list \<Rightarrow> string list" where
  "jc_command release files =
     [jc_javaPath, ''-XX:+UseSerialGC'', ''-XX:-UsePerfData'', ''-jar'', jc_workerJar,
      ''--once'', ''--release'', release] @ files"

text \<open>The worker's report object (Appendix A) and the JSON tags of a finding.\<close>

record worker_report =
  wr_tool :: string
  wr_findings :: "finding list option"

definition zero_finding :: finding where
  "zero_finding = \<lparr>f_path = [], f_line = 0, f_column = 0, f_end_line = 0, f_end_column = 0,
     f_severity = [], f_rule = [], f_message = []\<rparr>"

definition dec_finding :: "finding decoder" where
  "dec_finding = dec_struct [''path'', ''line'', ''column'', ''end_line'', ''end_column'',
       ''severity'', ''rule'', ''message'']
     (\<lambda>n j v.
        if n = ''path'' then map_option (\<lambda>x. v\<lparr>f_path := x\<rparr>) (dec_string (f_path v) j)
        else if n = ''line'' then map_option (\<lambda>x. v\<lparr>f_line := x\<rparr>) (dec_int (f_line v) j)
        else if n = ''column'' then map_option (\<lambda>x. v\<lparr>f_column := x\<rparr>) (dec_int (f_column v) j)
        else if n = ''end_line'' then map_option (\<lambda>x. v\<lparr>f_end_line := x\<rparr>) (dec_int (f_end_line v) j)
        else if n = ''end_column'' then map_option (\<lambda>x. v\<lparr>f_end_column := x\<rparr>) (dec_int (f_end_column v) j)
        else if n = ''severity'' then map_option (\<lambda>x. v\<lparr>f_severity := x\<rparr>) (dec_string (f_severity v) j)
        else if n = ''rule'' then map_option (\<lambda>x. v\<lparr>f_rule := x\<rparr>) (dec_string (f_rule v) j)
        else map_option (\<lambda>x. v\<lparr>f_message := x\<rparr>) (dec_string (f_message v) j))"

definition dec_worker_report :: "worker_report decoder" where
  "dec_worker_report = dec_struct [''tool'', ''findings'']
     (\<lambda>n j v.
        if n = ''tool'' then map_option (\<lambda>x. v\<lparr>wr_tool := x\<rparr>) (dec_string (wr_tool v) j)
        else map_option (\<lambda>x. v\<lparr>wr_findings := x\<rparr>)
               (dec_slice zero_finding dec_finding (wr_findings v) j))"

text \<open>The first finding whose severity the loop over the findings rejects.\<close>

fun jc_bad_severity :: "finding list \<Rightarrow> string option" where
  "jc_bad_severity [] = None"
| "jc_bad_severity (f # fs) =
     (if f_severity f \<notin> set jc_severities then Some (f_severity f) else jc_bad_severity fs)"

definition jc_parse ::
  "string \<Rightarrow> string \<Rightarrow> string \<Rightarrow> int \<Rightarrow> parse_error + report" where
  "jc_parse language stdout stderr exitCode =
     (if exitCode \<noteq> 0 then Inl (ToolFailed ''javac worker'' exitCode (StderrSnippet stderr))
      else (case Option.bind (json_parse stdout)
                   (dec_worker_report \<lparr>wr_tool = [], wr_findings = None\<rparr>) of
          None \<Rightarrow> Inl (Unparseable ''javac worker'' [])
        | Some r \<Rightarrow>
            (case wr_findings r of
               None \<Rightarrow> Inl NoFindingsArray
             | Some fs \<Rightarrow>
                 (case jc_bad_severity fs of
                    Some sev \<Rightarrow> Inl (BadSeverity sev)
                  | None \<Rightarrow>
                      Inr \<lparr>r_version = ReportVersion, r_language = language, r_tool = wr_tool r,
                           r_tool_id = jc_ToolID, r_findings = Some fs\<rparr>))))"

definition jc_New :: "string \<Rightarrow> string \<Rightarrow> string \<Rightarrow> linter" where
  "jc_New language name release =
     \<lparr>l_language = language, l_name = name, l_command = jc_command release,
      l_parse = jc_parse language, l_env = None, l_release = Some release\<rparr>"

section \<open>Correctness\<close>

definition jc_finding_ok :: "finding \<Rightarrow> bool" where
  "jc_finding_ok f \<longleftrightarrow> f_severity f \<in> {SeverityError, SeverityWarning}"

lemma jc_bad_severity_None: "jc_bad_severity fs = None \<longleftrightarrow> list_all jc_finding_ok fs"
  by (induction fs) (auto simp: jc_finding_ok_def jc_severities_def)

lemma jc_bad_severity_Some:
  "jc_bad_severity fs = Some s \<Longrightarrow> \<exists>f \<in> set fs. f_severity f = s \<and> \<not> jc_finding_ok f"
  by (induction fs) (auto simp: jc_finding_ok_def jc_severities_def split: if_splits)

interpretation jc: lint_driver "jc_New language name release" jc_finding_ok
proof unfold_locales
  show "\<exists>prog pre post. l_command (jc_New language name release) files =
      prog # pre @ files @ post" for files
    by (intro exI [of _ jc_javaPath] exI [of _ "[''-XX:+UseSerialGC'', ''-XX:-UsePerfData'', ''-jar'',
        jc_workerJar, ''--once'', ''--release'', release]"] exI [of _ "[]"])
      (simp add: jc_New_def jc_command_def)
qed (auto simp: jc_New_def jc_parse_def jc_bad_severity_None jc_finding_ok_def
    split: if_splits option.splits)

end
