(* ===== verification/Language_Registry.thy ===== *)
theory Language_Registry
  imports Driver_Clangtidy Driver_Govet Driver_Ruff Driver_Javac
    "HOL-Library.Char_ord" "HOL-Library.List_Lexorder"
begin

text \<open>
  \<open>languages/languages.go\<close> and \<open>cmd/toolversions\<close>: the manifest, its validation and the
  registry of linters built from it.  YAML (\<open>gopkg.in/yaml.v3\<close>) is third-party code: the
  record \<open>yaml\<close> is its part, an argument of the definitions.  A Go map is an association
  list read by \<open>map_of\<close>; \<open>slices.Sorted(maps.Keys m)\<close> is \<open>sorted_keys m\<close>, strings being ordered
  bytewise as in Go.
\<close>

section \<open>The manifest\<close>

record 'n language =
  lg_name :: string
  lg_tool :: string
  lg_with :: 'n

record 'n manifest =
  m_version :: int
  m_languages :: "(string \<times> 'n language) list"
  m_tools :: "(string \<times> string) list"

text \<open>
  \<open>y_document\<close> decodes the first document strictly, \<open>y_more\<close> says that decoding a second
  one does not end with EOF, \<open>y_is_zero\<close> is \<open>Node.IsZero\<close>, and \<open>y_field\<close> decodes a node
  strictly against a struct whose one field has the given name.
\<close>

record 'n yaml =
  y_document :: "string \<Rightarrow> 'n manifest option"
  y_more :: "string \<Rightarrow> bool"
  y_is_zero :: "'n \<Rightarrow> bool"
  y_field :: "string \<Rightarrow> 'n \<Rightarrow> string option"

datatype load_error =
    InvalidYAML
  | MultipleDocuments
  | UnsupportedVersion int
  | NoLanguages
  | BadPin string string
  | BadKey string
  | NameRequired string
  | WithError string             \<comment> \<open>a with block the driver's schema rejects\<close>
  | OptionRequired string string \<comment> \<open>tool, option\<close>
  | OptionInvalid string string string
  | TakesNoOptions string
  | UnknownTool string

definition manifestVersion :: int where
  "manifestVersion = 1"

section \<open>Patterns\<close>

definition keyRE :: re where
  "keyRE = plus (\<lambda>c. lower c \<or> digit c \<or> c \<in> {CHR ''_'', CHR ''+'', CHR ''-''})"

definition targetRE :: re where
  "targetRE = Seq (Lit ''py'') (plus digit)"

definition stdRE :: re where
  "stdRE = plus (\<lambda>c. lower c \<or> digit c \<or> c \<in> {CHR ''+'', CHR ''.''})"

definition releaseRE :: re where
  "releaseRE = Seq (one (\<lambda>c. digit c \<and> c \<noteq> CHR ''0'')) (star digit)"

definition pin_char :: "char \<Rightarrow> bool" where
  "pin_char c \<longleftrightarrow> alnum c \<or> c \<in> {CHR ''.'', CHR ''_'', CHR ''+'', CHR ''-''}"

definition pinRE :: re where
  "pinRE = plus pin_char"

section \<open>Binding a stanza to its driver\<close>

text \<open>What the drivers take from their surroundings: the probed version
  strings (\<open>linter.ToolVersion\<close>).\<close>

record tool_ctx =
  tc_version :: "string \<Rightarrow> string"

definition decodeWith :: "'n yaml \<Rightarrow> string \<Rightarrow> 'n \<Rightarrow> load_error + string" where
  "decodeWith y field node =
     (if y_is_zero y node then Inr []
      else (case y_field y field node of None \<Rightarrow> Inl (WithError field) | Some v \<Rightarrow> Inr v))"

definition check_option ::
  "'n yaml \<Rightarrow> string \<Rightarrow> string \<Rightarrow> re \<Rightarrow> 'n \<Rightarrow> load_error + string" where
  "check_option y tool field r node =
     (case decodeWith y field node of
        Inl e \<Rightarrow> Inl e
      | Inr v \<Rightarrow>
          if v = [] then Inl (OptionRequired tool field)
          else if \<not> re_matches r v then Inl (OptionInvalid tool field v)
          else Inr v)"

definition build ::
  "'n yaml \<Rightarrow> tool_ctx \<Rightarrow> string \<Rightarrow> 'n language \<Rightarrow> load_error + linter" where
  "build y tc key l =
     (if lg_tool l = rf_ToolID then
        (case check_option y rf_ToolID ''target'' targetRE (lg_with l) of
           Inl e \<Rightarrow> Inl e
         | Inr t \<Rightarrow> Inr (rf_New (tc_version tc rf_ToolID) key (lg_name l) t))
      else if lg_tool l = ct_ToolID then
        (case check_option y ct_ToolID ''std'' stdRE (lg_with l) of
           Inl e \<Rightarrow> Inl e
         | Inr t \<Rightarrow> Inr (ct_New (tc_version tc ct_ToolID) key (lg_name l) t))
      else if lg_tool l = jc_ToolID then
        (case check_option y jc_ToolID ''release'' releaseRE (lg_with l) of
           Inl e \<Rightarrow> Inl e
         | Inr t \<Rightarrow> Inr (jc_New key (lg_name l) t))
      else if lg_tool l = gv_ToolID then
        (if \<not> y_is_zero y (lg_with l) then Inl (TakesNoOptions (lg_tool l))
         else Inr (gv_New (tc_version tc gv_ToolID) key (lg_name l)))
      else Inl (UnknownTool (lg_tool l)))"

section \<open>The registry\<close>

definition sorted_keys :: "(string \<times> 'a) list \<Rightarrow> string list" where
  "sorted_keys m = sort (remdups (map fst m))"

lemma sorted_keys_simps [simp]:
  "set (sorted_keys m) = set (map fst m)" "distinct (sorted_keys m)" "sorted (sorted_keys m)"
  by (simp_all add: sorted_keys_def)

record registry =
  rg_version :: int
  rg_tools :: "(string \<times> string) list"
  rg_linters :: "linter list"
  rg_toolOf :: "string \<rightharpoonup> string"

text \<open>A lookup that yields Go's zero value for a missing key.\<close>

definition pin_of :: "(string \<times> string) list \<Rightarrow> string \<Rightarrow> string" where
  "pin_of tools k = (case map_of tools k of None \<Rightarrow> [] | Some v \<Rightarrow> v)"

fun check_pins :: "(string \<times> string) list \<Rightarrow> string list \<Rightarrow> load_error option" where
  "check_pins tools [] = None"
| "check_pins tools (t # ts) =
     (if \<not> re_matches pinRE (pin_of tools t) then Some (BadPin t (pin_of tools t))
      else check_pins tools ts)"

fun add_languages ::
  "'n yaml \<Rightarrow> tool_ctx \<Rightarrow> (string \<times> 'n language) list \<Rightarrow> string list \<Rightarrow> registry \<Rightarrow>
     load_error + registry" where
  "add_languages y tc langs [] r = Inr r"
| "add_languages y tc langs (key # keys) r =
     (case map_of langs key of
        None \<Rightarrow> add_languages y tc langs keys r
      | Some spec \<Rightarrow>
          if \<not> re_matches keyRE key then Inl (BadKey key)
          else if lg_name spec = [] then Inl (NameRequired key)
          else (case build y tc key spec of
              Inl e \<Rightarrow> Inl e
            | Inr l \<Rightarrow> add_languages y tc langs keys
                (r\<lparr>rg_linters := rg_linters r @ [l],
                   rg_toolOf := (rg_toolOf r)(key \<mapsto> lg_tool spec)\<rparr>)))"

definition parse_manifest :: "'n yaml \<Rightarrow> tool_ctx \<Rightarrow> string \<Rightarrow> load_error + registry" where
  "parse_manifest y tc data =
     (case y_document y data of
        None \<Rightarrow> Inl InvalidYAML
      | Some m \<Rightarrow>
          if y_more y data then Inl MultipleDocuments
          else if m_version m \<noteq> manifestVersion then Inl (UnsupportedVersion (m_version m))
          else if m_languages m = [] then Inl NoLanguages
          else (case check_pins (m_tools m) (sorted_keys (m_tools m)) of
              Some e \<Rightarrow> Inl e
            | None \<Rightarrow> add_languages y tc (m_languages m) (sorted_keys (m_languages m))
                \<lparr>rg_version = m_version m, rg_tools = m_tools m, rg_linters = [],
                 rg_toolOf = Map.empty\<rparr>))"

text \<open>
  \<open>load\<close>, whose \<open>None\<close> is the panic of a manifest that does not parse, and the functions on what
  it loaded.
\<close>

definition load_registry :: "'n yaml \<Rightarrow> tool_ctx \<Rightarrow> string \<Rightarrow> registry option" where
  "load_registry y tc manifestYAML =
     (case parse_manifest y tc manifestYAML of Inl e \<Rightarrow> None | Inr r \<Rightarrow> Some r)"

definition All_languages :: "registry \<Rightarrow> linter list" where
  "All_languages r = rg_linters r"

definition ManifestVersion :: "registry \<Rightarrow> int" where
  "ManifestVersion r = rg_version r"

definition ToolVersions :: "registry \<Rightarrow> (string \<times> string) list" where
  "ToolVersions r = rg_tools r"

lemmas registry_reads = All_languages_def ManifestVersion_def ToolVersions_def

text \<open>\<open>languages.Tool\<close>: the driver id of a key, empty for an unknown key.\<close>

definition Tool :: "registry \<Rightarrow> string \<Rightarrow> string" where
  "Tool r key = (case rg_toolOf r key of None \<Rightarrow> [] | Some t \<Rightarrow> t)"

section \<open>cmd/toolversions\<close>

definition tv_vars :: "(string \<times> string) list" where
  "tv_vars = [(''ruff'', ''RUFF_VERSION''), (''go'', ''GO_VERSION'')]"

datatype tv_error = NoPin string | UnusedPins "string list"

definition tv_line :: "string \<Rightarrow> string \<Rightarrow> string" where
  "tv_line var pin = var @ ''='' @ [CHR 0x27] @ pin @ [CHR 0x27]"

fun tv_loop ::
  "(string \<times> string) list \<Rightarrow> (string \<times> string) list \<Rightarrow> string list \<Rightarrow>
     string list \<times> (string + (string \<times> string) list)" where
  "tv_loop [] pins out = (out, Inr pins)"
| "tv_loop ((tool, var) # vs) pins out =
     (if pin_of pins tool = [] then (out, Inl tool)
      else tv_loop vs (filter (\<lambda>p. fst p \<noteq> tool) pins) (out @ [tv_line var (pin_of pins tool)]))"

definition tv_main :: "(string \<times> string) list \<Rightarrow> string list \<times> tv_error option" where
  "tv_main pins =
     (case tv_loop tv_vars pins [] of
        (out, Inl tool) \<Rightarrow> (out, Some (NoPin tool))
      | (out, Inr rest) \<Rightarrow>
          if rest \<noteq> [] then (out, Some (UnusedPins (sorted_keys rest))) else (out, None))"

section \<open>What a loaded registry guarantees\<close>

lemma driver_finding_ok: "lint_driver d finding_ok \<Longrightarrow> lint_driver d severity_ok"
  by (erule lint_driver_weaken) (auto simp: finding_ok_def severity_ok_def)

lemma driver_jc_ok: "lint_driver d jc_finding_ok \<Longrightarrow> lint_driver d severity_ok"
  by (erule lint_driver_weaken)
    (auto simp: jc_finding_ok_def severity_ok_def contract_severities_def)

definition driver_ids :: "string set" where
  "driver_ids = {rf_ToolID, ct_ToolID, jc_ToolID, gv_ToolID}"

lemma build_Inr:
  assumes "build y tc key l = Inr d"
  shows "l_language d = key" and "l_name d = lg_name l" and "lg_tool l \<in> driver_ids"
    and "lint_driver d severity_ok"
proof -
  note drivers = driver_finding_ok [OF ct.lint_driver_axioms] driver_finding_ok [OF gv.lint_driver_axioms]
    driver_finding_ok [OF rf.lint_driver_axioms] driver_jc_ok [OF jc.lint_driver_axioms]
  show "l_language d = key" "l_name d = lg_name l" "lg_tool l \<in> driver_ids"
    using assms
    by (auto simp: build_def driver_ids_def ct_New_def gv_New_def rf_New_def jc_New_def
        split: if_splits sum.splits)
  show "lint_driver d severity_ok"
    using assms by (auto simp: build_def drivers split: if_splits sum.splits)
qed

definition stanza_ok :: "'n yaml \<Rightarrow> tool_ctx \<Rightarrow> string \<Rightarrow> 'n language \<Rightarrow> bool" where
  "stanza_ok y tc key l \<longleftrightarrow> re_matches keyRE key \<and> lg_name l \<noteq> [] \<and> is_ok (build y tc key l)"

lemma add_languages_ok_iff:
  "set keys \<subseteq> dom (map_of langs) \<Longrightarrow>
     is_ok (add_languages y tc langs keys r) \<longleftrightarrow>
       (\<forall>k \<in> set keys. stanza_ok y tc k (the (map_of langs k)))"
proof (induction keys arbitrary: r)
  case (Cons k keys)
  from Cons.prems obtain spec where "map_of langs k = Some spec" by auto
  with Cons show ?case by (auto simp: stanza_ok_def split: sum.splits)
qed simp

lemma add_languages_Inr:
  "add_languages y tc langs keys r = Inr r' \<Longrightarrow> set keys \<subseteq> dom (map_of langs) \<Longrightarrow>
     map l_language (rg_linters r') = map l_language (rg_linters r) @ keys \<and>
     rg_version r' = rg_version r \<and> rg_tools r' = rg_tools r \<and>
     (\<forall>d \<in> set (rg_linters r') - set (rg_linters r). lint_driver d severity_ok \<and>
        (\<exists>spec. map_of langs (l_language d) = Some spec \<and> build y tc (l_language d) spec = Inr d)) \<and>
     (\<forall>k. rg_toolOf r' k =
        (if k \<in> set keys then map_option lg_tool (map_of langs k) else rg_toolOf r k))"
proof (induction keys arbitrary: r)
  case (Cons k keys)
  from Cons.prems(2) obtain spec where spec: "map_of langs k = Some spec" by auto
  with Cons.prems(1) obtain d where b: "build y tc k spec = Inr d"
    and rest: "add_languages y tc langs keys (r\<lparr>rg_linters := rg_linters r @ [d],
        rg_toolOf := (rg_toolOf r)(k \<mapsto> lg_tool spec)\<rparr>) = Inr r'"
    by (auto split: if_splits sum.splits)
  have ks: "set keys \<subseteq> dom (map_of langs)" using Cons.prems(2) by simp
  from Cons.IH [OF rest ks] build_Inr [OF b] b spec show ?case by auto
qed simp

text \<open>The whole load, as one condition on the document.\<close>

definition manifest_ok :: "'n yaml \<Rightarrow> tool_ctx \<Rightarrow> 'n manifest \<Rightarrow> bool" where
  "manifest_ok y tc m \<longleftrightarrow>
     m_version m = manifestVersion \<and> m_languages m \<noteq> [] \<and>
     (\<forall>t \<in> set (map fst (m_tools m)). re_matches pinRE (pin_of (m_tools m) t)) \<and>
     (\<forall>k \<in> set (map fst (m_languages m)). stanza_ok y tc k (the (map_of (m_languages m) k)))"

lemma check_pins_None:
  "check_pins tools ts = None \<longleftrightarrow> (\<forall>t \<in> set ts. re_matches pinRE (pin_of tools t))"
  by (induction ts) auto

lemma dom_map_of_fst: "dom (map_of xs) = set (map fst xs)"
  by (simp add: dom_map_of_conv_image_fst)

lemma parse_manifest_ok_iff:
  "is_ok (parse_manifest y tc data) \<longleftrightarrow>
     (\<exists>m. y_document y data = Some m \<and> \<not> y_more y data \<and> manifest_ok y tc m)"
proof (cases "y_document y data")
  case (Some m)
  let ?keys = "sorted_keys (m_languages m)"
  have dom: "set ?keys \<subseteq> dom (map_of (m_languages m))" by (simp add: dom_map_of_fst)
  have pins: "check_pins (m_tools m) (sorted_keys (m_tools m)) = None \<longleftrightarrow>
      (\<forall>t \<in> set (map fst (m_tools m)). re_matches pinRE (pin_of (m_tools m) t))"
    by (simp add: check_pins_None)
  have "is_ok (parse_manifest y tc data) \<longleftrightarrow> \<not> y_more y data \<and> m_version m = manifestVersion \<and>
      m_languages m \<noteq> [] \<and> check_pins (m_tools m) (sorted_keys (m_tools m)) = None \<and>
      is_ok (add_languages y tc (m_languages m) ?keys \<lparr>rg_version = m_version m,
        rg_tools = m_tools m, rg_linters = [], rg_toolOf = Map.empty\<rparr>)"
    by (simp add: parse_manifest_def Some split: option.split)
  then show ?thesis
    unfolding pins add_languages_ok_iff [OF dom] by (auto simp: Some manifest_ok_def)
qed (simp add: parse_manifest_def)

lemma parse_manifest_Inr:
  assumes "parse_manifest y tc data = Inr r"
  shows "\<exists>m. y_document y data = Some m \<and> rg_version r = manifestVersion \<and> rg_tools r = m_tools m \<and>
    map l_language (rg_linters r) = sorted_keys (m_languages m) \<and>
    (\<forall>d \<in> set (rg_linters r). lint_driver d severity_ok) \<and>
    (\<forall>k. Tool r k = (case map_of (m_languages m) k of None \<Rightarrow> [] | Some s \<Rightarrow> lg_tool s))"
proof -
  from assms obtain m where m: "y_document y data = Some m" "m_version m = manifestVersion"
    and add: "add_languages y tc (m_languages m) (sorted_keys (m_languages m))
      \<lparr>rg_version = m_version m, rg_tools = m_tools m, rg_linters = [], rg_toolOf = Map.empty\<rparr> = Inr r"
    by (auto simp: parse_manifest_def split: option.splits if_splits)
  have dom: "set (sorted_keys (m_languages m)) \<subseteq> dom (map_of (m_languages m))"
    by (simp add: dom_map_of_fst)
  note add_languages_Inr [OF add dom]
  moreover have "k \<notin> fst ` set (m_languages m) \<Longrightarrow> map_of (m_languages m) k = None" for k
    by (metis domIff dom_map_of_conv_image_fst)
  ultimately show ?thesis using m by (auto simp: Tool_def split: option.splits)
qed

section \<open>Tool pins are safe in the generated shell file\<close>

lemma pinRE_safe: "re_matches pinRE s \<Longrightarrow> s \<noteq> [] \<and> list_all pin_char s"
  by (auto simp: re_matches_iff pinRE_def)

lemma tv_loop_Inr:
  "tv_loop vs pins out = (out', Inr rest) \<Longrightarrow>
     rest = filter (\<lambda>p. fst p \<notin> set (map fst vs)) pins \<and>
     length out' = length out + length vs"
  by (induction vs pins out rule: tv_loop.induct)
    (auto split: if_splits simp: conj_commute)

lemma filter_pin_of:
  "tool' \<noteq> tool \<Longrightarrow> pin_of (filter (\<lambda>p. fst p \<noteq> tool) pins) tool' = pin_of pins tool'"
  by (induction pins) (auto simp: pin_of_def split: if_splits)

text \<open>The build accepts exactly the pins of ruff and go, and prints each once.\<close>

lemma tv_main_ok_iff:
  "snd (tv_main pins) = None \<longleftrightarrow>
     pin_of pins ''ruff'' \<noteq> [] \<and> pin_of pins ''go'' \<noteq> [] \<and> fst ` set pins \<subseteq> {''ruff'', ''go''}"
  by (auto simp: tv_main_def tv_vars_def filter_pin_of filter_empty_conv)

lemma tv_main_output:
  "snd (tv_main pins) = None \<Longrightarrow>
     fst (tv_main pins) = [tv_line ''RUFF_VERSION'' (pin_of pins ''ruff''),
                           tv_line ''GO_VERSION'' (pin_of pins ''go'')]"
  by (auto simp: tv_main_def tv_vars_def filter_pin_of split: if_splits)

end
