(* ===== verification/Report_Json.thy ===== *)
theory Report_Json
  imports Driver_Javac
begin

text \<open>
  The JSON tags of \<open>linter/linter.go\<close>: the document of a report, what its readers decode from it
  (\<open>report_reads_back\<close>), and the schema of contract section 2 as a predicate on documents
  (\<open>report_typed\<close>), which every encoded report with known severities meets (\<open>report_json_typed\<close>).
\<close>

section \<open>Encoding and decoding\<close>

definition int_json :: "int \<Rightarrow> json" where
  "int_json i = JNum (int_text i)"

text \<open>Optional members of a struct (\<open>omitempty\<close> on an integer).\<close>

definition omit_zero :: "string \<Rightarrow> int \<Rightarrow> (string \<times> json) list" where
  "omit_zero key i = (if i = 0 then [] else [(key, int_json i)])"

definition finding_json :: "finding \<Rightarrow> json" where
  "finding_json f =
     JObj ([(''path'', JStr (f_path f)), (''line'', int_json (f_line f))]
       @ omit_zero ''column'' (f_column f)
       @ omit_zero ''end_line'' (f_end_line f)
       @ omit_zero ''end_column'' (f_end_column f)
       @ [(''severity'', JStr (f_severity f))]
       @ omit_empty ''rule'' (f_rule f)
       @ [(''message'', JStr (f_message f))])"

definition report_json :: "report \<Rightarrow> json" where
  "report_json r =
     JObj ([(''version'', int_json (r_version r)), (''language'', JStr (r_language r)),
         (''tool'', JStr (r_tool r))]
       @ omit_empty ''tool_id'' (r_tool_id r)
       @ [(''findings'', case r_findings r of None \<Rightarrow> JNull | Some fs \<Rightarrow> JArr (map finding_json fs))])"

definition zero_report :: report where
  "zero_report = \<lparr>r_version = 0, r_language = [], r_tool = [], r_tool_id = [], r_findings = None\<rparr>"

definition dec_report :: "report decoder" where
  "dec_report = dec_struct [''version'', ''language'', ''tool'', ''tool_id'', ''findings'']
     (\<lambda>n j v.
        if n = ''version'' then map_option (\<lambda>x. v\<lparr>r_version := x\<rparr>) (dec_int (r_version v) j)
        else if n = ''language'' then map_option (\<lambda>x. v\<lparr>r_language := x\<rparr>) (dec_string (r_language v) j)
        else if n = ''tool'' then map_option (\<lambda>x. v\<lparr>r_tool := x\<rparr>) (dec_string (r_tool v) j)
        else if n = ''tool_id'' then map_option (\<lambda>x. v\<lparr>r_tool_id := x\<rparr>) (dec_string (r_tool_id v) j)
        else map_option (\<lambda>x. v\<lparr>r_findings := x\<rparr>)
               (dec_slice zero_finding dec_finding (r_findings v) j))"

section \<open>The documents are well formed\<close>

lemma nat_digits_head: "n \<noteq> 0 \<Longrightarrow> hd (nat_digits n) \<noteq> CHR ''0''"
proof (induction n rule: nat_digits.induct)
  case (1 n)
  show ?case
  proof (cases "n < 10")
    case True
    have "(char_of (48 + n) :: char) \<noteq> CHR ''0''"
    proof
      assume "(char_of (48 + n) :: char) = CHR ''0''"
      then have "of_char (char_of (48 + n) :: char) = (48 :: nat)" by simp
      with True have "n = 0" by simp
      with "1.prems" show False by simp
    qed
    with True show ?thesis by (simp add: nat_digits.simps [of n])
  next
    case False
    with 1 show ?thesis by (simp add: nat_digits.simps [of n])
  qed
qed

lemma parse_number_nat: "parse_number (nat_digits n) = Some (nat_digits n, [])"
proof (cases "n = 0")
  case True
  moreover have "(char_of (48 :: nat) :: char) = CHR ''0''" by code_simp
  ultimately show ?thesis
    by (simp add: nat_digits.simps [of 0] parse_number_def parse_sign_def int_part_def frac_part_def
        exp_part_def)
next
  case False
  obtain c cs where n: "nat_digits n = c # cs" by (cases "nat_digits n") auto
  with nat_digits_head [OF False] nat_digits_digits [of n]
  have c: "c \<noteq> CHR ''0''" "digit c" "list_all digit cs" by simp_all
  then have "c \<noteq> CHR ''-''" by (auto simp: digit_def)
  moreover have "digits_text (nat_digits n) = Some (nat_digits n, [])"
    using c(2,3) n by (simp add: digits_text_def list_all_iff)
  ultimately show ?thesis using c n
    by (simp add: parse_number_def parse_sign_def int_part_def frac_part_def exp_part_def)
qed

lemma parse_number_int: "parse_number (int_text i) = Some (int_text i, [])"
proof -
  have "parse_number (CHR ''-'' # nat_digits n) = Some (CHR ''-'' # nat_digits n, [])" for n
  proof -
    obtain c cs where n: "nat_digits n = c # cs" by (cases "nat_digits n") auto
    with nat_digits_digits [of n] have "c \<noteq> CHR ''-''" by (auto simp: digit_def)
    with parse_number_nat [of n] n show ?thesis
      by (auto simp: parse_number_def parse_sign_def bind_eq_Some_conv)
  qed
  with parse_number_nat show ?thesis by (simp add: int_text_def)
qed

lemma int_json_wf [simp]: "json_wf d (int_json i)" "json_clean (int_json i) = int_json i"
  by (simp_all add: int_json_def parse_number_int)

lemma finding_json_wf: "0 < d \<Longrightarrow> json_wf d (finding_json f)"
  by (auto simp: finding_json_def omit_zero_def omit_empty_def)

lemma report_json_wf: "json_wf maxNestingDepth (report_json r)"
  by (auto simp: report_json_def omit_empty_def maxNestingDepth_def finding_json_wf split: option.split)

section \<open>What a reader decodes\<close>

text \<open>
  The integers of a Go value are of 64 bits, and every byte of a string that is not part of a rune
  arrives as the replacement character.
\<close>

definition finding_sized :: "finding \<Rightarrow> bool" where
  "finding_sized f \<longleftrightarrow> list_all in_int64 [f_line f, f_column f, f_end_line f, f_end_column f]"

definition report_sized :: "report \<Rightarrow> bool" where
  "report_sized r \<longleftrightarrow> in_int64 (r_version r) \<and> list_all finding_sized (findings_of r)"

definition finding_clean :: "finding \<Rightarrow> finding" where
  "finding_clean f = f\<lparr>f_path := utf8_clean (f_path f), f_severity := utf8_clean (f_severity f),
     f_rule := utf8_clean (f_rule f), f_message := utf8_clean (f_message f)\<rparr>"

definition report_clean :: "report \<Rightarrow> report" where
  "report_clean r = r\<lparr>r_language := utf8_clean (r_language r), r_tool := utf8_clean (r_tool r),
     r_tool_id := utf8_clean (r_tool_id r), r_findings := map_option (map finding_clean) (r_findings r)\<rparr>"

lemma utf8_clean_names [simp]:
  "list_all (\<lambda>c. (of_char c :: nat) < 128) s \<Longrightarrow> utf8_clean s = s"
  by (induction s) (auto simp: utf8_clean.simps(2) rune_size_def byte_in_def)

lemma dec_int_json: "in_int64 i \<Longrightarrow> dec_int cur (int_json i) = Some i"
  by (simp add: dec_int_def int_json_def parse_int_text)

lemma field_of_exact: "key \<in> set names \<Longrightarrow> field_of names key = Some key"
  by (simp add: field_of_def)

lemma dec_finding_json:
  assumes "finding_sized f"
  shows "dec_finding zero_finding (json_clean (finding_json f)) = Some (finding_clean f)"
  using assms
  by (cases f) (simp add: dec_finding_def dec_struct_def finding_json_def omit_zero_def omit_empty_def
      field_of_exact dec_int_json dec_string_def finding_sized_def finding_clean_def zero_finding_def)

lemma dec_findings_json:
  "list_all finding_sized fs \<Longrightarrow>
     dec_elems zero_finding dec_finding (map (json_clean \<circ> finding_json) fs) = Some (map finding_clean fs)"
  by (induction fs) (simp_all add: dec_finding_json)

lemma dec_report_json:
  assumes "report_sized r"
  shows "dec_report zero_report (json_clean (report_json r)) = Some (report_clean r)"
  using assms
  by (cases r; cases "r_findings r")
    (simp_all add: dec_report_def dec_struct_def report_json_def omit_empty_def field_of_exact dec_int_json
      dec_string_def report_sized_def report_clean_def zero_report_def dec_slice_def findings_of_def dec_findings_json)

text \<open>Both encodings, that of the server and that of the command line, are read back.\<close>

lemma report_reads_back:
  assumes "report_sized r"
  shows "Option.bind (json_parse (marshal (report_json r))) (dec_report zero_report) = Some (report_clean r)"
    and "Option.bind (json_parse (marshal_indent (report_json r))) (dec_report zero_report) = Some (report_clean r)"
  using json_parse_marshal [OF report_json_wf [of r]] dec_report_json [OF assms] by simp_all

section \<open>The schema\<close>

text \<open>An integer literal, and members by name and type.\<close>

definition int_literal :: "string \<Rightarrow> bool" where
  "int_literal l \<longleftrightarrow>
     (case l of
        [] \<Rightarrow> False
      | c # ds \<Rightarrow> let body = (if c = CHR ''-'' then ds else l) in body \<noteq> [] \<and> list_all digit body)"

fun is_int :: "json \<Rightarrow> bool" where
  "is_int (JNum l) \<longleftrightarrow> int_literal l"
| "is_int j \<longleftrightarrow> False"

fun is_string :: "json \<Rightarrow> bool" where
  "is_string (JStr s) \<longleftrightarrow> True"
| "is_string j \<longleftrightarrow> False"

fun is_severity :: "json \<Rightarrow> bool" where
  "is_severity (JStr s) \<longleftrightarrow> s \<in> set contract_severities"
| "is_severity j \<longleftrightarrow> False"

text \<open>
  An object with the members of a schema: its keys are distinct, every required one is there and
  each member has the type of its key.
\<close>

definition object_typed ::
  "string list \<Rightarrow> (string \<rightharpoonup> json \<Rightarrow> bool) \<Rightarrow> json \<Rightarrow> bool" where
  "object_typed required types j =
     (case j of
        JObj ms \<Rightarrow>
          distinct (map fst ms) \<and> list_all (\<lambda>k. k \<in> fst ` set ms) required \<and>
          list_all (\<lambda>(k, v). case types k of None \<Rightarrow> False | Some t \<Rightarrow> t v) ms
      | _ \<Rightarrow> False)"

definition finding_typed :: "json \<Rightarrow> bool" where
  "finding_typed = object_typed [''path'', ''line'', ''severity'', ''message'']
     [''path'' \<mapsto> is_string, ''line'' \<mapsto> is_int, ''column'' \<mapsto> is_int, ''end_line'' \<mapsto> is_int,
      ''end_column'' \<mapsto> is_int, ''severity'' \<mapsto> is_severity, ''rule'' \<mapsto> is_string, ''message'' \<mapsto> is_string]"

fun is_findings :: "json \<Rightarrow> bool" where
  "is_findings (JArr js) \<longleftrightarrow> list_all finding_typed js"
| "is_findings j \<longleftrightarrow> False"

definition report_typed :: "json \<Rightarrow> bool" where
  "report_typed = object_typed [''version'', ''language'', ''tool'', ''findings'']
     [''version'' \<mapsto> (\<lambda>j. j = int_json ReportVersion), ''language'' \<mapsto> is_string, ''tool'' \<mapsto> is_string,
      ''tool_id'' \<mapsto> is_string, ''findings'' \<mapsto> is_findings]"

lemma int_text_literal: "int_literal (int_text i)"
proof (cases "i < 0")
  case False
  obtain c cs where "nat_digits (nat i) = c # cs" by (cases "nat_digits (nat i)") auto
  with nat_digits_digits [of "nat i"] False show ?thesis
    by (auto simp: int_literal_def int_text_def digit_def)
qed (simp add: int_literal_def int_text_def nat_digits_digits)

lemma is_int_json [simp]: "is_int (int_json i)"
  by (simp add: int_json_def int_text_literal)

lemma severity_clean [simp]: "s \<in> set contract_severities \<Longrightarrow> utf8_clean s = s"
  by (auto simp: contract_severities_def severity_defs)

lemma finding_json_typed: "severity_ok f \<Longrightarrow> finding_typed (json_clean (finding_json f))"
  by (auto simp: finding_typed_def object_typed_def finding_json_def omit_zero_def omit_empty_def severity_ok_def)

lemma report_json_typed:
  assumes "r_version r = ReportVersion" and "r_findings r = Some fs" and "list_all severity_ok fs"
  shows "report_typed (json_clean (report_json r))"
  using assms finding_json_typed
  by (auto simp: report_typed_def object_typed_def report_json_def omit_empty_def list_all_iff)

end
