(* ===== verification/Manifest_Doc.thy ===== *)
theory Manifest_Doc
  imports Language_Registry Report_Json
begin

text \<open>
  \<open>internal/manifest/manifest.go\<close>: the manifest document of contract section 1.
\<close>

definition BinPath :: string where
  "BinPath = ''/usr/local/bin/cobe-lint''"

record entry =
  en_name :: string
  en_command :: "string list"

record manifest_doc =
  md_version :: int
  md_languages :: "string \<rightharpoonup> entry"

fun build_languages :: "linter list \<Rightarrow> (string \<rightharpoonup> entry) \<Rightarrow> (string \<rightharpoonup> entry)" where
  "build_languages [] m = m"
| "build_languages (l # ls) m =
     build_languages ls
       (m(l_language l \<mapsto> \<lparr>en_name = l_name l, en_command = [BinPath, ''lint'', l_language l]\<rparr>))"

definition Build :: "int \<Rightarrow> linter list \<Rightarrow> manifest_doc" where
  "Build version all = \<lparr>md_version = version, md_languages = build_languages all Map.empty\<rparr>"

text \<open>The members of the document; a map is encoded in the order of its keys.\<close>

definition entry_json :: "entry \<Rightarrow> json" where
  "entry_json e =
     JObj [(''name'', JStr (en_name e)), (''command'', JArr (map JStr (en_command e)))]"

definition manifest_members :: "int \<Rightarrow> linter list \<Rightarrow> (string \<times> json) list" where
  "manifest_members version all =
     (let m = Build version all; keys = sort (remdups (map l_language all))
      in [(''version'', int_json (md_version m)),
          (''languages'', JObj (map (\<lambda>k. (k, entry_json (the (md_languages m k)))) keys))])"

section \<open>Correctness\<close>

lemma build_languages_lookup:
  "distinct (map l_language ls) \<Longrightarrow>
     build_languages ls m k =
       (case find (\<lambda>l. l_language l = k) ls of
          Some l \<Rightarrow> Some \<lparr>en_name = l_name l, en_command = [BinPath, ''lint'', k]\<rparr>
        | None \<Rightarrow> m k)"
proof (induction ls arbitrary: m)
  case (Cons l ls)
  have "k = l_language l \<Longrightarrow> find (\<lambda>x. l_language x = k) ls = None"
    using Cons.prems by (simp add: find_key_None)
  with Cons show ?case by (auto split: option.splits)
qed simp

lemma build_languages_dom: "dom (build_languages ls m) = dom m \<union> l_language ` set ls"
  by (induction ls arbitrary: m) auto

text \<open>Every command is the prefix that the CLI takes apart again.\<close>

lemma Build_entry:
  assumes "distinct (map l_language ls)" and "l \<in> set ls"
  shows "md_languages (Build v ls) (l_language l) =
    Some \<lparr>en_name = l_name l, en_command = [BinPath, ''lint'', l_language l]\<rparr>"
proof -
  have "find (\<lambda>x. l_language x = l_language l) ls = Some l"
    using assms by (rule find_key_distinct)
  with assms(1) show ?thesis by (simp add: Build_def build_languages_lookup)
qed

end
