(* ===== verification/Cobe_Cli.thy ===== *)
theory Cobe_Cli
  imports Manifest_Doc
begin

text \<open>
  \<open>cmd/cobe-lint/main.go\<close>: the command line.  \<open>serve\<close> and \<open>dial-stdio\<close> document exit
  codes of their own and are given by their codes; the file system and the native tool
  are the environment.
\<close>

datatype file_state = StatError | NotRegular | OpenError | Readable

record cli_env =
  ce_reg :: registry                             \<comment> \<open>what \<open>languages\<close> loads\<close>
  ce_file :: "string \<Rightarrow> file_state"
  ce_tool :: "linter \<Rightarrow> string list \<Rightarrow> tool_exit"
  ce_serve :: "string list \<Rightarrow> int"
  ce_dial :: "string list \<Rightarrow> int"
  ce_stdout_ok :: bool                           \<comment> \<open>writing the document succeeds\<close>

datatype cli_diag =
    Usage
  | ManifestArgs
  | UnknownCommand string
  | UnknownLanguage string "string list"
  | FileUnusable string file_state
  | RunFailed run_failure
  | WriteFailed

record cli_result =
  cr_code :: int
  cr_stdout :: "string option"
  cr_stderr :: "cli_diag list"

abbreviation ce_all :: "cli_env \<Rightarrow> linter list" where
  "ce_all env \<equiv> All_languages (ce_reg env)"

abbreviation ce_version :: "cli_env \<Rightarrow> int" where
  "ce_version env \<equiv> ManifestVersion (ce_reg env)"

text \<open>\<open>buildManifest\<close>, encoded.\<close>

definition cli_manifest :: "cli_env \<Rightarrow> json" where
  "cli_manifest env = JObj (manifest_members (ce_version env) (ce_all env))"

definition emit :: "cli_env \<Rightarrow> json \<Rightarrow> cli_result" where
  "emit env v =
     (if ce_stdout_ok env then \<lparr>cr_code = 0, cr_stdout = Some (marshal_indent v), cr_stderr = []\<rparr>
      else \<lparr>cr_code = 1, cr_stdout = None, cr_stderr = [WriteFailed]\<rparr>)"

definition find_language :: "cli_env \<Rightarrow> string \<Rightarrow> linter option" where
  "find_language env language = find (\<lambda>l. l_language l = language) (ce_all env)"

definition supported :: "cli_env \<Rightarrow> string list" where
  "supported env = sort (map l_language (ce_all env))"

fun check_files :: "cli_env \<Rightarrow> string list \<Rightarrow> cli_diag option" where
  "check_files env [] = None"
| "check_files env (f # fs) =
     (case ce_file env f of
        Readable \<Rightarrow> check_files env fs
      | st \<Rightarrow> Some (FileUnusable f st))"

definition cli_lint :: "cli_env \<Rightarrow> string \<Rightarrow> string list \<Rightarrow> cli_result" where
  "cli_lint env language files =
     (case find_language env language of
        None \<Rightarrow> \<lparr>cr_code = 2, cr_stdout = None,
                 cr_stderr = [UnknownLanguage language (supported env)]\<rparr>
      | Some impl \<Rightarrow>
          (case check_files env files of
             Some d \<Rightarrow> \<lparr>cr_code = 1, cr_stdout = None, cr_stderr = [d]\<rparr>
           | None \<Rightarrow>
               (case run_tool impl files (ce_tool env impl files) of
                  Inl e \<Rightarrow> \<lparr>cr_code = 1, cr_stdout = None, cr_stderr = [RunFailed e]\<rparr>
                | Inr r \<Rightarrow> emit env (report_json r))))"

definition exit_only :: "int \<Rightarrow> cli_result" where
  "exit_only c = \<lparr>cr_code = c, cr_stdout = None, cr_stderr = []\<rparr>"

definition cli_run :: "cli_env \<Rightarrow> string list \<Rightarrow> cli_result" where
  "cli_run env args =
     (case args of
        [] \<Rightarrow> \<lparr>cr_code = 2, cr_stdout = None, cr_stderr = [Usage]\<rparr>
      | cmd # rest \<Rightarrow>
          if cmd = ''serve'' then exit_only (ce_serve env rest)
          else if cmd = ''dial-stdio'' then exit_only (ce_dial env rest)
          else if cmd = ''manifest'' then
            (if length args \<noteq> 1
             then \<lparr>cr_code = 2, cr_stdout = None, cr_stderr = [ManifestArgs]\<rparr>
             else emit env (cli_manifest env))
          else if cmd = ''lint'' then
            (if length args < 3 then \<lparr>cr_code = 2, cr_stdout = None, cr_stderr = [Usage]\<rparr>
             else cli_lint env (args ! 1) (drop 2 args))
          else \<lparr>cr_code = 2, cr_stdout = None, cr_stderr = [UnknownCommand cmd, Usage]\<rparr>)"

section \<open>Exit codes\<close>

lemma check_files_None: "check_files env fs = None \<longleftrightarrow> (\<forall>f \<in> set fs. ce_file env f = Readable)"
  by (induction fs) (auto split: file_state.splits)

lemma find_language_Some:
  "find_language env k = Some l \<Longrightarrow> l \<in> set (ce_all env) \<and> l_language l = k"
  by (auto simp: find_language_def find_Some_iff)

lemma find_language_None:
  "find_language env k = None \<longleftrightarrow> k \<notin> l_language ` set (ce_all env)"
  by (simp add: find_language_def find_key_None)

text \<open>Exit 0 exactly when the tool ran to a report that was written out.\<close>

lemma cli_lint_exit:
  "cr_code (cli_lint env k files) =
     (if k \<notin> l_language ` set (ce_all env) then 2
      else if (\<forall>f \<in> set files. ce_file env f = Readable) \<and>
        is_ok (run_tool (the (find_language env k)) files
          (ce_tool env (the (find_language env k)) files)) \<and> ce_stdout_ok env then 0
      else 1)"
proof (cases "find_language env k")
  case None
  then show ?thesis by (simp add: cli_lint_def find_language_None [symmetric])
next
  case (Some l)
  then have "k \<in> l_language ` set (ce_all env)" using find_language_None [of env k] by auto
  with Some show ?thesis
    using check_files_None [of env files]
    by (auto simp: cli_lint_def emit_def split: option.splits sum.splits)
qed

lemma cli_lint_report:
  assumes "cr_stdout (cli_lint env k files) = Some doc"
  shows "\<exists>l r. l \<in> set (ce_all env) \<and> l_language l = k \<and> doc = marshal_indent (report_json r) \<and>
    run_tool l files (ce_tool env l files) = Inr r \<and> cr_code (cli_lint env k files) = 0"
  using assms
  by (auto simp: cli_lint_def emit_def dest: find_language_Some
      split: option.splits sum.splits if_splits)

text \<open>
  The manifest advertises commands the CLI accepts: following an entry's prefix with
  files reaches the same driver.
\<close>

lemma manifest_command_roundtrip:
  assumes "distinct (map l_language (ce_all env))" and "l \<in> set (ce_all env)" and "files \<noteq> []"
    and "md_languages (Build (ce_version env) (ce_all env)) (l_language l) = Some e"
  shows "hd (en_command e) = BinPath"
    and "cli_run env (tl (en_command e) @ files) = cli_lint env (l_language l) files"
    and "find_language env (l_language l) = Some l"
proof -
  from Build_entry [OF assms(1,2)] assms(4)
  have e: "en_command e = [BinPath, ''lint'', l_language l]" by fastforce
  then show "hd (en_command e) = BinPath" by simp
  show "cli_run env (tl (en_command e) @ files) = cli_lint env (l_language l) files"
    using assms(3) by (cases files) (simp_all add: e cli_run_def)
  show "find_language env (l_language l) = Some l"
    using assms(1,2) unfolding find_language_def by (rule find_key_distinct)
qed

end
