(* ===== verification/Javac_Wire.thy ===== *)
theory Javac_Wire
  imports Json_Parse
begin

text \<open>
  \<open>internal/javacworker/worker.go\<close>, the line protocol: reading one line of the JVM's
  standard output through a buffered reader, the request and the reply line, and the
  logger of its standard error.  The output of the JVM is the list of the bytes it will
  write and how the stream ends.
\<close>

section \<open>Lines\<close>

definition newline :: char where "newline = CHR 0x0A"

datatype slice_end = SliceLine | SliceFull | SliceEnd

text \<open>
  \<open>bufio.Reader.ReadSlice\<close> with a buffer of \<open>n\<close> bytes: up to the newline when it is in the
  buffer, the whole full buffer, or what is left at the end of the stream.
\<close>

definition read_slice :: "nat \<Rightarrow> string \<Rightarrow> string \<times> slice_end \<times> string" where
  "read_slice n s =
     (let t = takeWhile (\<lambda>c. c \<noteq> newline) s
      in if length t < length s \<and> length t < n then (t @ [newline], SliceLine, drop (length t + 1) s)
         else if n \<le> length s then (take n s, SliceFull, drop n s)
         else (s, SliceEnd, []))"

datatype line_error = LineTooLong | LineTruncated | LineEnd

text \<open>\<open>LineEnd\<close> is the reader's own error, which is \<open>io.EOF\<close> at the end of the stream.\<close>

function readLine :: "nat \<Rightarrow> nat \<Rightarrow> string \<Rightarrow> string \<Rightarrow> line_error + (string \<times> string)" where
  "readLine n maxBytes line s =
     (case read_slice n s of
        (chunk, e, rest) \<Rightarrow>
          if length line + length chunk > maxBytes + 1 then Inl LineTooLong
          else (case e of
              SliceLine \<Rightarrow> Inr (butlast (line @ chunk), rest)
            | SliceFull \<Rightarrow> if n = 0 then Inl LineEnd else readLine n maxBytes (line @ chunk) rest
            | SliceEnd \<Rightarrow> if line @ chunk \<noteq> [] then Inl LineTruncated else Inl LineEnd))"
  by pat_completeness auto
termination
  by (relation "measure (\<lambda>(n, m, l, s). length s)")
    (auto simp: read_slice_def Let_def split: if_splits)

declare readLine.simps [simp del]

definition bufferSize :: nat where
  "bufferSize = 65536"

text \<open>What one line is, without any buffer.\<close>

definition line_spec :: "nat \<Rightarrow> string \<Rightarrow> string \<Rightarrow> line_error + (string \<times> string)" where
  "line_spec maxBytes line s =
     (let t = takeWhile (\<lambda>c. c \<noteq> newline) s
      in if length t < length s
         then (if length line + length t > maxBytes then Inl LineTooLong
               else Inr (line @ t, drop (length t + 1) s))
         else if length line + length s > maxBytes + 1 then Inl LineTooLong
         else if line @ s = [] then Inl LineEnd else Inl LineTruncated)"

lemma takeWhile_drop:
  "n \<le> length (takeWhile P s) \<Longrightarrow> takeWhile P (drop n s) = drop n (takeWhile P s)"
  by (induction s arbitrary: n) (auto simp: drop_Cons' split: if_splits)

lemma takeWhile_take: "n \<le> length (takeWhile P s) \<Longrightarrow> take n s = take n (takeWhile P s)"
  by (induction s arbitrary: n) (auto simp: take_Cons' split: if_splits)

text \<open>The buffer size does not matter.\<close>

lemma readLine_spec: "0 < n \<Longrightarrow> readLine n maxBytes line s = line_spec maxBytes line s"
proof (induction n maxBytes line s rule: readLine.induct)
  case (1 n maxBytes line s)
  let ?t = "takeWhile (\<lambda>c. c \<noteq> newline) s"
  have le: "length ?t \<le> length s" by (rule length_takeWhile_le)
  consider (line) "length ?t < length s" "length ?t < n" | (full) "n \<le> length ?t"
    | (rest) "length ?t = length s" "length s < n"
    using le by linarith
  then show ?case
  proof cases
    case line
    then have "read_slice n s = (?t @ [newline], SliceLine, drop (length ?t + 1) s)"
      by (simp add: read_slice_def Let_def)
    with line show ?thesis
      by (simp add: readLine.simps [of n maxBytes line s] line_spec_def Let_def butlast_append)
  next
    case full
    with le have slice: "read_slice n s = (take n s, SliceFull, drop n s)"
      by (simp add: read_slice_def Let_def)
    have t: "takeWhile (\<lambda>c. c \<noteq> newline) (drop n s) = drop n ?t" using full by (rule takeWhile_drop)
    have tk: "take n s = take n ?t" using full by (rule takeWhile_take)
    show ?thesis
    proof (cases "length line + n > maxBytes + 1")
      case True
      with slice full le show ?thesis
        by (simp add: readLine.simps [of n maxBytes line s] line_spec_def Let_def)
    next
      case False
      with slice full le have "readLine n maxBytes line s = readLine n maxBytes (line @ take n s) (drop n s)"
        using "1.prems" by (simp add: readLine.simps [of n maxBytes line s])
      also have "\<dots> = line_spec maxBytes (line @ take n s) (drop n s)"
        using "1.IH" [OF slice [symmetric] refl _ refl] False full le "1.prems" by simp
      also have "\<dots> = line_spec maxBytes line s"
        using full le "1.prems" tk t
        by (auto simp: line_spec_def Let_def)
      finally show ?thesis .
    qed
  next
    case rest
    then have "read_slice n s = (s, SliceEnd, [])" by (simp add: read_slice_def Let_def)
    with rest show ?thesis
      by (simp add: readLine.simps [of n maxBytes line s] line_spec_def Let_def)
  qed
qed

text \<open>A line that was written is read back, and the bytes after it stay.\<close>

lemma readLine_written:
  assumes "0 < n" and "newline \<notin> set l" and "length l \<le> maxBytes"
  shows "readLine n maxBytes [] (l @ newline # rest) = Inr (l, rest)"
proof -
  have "takeWhile (\<lambda>c. c \<noteq> newline) (l @ newline # rest) = l"
    using assms(2) by (simp add: takeWhile_append)
  then show ?thesis using assms by (simp add: readLine_spec line_spec_def)
qed

section \<open>Requests\<close>

record wire_request =
  wq_release :: string
  wq_dir :: string
  wq_files :: "string list"

text \<open>\<open>json.Marshal\<close> escapes HTML, unlike \<open>marshal\<close>; \<open>send\<close> appends the newline.\<close>

definition request_json :: "nat \<Rightarrow> wire_request \<Rightarrow> json" where
  "request_json rid q =
     JObj [(''id'', JNum (int_text (int rid))), (''release'', JStr (wq_release q)), (''dir'', JStr (wq_dir q)),
       (''files'', JArr (map JStr (wq_files q)))]"

definition request_line :: "nat \<Rightarrow> wire_request \<Rightarrow> string" where
  "request_line rid q = json_text True (request_json rid q) @ [newline]"

text \<open>Whatever the paths contain, a request is one line.\<close>

lemma request_one_line:
  "\<exists>l. request_line rid q = l @ [newline] \<and> newline \<notin> set l"
proof -
  have "json_plain (request_json rid q)" by (auto simp: request_json_def int_text_printable)
  then show ?thesis by (simp add: request_line_def newline_def json_text_no_newline)
qed

section \<open>Replies\<close>

text \<open>The report is a \<open>json.RawMessage\<close>: the text of its value, empty when there is none.\<close>

record reply_line =
  rl_id :: int
  rl_report :: string
  rl_error :: "string option"

definition dec_uint64 :: "int decoder" where
  "dec_uint64 cur j =
     (case j of
        JNum l \<Rightarrow> if l \<noteq> [] \<and> list_all digit l \<and> digits_value l < 2 ^ 64 then Some (digits_value l) else None
      | JNull \<Rightarrow> Some cur
      | _ \<Rightarrow> None)"

definition zero_reply_line :: reply_line where
  "zero_reply_line = \<lparr>rl_id = 0, rl_report = [], rl_error = None\<rparr>"

definition set_reply_field :: "string \<Rightarrow> json \<times> string \<Rightarrow> reply_line \<Rightarrow> reply_line option" where
  "set_reply_field n j v =
     (if n = ''id'' then map_option (\<lambda>x. v\<lparr>rl_id := x\<rparr>) (dec_uint64 (rl_id v) (fst j))
      else if n = ''report'' then Some (v\<lparr>rl_report := snd j\<rparr>)
      else map_option (\<lambda>x. v\<lparr>rl_error := x\<rparr>) (dec_ptr [] dec_string (rl_error v) (fst j)))"

text \<open>\<open>json.Unmarshal\<close> of a line: the whole text is checked first, then its members are set.\<close>

definition dec_reply_line :: "string \<Rightarrow> reply_line option" where
  "dec_reply_line line =
     (case json_parse line of
        Some JNull \<Rightarrow> Some zero_reply_line
      | Some (JObj _) \<Rightarrow>
          Option.bind (raw_object line)
            (\<lambda>ms. dec_members [''id'', ''report'', ''error''] set_reply_field ms zero_reply_line)
      | _ \<Rightarrow> None)"

datatype reply = ReplyReport string | ReplyError string

definition hasReport :: "reply_line \<Rightarrow> bool" where
  "hasReport r \<longleftrightarrow> rl_report r \<noteq> [] \<and> rl_report r \<noteq> ''null''"

text \<open>The id and the result of one reply line; \<open>None\<close> is an invalid line, which kills the JVM.\<close>

definition decode_reply :: "string \<Rightarrow> (nat \<times> reply) option" where
  "decode_reply line =
     (case dec_reply_line line of
        None \<Rightarrow> None
      | Some r \<Rightarrow>
          if rl_id r = 0 \<or> hasReport r = (rl_error r \<noteq> None) then None
          else Some (nat (rl_id r),
            case rl_error r of Some e \<Rightarrow> ReplyError e | None \<Rightarrow> ReplyReport (rl_report r)))"

text \<open>\<open>validReport\<close>: the warm-up's report is an object with a findings array.\<close>

definition dec_validReport :: "json list option decoder" where
  "dec_validReport = dec_struct [''findings''] (\<lambda>n j v.
     (case j of JNull \<Rightarrow> Some None | JArr js \<Rightarrow> Some (Some js) | _ \<Rightarrow> None))"

definition validReport :: "string \<Rightarrow> bool" where
  "validReport report = (case Option.bind (json_parse report) (dec_validReport None) of Some (Some fs) \<Rightarrow> True | _ \<Rightarrow> False)"

lemma dec_uint64_range: "dec_uint64 cur j = Some i \<Longrightarrow> 0 \<le> cur \<Longrightarrow> 0 \<le> i"
proof -
  have "0 \<le> a \<Longrightarrow> list_all digit l \<Longrightarrow> 0 \<le> foldl (\<lambda>n c. 10 * n + (int (of_char c) - 48)) a l" for a :: int and l
    by (induction l arbitrary: a) (auto simp: digit_def)
  then have "list_all digit l \<Longrightarrow> 0 \<le> digits_value l" for l by (simp add: digits_value_def)
  then show "dec_uint64 cur j = Some i \<Longrightarrow> 0 \<le> cur \<Longrightarrow> 0 \<le> i"
    by (auto simp: dec_uint64_def split: json.splits if_splits)
qed

text \<open>An accepted reply names a request and holds exactly one of the two results.\<close>

lemma decode_reply_ok:
  assumes "decode_reply line = Some (rid, r)"
  shows "0 < rid" and "r \<noteq> ReplyReport ''null''" and "r \<noteq> ReplyReport []"
proof -
  obtain v where v: "dec_reply_line line = Some v"
    and v0: "rl_id v \<noteq> 0" "hasReport v \<noteq> (rl_error v \<noteq> None)"
    and r: "rid = nat (rl_id v)"
      "r = (case rl_error v of Some e \<Rightarrow> ReplyError e | None \<Rightarrow> ReplyReport (rl_report v))"
    using assms by (auto simp: decode_reply_def split: option.splits if_splits)
  have keep: "0 \<le> rl_id (v' :: reply_line)" if "0 \<le> rl_id w" "set_reply_field n j w = Some v'" for n j w v'
    using that dec_uint64_range by (auto simp: set_reply_field_def split: if_splits)
  have "0 \<le> rl_id zero_reply_line" by (simp add: zero_reply_line_def)
  with v have "0 \<le> rl_id v"
    by (auto simp: dec_reply_line_def bind_eq_Some_conv split: option.splits json.splits
        elim!: dec_members_inv [where P = "\<lambda>v. 0 \<le> rl_id v"] intro: keep)
  with v0 r show "0 < rid" "r \<noteq> ReplyReport ''null''" "r \<noteq> ReplyReport []"
    by (auto simp: hasReport_def split: option.splits)
qed

section \<open>The logger of standard error\<close>

definition truncate_log :: "string \<Rightarrow> nat \<Rightarrow> string" where
  "truncate_log b n = (if length b > n then take n b @ ''...'' else b)"

text \<open>The complete lines of a buffer and what is left of it.\<close>

function log_lines :: "string \<Rightarrow> string list \<times> string" where
  "log_lines buf =
     (let t = takeWhile (\<lambda>c. c \<noteq> newline) buf
      in if length t < length buf
         then (case log_lines (drop (length t + 1) buf) of (ls, rest) \<Rightarrow> (t # ls, rest))
         else ([], buf))"
  by pat_completeness auto
termination by (relation "measure length") auto

declare log_lines.simps [simp del]

definition maxLogLine :: nat where "maxLogLine = 4096"

definition logger_write :: "string \<Rightarrow> string \<Rightarrow> string \<Rightarrow> string list \<times> string" where
  "logger_write pre buf b =
     (case log_lines (buf @ b) of
        (ls, rest) \<Rightarrow>
          (let out = map (\<lambda>l. pre @ truncate_log l maxLogLine) ls
           in if length rest > maxLogLine then (out @ [pre @ truncate_log rest maxLogLine], [])
              else (out, rest)))"

fun logger_writes :: "string \<Rightarrow> string \<Rightarrow> string list \<Rightarrow> string list \<times> string" where
  "logger_writes pre buf [] = ([], buf)"
| "logger_writes pre buf (b # bs) =
     (case logger_write pre buf b of
        (ls, buf') \<Rightarrow> (case logger_writes pre buf' bs of (ls', buf'') \<Rightarrow> (ls @ ls', buf'')))"

text \<open>The buffer is bounded whatever the JVM prints.\<close>

lemma logger_write_bound: "length (snd (logger_write pre buf b)) \<le> maxLogLine"
  by (simp add: logger_write_def Let_def split: prod.splits)

lemma log_lines_plain: "newline \<notin> set t \<Longrightarrow> log_lines t = ([], t)"
proof -
  assume "newline \<notin> set t"
  then have t: "takeWhile (\<lambda>c. c \<noteq> newline) t = t" by auto
  show ?thesis by (subst log_lines.simps, unfold t Let_def, simp)
qed

lemma log_lines_line:
  assumes "newline \<notin> set t"
  shows "log_lines (t @ newline # s) = (case log_lines s of (ls, rest) \<Rightarrow> (t # ls, rest))"
proof -
  have "takeWhile (\<lambda>c. c \<noteq> newline) (t @ newline # s) = t"
    using assms by (simp add: takeWhile_append)
  then show ?thesis by (simp add: log_lines.simps [of "t @ newline # s"])
qed

lemma log_lines_cases:
  obtains "newline \<notin> set buf" "log_lines buf = ([], buf)"
  | t s where "buf = t @ newline # s" "newline \<notin> set t" "length s < length buf"
      "log_lines buf = (t # fst (log_lines s), snd (log_lines s))"
proof (cases "newline \<in> set buf")
  case True
  then obtain t s where "buf = t @ newline # s" "newline \<notin> set t" by (meson split_list_first)
  then show ?thesis by (intro that(2) [of t s]) (auto simp: log_lines_line split: prod.splits)
qed (simp add: that(1) log_lines_plain)

lemma log_lines_append:
  "log_lines (buf @ b) = (case log_lines (snd (log_lines buf) @ b) of
     (ls', rest') \<Rightarrow> (fst (log_lines buf) @ ls', rest'))"
proof (induction buf rule: length_induct)
  case (1 buf)
  show ?case
  proof (rule log_lines_cases [of buf])
    fix t s assume *: "buf = t @ newline # s" "newline \<notin> set t" "length s < length buf"
      "log_lines buf = (t # fst (log_lines s), snd (log_lines s))"
    from 1 *(3) have "log_lines (s @ b) = (case log_lines (snd (log_lines s) @ b) of
       (ls', rest') \<Rightarrow> (fst (log_lines s) @ ls', rest'))" by blast
    moreover have "log_lines (buf @ b) = (case log_lines (s @ b) of (ls, rest) \<Rightarrow> (t # ls, rest))"
      using log_lines_line [OF *(2), of "s @ b"] *(1) by simp
    ultimately show ?thesis using *(4) by (simp split: prod.splits)
  qed (simp split: prod.splits)
qed

lemma log_lines_rest: "log_lines (snd (log_lines buf)) = ([], snd (log_lines buf))"
proof (induction buf rule: length_induct)
  case (1 buf)
  show ?case by (rule log_lines_cases [of buf]) (use 1 in auto)
qed

text \<open>
  When no line and no rest is longer than the limit, the lines logged do not depend on how
  the output is cut into writes.
\<close>

lemma logger_chunks:
  assumes "\<And>k. length (snd (log_lines (buf @ concat (take k bs)))) \<le> maxLogLine"
  shows "logger_writes pre (snd (log_lines buf)) bs =
    (case log_lines (snd (log_lines buf) @ concat bs) of
       (ls, rest) \<Rightarrow> (map (\<lambda>l. pre @ truncate_log l maxLogLine) ls, rest))"
  using assms
proof (induction bs arbitrary: buf)
  case Nil
  show ?case by (simp add: log_lines_rest)
next
  case (Cons b bs)
  let ?r = "snd (log_lines buf)"
  obtain ls rest where lr: "log_lines (?r @ b) = (ls, rest)" by fastforce
  have ap: "log_lines (buf @ b) = (fst (log_lines buf) @ ls, rest)"
    using log_lines_append [of buf b] lr by simp
  have "length rest \<le> maxLogLine" using Cons.prems [of 1] ap by simp
  then have w: "logger_write pre ?r b = (map (\<lambda>l. pre @ truncate_log l maxLogLine) ls, rest)"
    by (simp add: logger_write_def lr)
  have "length (snd (log_lines ((buf @ b) @ concat (take k bs)))) \<le> maxLogLine" for k
    using Cons.prems [of "Suc k"] by simp
  from Cons.IH [of "buf @ b", OF this] ap
  have ih: "logger_writes pre rest bs =
      (case log_lines (rest @ concat bs) of
         (ls, rest) \<Rightarrow> (map (\<lambda>l. pre @ truncate_log l maxLogLine) ls, rest))"
    by simp
  have "log_lines (?r @ b @ concat bs) = (case log_lines (rest @ concat bs) of (ls', r') \<Rightarrow> (ls @ ls', r'))"
    using log_lines_append [of "?r @ b" "concat bs"] lr by simp
  with w ih show ?case by (simp split: prod.splits)
qed

end
