(* ===== verification/Javac_Process.thy ===== *)
theory Javac_Process
  imports Javac_Wire "HOL-Library.Multiset"
begin

text \<open>
  \<open>internal/javacworker/worker.go\<close>, the type \<open>process\<close>: one JVM child with the requests
  pending on it.  The channel of a request, which has room for one result, is named by the
  request's id.  Callers of \<open>send\<close> and \<open>kill\<close> interleave with the reader goroutine; every
  critical section of \<open>p.mu\<close> and every channel operation is a step.
\<close>

section \<open>The process\<close>

record process =
  pr_nextID :: nat
  pr_pending :: "nat list"         \<comment> \<open>the keys of the map\<close>
  pr_dead :: bool
  pr_reaped :: bool
  pr_reason :: string
  pr_exitErr :: "string option"

definition spawn_process :: process where
  "spawn_process = \<lparr>pr_nextID = 0, pr_pending = [], pr_dead = False, pr_reaped = False,
     pr_reason = [], pr_exitErr = None\<rparr>"

text \<open>The critical section of \<open>send\<close>: \<open>None\<close> is a process that is already dead.\<close>

definition proc_send :: "process \<Rightarrow> (nat \<times> process) option" where
  "proc_send p =
     (if pr_dead p then None
      else (let rid = pr_nextID p + 1
            in Some (rid, p\<lparr>pr_nextID := rid, pr_pending := rid # filter (\<lambda>i. i \<noteq> rid) (pr_pending p)\<rparr>)))"

text \<open>\<open>kill\<close>, with whether it signals the process group.\<close>

definition proc_kill :: "string \<Rightarrow> process \<Rightarrow> bool \<times> process" where
  "proc_kill reason p =
     (\<not> pr_reaped p,
      p\<lparr>pr_reason := (if pr_reason p = [] then reason else pr_reason p), pr_dead := True\<rparr>)"

definition isDead :: "process \<Rightarrow> bool" where
  "isDead p = pr_dead p"

definition proc_cause :: "process \<Rightarrow> string" where
  "proc_cause p =
     (if pr_reason p \<noteq> [] then pr_reason p
      else (case pr_exitErr p of Some e \<Rightarrow> e | None \<Rightarrow> ''exit status 0''))"

text \<open>The critical section of the reader that looks a reply's request up and forgets it.\<close>

definition take_pending :: "nat \<Rightarrow> process \<Rightarrow> bool \<times> process" where
  "take_pending rid p =
     (rid \<in> set (pr_pending p), p\<lparr>pr_pending := filter (\<lambda>i. i \<noteq> rid) (pr_pending p)\<rparr>)"

definition proc_reap :: "string option \<Rightarrow> process \<Rightarrow> nat list \<times> process" where
  "proc_reap waitErr p =
     (pr_pending p,
      p\<lparr>pr_dead := True, pr_reaped := True, pr_pending := [],
        pr_exitErr := Some (case waitErr of Some e \<Rightarrow> e | None \<Rightarrow> ''exit status 0'')\<rparr>)"

section \<open>The reader and its callers\<close>

datatype chan_result = Replied reply | Restarted

datatype reader_pc =
    RdLoop
  | RdHand nat reply              \<comment> \<open>about to send a result\<close>
  | RdExit                        \<comment> \<open>out of the loop, in \<open>Wait\<close>\<close>
  | RdWaited "string option"      \<comment> \<open>\<open>Wait\<close> has returned\<close>
  | RdFail "nat list"             \<comment> \<open>requests still to be failed\<close>
  | RdDone

record proc_sys =
  px_proc :: process
  px_results :: "nat \<Rightarrow> chan_result list"   \<comment> \<open>what was sent to each channel\<close>
  px_reader :: reader_pc
  px_late :: bool                           \<comment> \<open>a signal was sent after \<open>Wait\<close> had returned\<close>

definition waited :: "reader_pc \<Rightarrow> bool" where
  "waited pc \<longleftrightarrow> (case pc of RdWaited _ \<Rightarrow> True | RdFail _ \<Rightarrow> True | RdDone \<Rightarrow> True | _ \<Rightarrow> False)"

definition put_result :: "nat \<Rightarrow> chan_result \<Rightarrow> proc_sys \<Rightarrow> proc_sys" where
  "put_result rid r s = s\<lparr>px_results := (px_results s)(rid := px_results s rid @ [r])\<rparr>"

inductive proc_step :: "proc_sys \<Rightarrow> proc_sys \<Rightarrow> bool" where
  px_send: "proc_send (px_proc s) = Some (rid, p) \<Longrightarrow> proc_step s (s\<lparr>px_proc := p\<rparr>)"
| px_kill: "proc_kill reason (px_proc s) = (sig, p) \<Longrightarrow>
    proc_step s (s\<lparr>px_proc := p, px_late := px_late s \<or> sig \<and> waited (px_reader s)\<rparr>)"
| px_reply: "px_reader s = RdLoop \<Longrightarrow> take_pending rid (px_proc s) = (True, p) \<Longrightarrow>
    proc_step s (s\<lparr>px_proc := p, px_reader := RdHand rid r\<rparr>)"
| px_unknown: "px_reader s = RdLoop \<Longrightarrow> take_pending rid (px_proc s) = (False, p) \<Longrightarrow>
    proc_step s (s\<lparr>px_proc := p\<rparr>)"
| px_hand: "px_reader s = RdHand rid r \<Longrightarrow> px_results s rid = [] \<Longrightarrow>
    proc_step s (put_result rid (Replied r) (s\<lparr>px_reader := RdLoop\<rparr>))"
| px_invalid: "px_reader s = RdLoop \<Longrightarrow> proc_kill reason (px_proc s) = (sig, p) \<Longrightarrow>
    proc_step s (s\<lparr>px_proc := p, px_reader := RdExit\<rparr>)"
| px_eof: "px_reader s = RdLoop \<Longrightarrow> proc_step s (s\<lparr>px_reader := RdExit\<rparr>)"
| px_wait: "px_reader s = RdExit \<Longrightarrow> proc_step s (s\<lparr>px_reader := RdWaited e\<rparr>)"
| px_reap: "px_reader s = RdWaited e \<Longrightarrow> proc_reap e (px_proc s) = (pending, p) \<Longrightarrow>
    mset is = mset pending \<Longrightarrow> proc_step s (s\<lparr>px_proc := p, px_reader := RdFail is\<rparr>)"
| px_fail: "px_reader s = RdFail (i # is) \<Longrightarrow> px_results s i = [] \<Longrightarrow>
    proc_step s (put_result i Restarted (s\<lparr>px_reader := RdFail is\<rparr>))"
| px_close: "px_reader s = RdFail [] \<Longrightarrow> proc_step s (s\<lparr>px_reader := RdDone\<rparr>)"

definition proc_start :: "proc_sys \<Rightarrow> bool" where
  "proc_start s \<longleftrightarrow>
     s = \<lparr>px_proc = spawn_process, px_results = (\<lambda>_. []), px_reader = RdLoop, px_late = False\<rparr>"

section \<open>Every request gets one result\<close>

text \<open>A request is pending, in the reader's hands, to be failed, or has its result.\<close>

fun in_hand :: "reader_pc \<Rightarrow> nat \<Rightarrow> nat" where
  "in_hand (RdHand k r) i = (if k = i then 1 else 0)"
| "in_hand (RdFail is) i = count_list is i"
| "in_hand _ i = 0"

definition owed :: "proc_sys \<Rightarrow> nat \<Rightarrow> nat" where
  "owed s i = count_list (pr_pending (px_proc s)) i + in_hand (px_reader s) i + length (px_results s i)"

definition proc_inv :: "proc_sys \<Rightarrow> bool" where
  "proc_inv s \<longleftrightarrow>
     (\<forall>i. owed s i = (if 1 \<le> i \<and> i \<le> pr_nextID (px_proc s) then 1 else 0)) \<and>
     (pr_reaped (px_proc s) \<longrightarrow> pr_dead (px_proc s) \<and> pr_pending (px_proc s) = []) \<and>
     ((\<exists>is. px_reader s = RdFail is) \<or> px_reader s = RdDone \<longrightarrow> pr_reaped (px_proc s))"

lemma count_list_filter_ne:
  "count_list (filter (\<lambda>x. x \<noteq> k) xs) i = (if i = k then 0 else count_list xs i)"
  by (induction xs) auto

lemma count_list_mset: "count_list xs i = count (mset xs) i"
  by (induction xs) auto

lemma proc_inv_start: "proc_start s \<Longrightarrow> proc_inv s"
  by (auto simp: proc_start_def proc_inv_def owed_def spawn_process_def)

lemma owed_fresh: "proc_inv s \<Longrightarrow> pr_nextID (px_proc s) < i \<Longrightarrow> owed s i = 0"
  by (auto simp: proc_inv_def)

lemma proc_inv_send:
  assumes "proc_inv s" and "proc_send (px_proc s) = Some (rid, p)"
  shows "proc_inv (s\<lparr>px_proc := p\<rparr>)"
proof -
  have dead: "\<not> pr_dead (px_proc s)" and rid: "rid = pr_nextID (px_proc s) + 1"
    and p: "p = (px_proc s)\<lparr>pr_nextID := rid, pr_pending := rid # filter (\<lambda>i. i \<noteq> rid) (pr_pending (px_proc s))\<rparr>"
    using assms(2) by (auto simp: proc_send_def Let_def split: if_splits)
  from owed_fresh [OF assms(1), of rid] have "count_list (pr_pending (px_proc s)) rid = 0"
    "in_hand (px_reader s) rid = 0" "px_results s rid = []"
    by (auto simp: owed_def rid)
  then have "owed (s\<lparr>px_proc := p\<rparr>) i = owed s i + (if i = rid then 1 else 0)" for i
    by (auto simp: owed_def p count_list_filter_ne)
  with assms(1) dead show ?thesis by (auto simp: proc_inv_def p rid)
qed

lemma proc_inv_take:
  assumes "proc_inv s" and "take_pending rid (px_proc s) = (found, p)" and "px_reader s = RdLoop"
  shows "found \<Longrightarrow> proc_inv (s\<lparr>px_proc := p, px_reader := RdHand rid r\<rparr>)"
    and "\<not> found \<Longrightarrow> proc_inv (s\<lparr>px_proc := p\<rparr>)"
proof -
  have p: "p = (px_proc s)\<lparr>pr_pending := filter (\<lambda>i. i \<noteq> rid) (pr_pending (px_proc s))\<rparr>"
    and f: "found \<longleftrightarrow> rid \<in> set (pr_pending (px_proc s))"
    using assms(2) by (auto simp: take_pending_def)
  { assume found
    then have "0 < count_list (pr_pending (px_proc s)) rid" using f by (metis count_list_0_iff gr0I)
    moreover have "owed s rid \<le> 1" using assms(1) by (simp add: proc_inv_def)
    ultimately have "count_list (pr_pending (px_proc s)) rid = 1" by (simp add: owed_def)
    then have "owed (s\<lparr>px_proc := p, px_reader := RdHand rid r\<rparr>) i = owed s i" for i
      using assms(3) by (cases "i = rid") (simp_all add: owed_def p count_list_filter_ne)
    with assms(1,3) show "proc_inv (s\<lparr>px_proc := p, px_reader := RdHand rid r\<rparr>)"
      by (auto simp: proc_inv_def p) }
  { assume "\<not> found"
    then have "filter (\<lambda>i. i \<noteq> rid) (pr_pending (px_proc s)) = pr_pending (px_proc s)"
      using f by (auto simp: filter_id_conv)
    then have "p = px_proc s" by (simp add: p)
    with assms(1) show "proc_inv (s\<lparr>px_proc := p\<rparr>)" by simp }
qed

lemma owed_put:
  "owed (put_result rid r s) i = owed s i + (if i = rid then 1 else 0)"
  by (simp add: owed_def put_result_def)

lemma put_result_fields [simp]:
  "px_proc (put_result rid r s) = px_proc s" "px_reader (put_result rid r s) = px_reader s"
  by (simp_all add: put_result_def)

lemma proc_inv_same:
  assumes "proc_inv s" and "\<And>i. owed t i = owed s i"
    and "pr_nextID (px_proc t) = pr_nextID (px_proc s)"
    and "pr_reaped (px_proc t) \<Longrightarrow> pr_dead (px_proc t) \<and> pr_pending (px_proc t) = []"
    and "(\<exists>is. px_reader t = RdFail is) \<or> px_reader t = RdDone \<Longrightarrow> pr_reaped (px_proc t)"
  shows "proc_inv t"
  using assms(1) unfolding proc_inv_def assms(2,3) using assms(4,5) by blast

lemma proc_inv_kill:
  assumes "proc_inv s" and "proc_kill reason (px_proc s) = (sig, p)"
  shows "proc_inv (s\<lparr>px_proc := p, px_late := b\<rparr>)"
    and "px_reader s = RdLoop \<Longrightarrow> proc_inv (s\<lparr>px_proc := p, px_reader := RdExit\<rparr>)"
proof -
  have p: "pr_pending p = pr_pending (px_proc s)" "pr_nextID p = pr_nextID (px_proc s)"
    "pr_reaped p = pr_reaped (px_proc s)" "pr_dead p"
    using assms(2) by (auto simp: proc_kill_def)
  have r: "pr_reaped (px_proc s) \<Longrightarrow> pr_pending (px_proc s) = []"
    "(\<exists>is. px_reader s = RdFail is) \<or> px_reader s = RdDone \<Longrightarrow> pr_reaped (px_proc s)"
    using assms(1) by (auto simp: proc_inv_def)
  show "proc_inv (s\<lparr>px_proc := p, px_late := b\<rparr>)"
    by (rule proc_inv_same [OF assms(1)]) (use p r in \<open>auto simp: owed_def\<close>)
  show "px_reader s = RdLoop \<Longrightarrow> proc_inv (s\<lparr>px_proc := p, px_reader := RdExit\<rparr>)"
    by (rule proc_inv_same [OF assms(1)]) (use p r in \<open>auto simp: owed_def\<close>)
qed

lemma proc_inv_step:
  assumes inv: "proc_inv s" and step: "proc_step s t"
  shows "proc_inv t"
  using step
proof (cases rule: proc_step.cases)
  case (px_send rid p)
  then show ?thesis using proc_inv_send [OF inv] by simp
next
  case (px_kill reason sig p)
  then show ?thesis using proc_inv_kill(1) [OF inv] by simp
next
  case (px_reply rid p r)
  then show ?thesis using proc_inv_take(1) [OF inv px_reply(3,2)] by simp
next
  case (px_unknown rid p)
  then show ?thesis using proc_inv_take(2) [OF inv px_unknown(3,2)] by simp
next
  case (px_hand rid r)
  then have "owed t i = owed s i" for i by (simp add: owed_put) (simp add: owed_def)
  from proc_inv_same [OF inv this] inv px_hand show ?thesis by (auto simp: proc_inv_def)
next
  case (px_invalid reason sig p)
  then show ?thesis using proc_inv_kill(2) [OF inv] by simp
next
  case px_eof
  then have "owed t i = owed s i" for i by (simp add: owed_def)
  from proc_inv_same [OF inv this] inv px_eof show ?thesis by (auto simp: proc_inv_def)
next
  case (px_wait e)
  then have "owed t i = owed s i" for i by (simp add: owed_def)
  from proc_inv_same [OF inv this] inv px_wait show ?thesis by (auto simp: proc_inv_def)
next
  case (px_reap e pending p "is")
  then have "owed t i = owed s i" for i by (auto simp: owed_def proc_reap_def count_list_mset)
  from proc_inv_same [OF inv this] px_reap show ?thesis by (auto simp: proc_reap_def)
next
  case (px_fail i "is")
  then have "owed t k = owed s k" for k by (simp add: owed_put) (simp add: owed_def)
  from proc_inv_same [OF inv this] inv px_fail show ?thesis by (auto simp: proc_inv_def)
next
  case px_close
  then have "owed t i = owed s i" for i by (simp add: owed_def)
  from proc_inv_same [OF inv this] inv px_close show ?thesis by (auto simp: proc_inv_def)
qed

interpretation proc: transition_system proc_start proc_step proc_inv
  by unfold_locales (auto intro: proc_inv_start proc_inv_step)

lemma one_result_each:
  assumes "proc_inv s" and "px_reader s = RdDone" and "1 \<le> i" and "i \<le> pr_nextID (px_proc s)"
  shows "length (px_results s i) = 1"
  using assms by (auto simp: proc_inv_def owed_def)

lemma at_most_one_result: "proc_inv s \<Longrightarrow> length (px_results s i) \<le> 1"
  by (auto simp: proc_inv_def owed_def dest!: spec [of _ i] split: if_splits)

text \<open>A send of the reader never blocks, so it always gets to reap the process.\<close>

lemma reader_not_blocked:
  assumes "proc_inv s"
  shows "px_reader s = RdHand i r \<Longrightarrow> px_results s i = []"
    and "px_reader s = RdFail (i # is) \<Longrightarrow> px_results s i = []"
  using assms by (auto simp: proc_inv_def owed_def dest!: spec [of _ i] split: if_splits)

lemma reader_proceeds:
  assumes "proc_inv s" and "px_reader s \<noteq> RdDone"
  shows "\<exists>t. proc_step s t \<and> px_reader t \<noteq> px_reader s"
proof (cases "px_reader s")
  case RdLoop
  then show ?thesis using px_eof [of s] by fastforce
next
  case (RdHand i r)
  then show ?thesis using px_hand [of s i r] reader_not_blocked(1) [OF assms(1)] by fastforce
next
  case RdExit
  then show ?thesis using px_wait [of s None] by fastforce
next
  case (RdWaited e)
  obtain pending p where "proc_reap e (px_proc s) = (pending, p)" by fastforce
  with RdWaited show ?thesis using px_reap [of s e pending p pending] by fastforce
next
  case (RdFail "is")
  then show ?thesis
  proof (cases "is")
    case Nil
    with RdFail show ?thesis using px_close [of s] by fastforce
  next
    case (Cons i js)
    with RdFail show ?thesis using px_fail [of s i js] reader_not_blocked(2) [OF assms(1)] by fastforce
  qed
qed (use assms in simp)

text \<open>A process that is reaped takes no more requests.\<close>

lemma no_send_after_reap: "proc_inv s \<Longrightarrow> pr_reaped (px_proc s) \<Longrightarrow> proc_send (px_proc s) = None"
  by (auto simp: proc_inv_def proc_send_def)

text \<open>
  \<open>kill\<close> means not to signal a process that was reaped, but between the return of \<open>Wait\<close> and
  the critical section that records it a signal still goes out.
\<close>

lemma kill_after_wait: "\<exists>s t. proc_start s \<and> reaches proc_step s t \<and> px_late t"
proof -
  let ?s = "\<lparr>px_proc = spawn_process, px_results = (\<lambda>_. []), px_reader = RdLoop, px_late = False\<rparr>"
  let ?p = "snd (proc_kill ''closing'' spawn_process)"
  have 1: "proc_step ?s (?s\<lparr>px_reader := RdExit\<rparr>)" by (rule px_eof) simp
  have 2: "proc_step (?s\<lparr>px_reader := RdExit\<rparr>) (?s\<lparr>px_reader := RdWaited None\<rparr>)"
    using px_wait [of "?s\<lparr>px_reader := RdExit\<rparr>" None] by simp
  have 3: "proc_step (?s\<lparr>px_reader := RdWaited None\<rparr>) (?s\<lparr>px_reader := RdWaited None, px_proc := ?p, px_late := True\<rparr>)"
    using px_kill [of "''closing''" "?s\<lparr>px_reader := RdWaited None\<rparr>" True ?p]
    by (simp add: proc_kill_def waited_def spawn_process_def)
  have "reaches proc_step ?s (?s\<lparr>px_reader := RdWaited None, px_proc := ?p, px_late := True\<rparr>)"
    using 1 2 3 by (meson reaches_refl reaches_step)
  moreover have "proc_start ?s" by (simp add: proc_start_def)
  ultimately show ?thesis by (intro exI conjI) (assumption, assumption, simp)
qed

end
