(* ===== verification/Go_Numbers.thy ===== *)
theory Go_Numbers
  imports Json_Text
begin

unbundle bit_operations_syntax

text \<open>
  The numbers that Go's \<open>flag\<close> package reads: \<open>strconv.ParseInt\<close> with base 0 and
  \<open>time.ParseDuration\<close> (in nanoseconds), both of 64 bits.  \<open>None\<close> is any error.  A fraction of
  a duration is computed in \<open>float64\<close>, whose rounding is written out.
\<close>

section \<open>Integers\<close>

definition maxUint64 :: nat where "maxUint64 = 2 ^ 64 - 1"

definition digit_num :: "char \<Rightarrow> nat" where "digit_num c = of_char c - 48"

text \<open>\<open>c | ('x' - 'X')\<close>, which is the lower case of a letter.\<close>

definition lower_byte :: "char \<Rightarrow> nat" where "lower_byte c = of_char c OR 32"

definition digit_of :: "char \<Rightarrow> nat option" where
  "digit_of c =
     (if digit c then Some (digit_num c)
      else if 97 \<le> lower_byte c \<and> lower_byte c \<le> 122 then Some (lower_byte c - 97 + 10)
      else None)"

fun parse_digits :: "nat \<Rightarrow> string \<Rightarrow> nat \<Rightarrow> nat option" where
  "parse_digits base [] n = Some n"
| "parse_digits base (c # s) n =
     (if c = CHR ''_'' then parse_digits base s n
      else (case digit_of c of
          None \<Rightarrow> None
        | Some d \<Rightarrow>
            if base \<le> d \<or> maxUint64 < n * base + d then None
            else parse_digits base s (n * base + d)))"

definition int_prefix :: "string \<Rightarrow> nat option" where
  "int_prefix s =
     (if 2 \<le> length s \<and> hd s = CHR ''0''
      then (if lower_byte (s ! 1) = of_char CHR ''b'' then Some 2
            else if lower_byte (s ! 1) = of_char CHR ''o'' then Some 8
            else if lower_byte (s ! 1) = of_char CHR ''x'' then Some 16 else None)
      else None)"

text \<open>Underscores separate digits or follow the prefix; \<open>i\<close> is the class of the last character.\<close>

fun underscore_loop :: "bool \<Rightarrow> char \<Rightarrow> string \<Rightarrow> bool" where
  "underscore_loop hex i [] \<longleftrightarrow> i \<noteq> CHR ''_''"
| "underscore_loop hex i (c # s) \<longleftrightarrow>
     (if digit c \<or> hex \<and> 97 \<le> lower_byte c \<and> lower_byte c \<le> 102 then underscore_loop hex CHR ''0'' s
      else if c = CHR ''_'' then i = CHR ''0'' \<and> underscore_loop hex CHR ''_'' s
      else i \<noteq> CHR ''_'' \<and> underscore_loop hex CHR ''!'' s)"

definition underscoreOK :: "string \<Rightarrow> bool" where
  "underscoreOK s =
     (case int_prefix s of
        Some base \<Rightarrow> underscore_loop (base = 16) CHR ''0'' (drop 2 s)
      | None \<Rightarrow> underscore_loop False (CHR ''^'') s)"

definition ParseUint :: "string \<Rightarrow> nat option" where
  "ParseUint s =
     (if s = [] then None
      else
        (let (base, rest) =
           (if hd s \<noteq> CHR ''0'' then (10, s)
            else case (if 3 \<le> length s then int_prefix s else None) of
                Some b \<Rightarrow> (b, drop 2 s)
              | None \<Rightarrow> (8, tl s))
         in case parse_digits base rest 0 of
              None \<Rightarrow> None
            | Some n \<Rightarrow> if CHR ''_'' \<in> set rest \<and> \<not> underscoreOK s then None else Some n))"

text \<open>The sign, and the text after it.\<close>

definition split_sign :: "string \<Rightarrow> bool \<times> string" where
  "split_sign s =
     (case s of
        [] \<Rightarrow> (False, [])
      | c # t \<Rightarrow> if c = CHR ''-'' then (True, t) else if c = CHR ''+'' then (False, t) else (False, s))"

definition ParseInt :: "string \<Rightarrow> int option" where
  "ParseInt s =
     (case split_sign s of (neg, t) \<Rightarrow>
        (case ParseUint t of
           None \<Rightarrow> None
         | Some n \<Rightarrow>
             if \<not> neg \<and> 2 ^ 63 \<le> n \<or> neg \<and> 2 ^ 63 < n then None
             else Some (if neg then - int n else int n)))"

lemma ParseInt_range: "ParseInt s = Some i \<Longrightarrow> in_int64 i"
  by (auto simp: ParseInt_def in_int64_def split: prod.splits option.splits if_splits)

lemma digit_of_digit: "digit c \<Longrightarrow> digit_of c = Some (digit_num c) \<and> c \<noteq> CHR ''_''"
  by (auto simp: digit_of_def digit_def)

lemma parse_digits_append:
  "parse_digits b (s @ t) n = Option.bind (parse_digits b s n) (parse_digits b t)"
  by (induction s arbitrary: n) (simp_all split: option.splits)

lemma digit_num_char: "d < 10 \<Longrightarrow> digit_num (char_of (48 + d)) = d"
  by (simp add: digit_num_def)

lemma parse_digits_nat: "n \<le> maxUint64 \<Longrightarrow> parse_digits 10 (nat_digits n) 0 = Some n"
proof (induction n rule: nat_digits.induct)
  case (1 n)
  have one: "parse_digits 10 [char_of (48 + n mod 10)] k =
      (if maxUint64 < k * 10 + n mod 10 then None else Some (k * 10 + n mod 10))" for k
  proof -
    have d: "n mod 10 < 10" by simp
    with digit_of_digit [OF digit_char, of "n mod 10"] digit_num_char [of "n mod 10"] show ?thesis
      by simp (intro impI, use d in linarith)
  qed
  show ?case
  proof (cases "n < 10")
    case True
    then show ?thesis using one [of 0] 1(2) by (simp add: nat_digits.simps [of n])
  next
    case False
    have "n div 10 \<le> maxUint64" using 1(2) by linarith
    with 1(1) False have "parse_digits 10 (nat_digits (n div 10)) 0 = Some (n div 10)" by simp
    moreover have "(n div 10) * 10 + n mod 10 = n" by simp
    ultimately show ?thesis
      using False 1(2) by (simp only: nat_digits.simps [of n] if_False parse_digits_append bind.simps one) simp
  qed
qed

lemma nat_digits_hd: "0 < n \<Longrightarrow> hd (nat_digits n) \<noteq> CHR ''0''"
proof (induction n rule: nat_digits.induct)
  case (1 n)
  show ?case
  proof (cases "n < 10")
    case True
    have "digit_num (char_of (48 + n)) = n" "digit_num CHR ''0'' = 0"
      using digit_num_char [OF True] by (simp_all add: digit_num_def)
    then show ?thesis using True 1(2) by (auto simp: nat_digits.simps [of n])
  next
    case False
    then have "0 < n div 10" by simp
    with 1(1) False show ?thesis by (simp add: nat_digits.simps [of n])
  qed
qed

lemma ParseUint_digits: "n \<le> maxUint64 \<Longrightarrow> ParseUint (nat_digits n) = Some n"
proof (cases "n = 0")
  case True
  have "nat_digits 0 = ''0''" by (simp add: nat_digits.simps [of 0] char_of_def bit_0)
  moreover have "ParseUint ''0'' = Some 0" by code_simp
  ultimately show ?thesis using True by simp
next
  case False
  assume n: "n \<le> maxUint64"
  have "CHR ''_'' \<notin> set (nat_digits n)" using nat_digits_digits [of n] digit_of_digit by (auto simp: list_all_iff)
  with n parse_digits_nat nat_digits_hd False show ?thesis by (simp add: ParseUint_def)
qed

lemma split_sign_digits: "list_all digit s \<Longrightarrow> split_sign s = (False, s)"
  by (auto simp: split_sign_def digit_def split: list.splits)

lemma ParseInt_text: "in_int64 i \<Longrightarrow> ParseInt (int_text i) = Some i"
proof (cases "i < 0")
  case True
  assume i: "in_int64 i"
  then have "nat (- i) \<le> maxUint64" by (simp add: in_int64_def maxUint64_def nat_le_iff)
  with True i show ?thesis
    by (simp add: ParseInt_def int_text_def split_sign_def ParseUint_digits in_int64_def)
next
  case False
  assume i: "in_int64 i"
  then have "nat i \<le> maxUint64" by (simp add: in_int64_def maxUint64_def nat_le_iff)
  with False i show ?thesis
    by (simp add: ParseInt_def int_text_def split_sign_digits nat_digits_digits ParseUint_digits in_int64_def)
qed

section \<open>Rounding to 53 bits\<close>

fun bits :: "nat \<Rightarrow> nat" where
  "bits n = (if n = 0 then 0 else Suc (bits (n div 2)))"

declare bits.simps [simp del]

definition round_half_even :: "nat \<Rightarrow> nat \<Rightarrow> nat" where
  "round_half_even a b =
     (let q = a div b; r = a mod b in if b < 2 * r \<or> 2 * r = b \<and> odd q then q + 1 else q)"

text \<open>The fraction \<open>a / b\<close> times \<open>2\<close> to the \<open>- e\<close>.\<close>

definition scaled :: "nat \<Rightarrow> nat \<Rightarrow> int \<Rightarrow> nat \<times> nat" where
  "scaled a b e = (if 0 \<le> e then (a, b * 2 ^ nat e) else (a * 2 ^ nat (- e), b))"

text \<open>
  The \<open>float64\<close> nearest to a fraction, as a fraction, for an exponent within range: nothing a
  duration computes overflows, and what would be subnormal counts for zero nanoseconds either way.
\<close>

definition round64 :: "nat \<times> nat \<Rightarrow> nat \<times> nat" where
  "round64 q =
     (case q of (a, b) \<Rightarrow>
        if a = 0 then (0, 1)
        else
          (let e = int (bits a) - int (bits b) - 53;
               e' = (case scaled a b e of (n, d) \<Rightarrow> if 2 ^ 53 * d \<le> n then e + 1 else e);
               m = (case scaled a b e' of (n, d) \<Rightarrow> round_half_even n d)
           in scaled m 1 (- e')))"

definition float_mult :: "nat \<times> nat \<Rightarrow> nat \<times> nat \<Rightarrow> nat \<times> nat" where
  "float_mult p q = round64 (fst p * fst q, snd p * snd q)"

definition float_div :: "nat \<times> nat \<Rightarrow> nat \<times> nat \<Rightarrow> nat \<times> nat" where
  "float_div p q = round64 (fst p * snd q, snd p * fst q)"

section \<open>Durations\<close>

text \<open>\<open>leadingInt\<close>: the value of the leading digits, at most \<open>2 ^ 63\<close>, and the rest.\<close>

fun leading_int :: "nat \<Rightarrow> string \<Rightarrow> (nat \<times> string) option" where
  "leading_int x [] = Some (x, [])"
| "leading_int x (c # s) =
     (if \<not> digit c then Some (x, c # s)
      else if 2 ^ 63 div 10 < x then None
      else if 2 ^ 63 < x * 10 + digit_num c then None
      else leading_int (x * 10 + digit_num c) s)"

text \<open>\<open>leadingFraction\<close>: the digits that fit, the power of ten they are over, and the rest.\<close>

fun leading_fraction :: "nat \<Rightarrow> nat \<times> nat \<Rightarrow> bool \<Rightarrow> string \<Rightarrow> nat \<times> (nat \<times> nat) \<times> string" where
  "leading_fraction x scale full [] = (x, scale, [])"
| "leading_fraction x scale full (c # s) =
     (if \<not> digit c then (x, scale, c # s)
      else if full \<or> (2 ^ 63 - 1) div 10 < x \<or> 2 ^ 63 < x * 10 + digit_num c
      then leading_fraction x scale True s
      else leading_fraction (x * 10 + digit_num c) (float_mult scale (10, 1)) False s)"

definition micro_sign :: string where "micro_sign = [char_of (194::nat), char_of (181::nat)]"
definition greek_mu :: string where "greek_mu = [char_of (206::nat), char_of (188::nat)]"

definition unit_nanos :: "string \<Rightarrow> nat option" where
  "unit_nanos u = map_of
     [(''ns'', 1), (''us'', 1000), (micro_sign @ ''s'', 1000), (greek_mu @ ''s'', 1000),
      (''ms'', 1000000), (''s'', 1000000000), (''m'', 60 * 1000000000), (''h'', 3600 * 1000000000)] u"

definition dot_or_digit :: "char \<Rightarrow> bool" where
  "dot_or_digit c \<longleftrightarrow> c = CHR ''.'' \<or> digit c"

text \<open>The optional fraction after the digits: its digits, its scale, the rest, and whether it has any.\<close>

definition duration_fraction :: "string \<Rightarrow> nat \<times> (nat \<times> nat) \<times> string \<times> bool" where
  "duration_fraction s =
     (case s of
        [] \<Rightarrow> (0, (1, 1), s, False)
      | c # t \<Rightarrow>
          if c = CHR ''.''
          then (case leading_fraction 0 (1, 1) False t of (f, scale, r) \<Rightarrow> (f, scale, r, r \<noteq> t))
          else (0, (1, 1), s, False))"

text \<open>One number with its unit: its nanoseconds and the rest.\<close>

definition duration_part :: "string \<Rightarrow> (nat \<times> string) option" where
  "duration_part s =
     (case leading_int 0 s of
        None \<Rightarrow> None
      | Some (v, s1) \<Rightarrow>
          (case duration_fraction s1 of (f, scale, s2, post) \<Rightarrow>
             if s1 = s \<and> \<not> post then None
             else
               (let u = takeWhile (\<lambda>c. \<not> dot_or_digit c) s2; s3 = dropWhile (\<lambda>c. \<not> dot_or_digit c) s2
                in case unit_nanos u of
                     None \<Rightarrow> None
                   | Some unit \<Rightarrow>
                       if 2 ^ 63 div unit < v then None
                       else
                         (let fl = float_mult (round64 (f, 1)) (float_div (unit, 1) scale);
                              w = (if 0 < f then v * unit + fst fl div snd fl else v * unit)
                          in if 0 < f \<and> 2 ^ 63 < w then None else Some (w, s3)))))"

lemma leading_int_suffix: "leading_int x s = Some (y, r) \<Longrightarrow> suffix r s"
  by (induction x s rule: leading_int.induct) (auto split: if_splits intro: suffix_ConsI)

lemma leading_fraction_suffix: "leading_fraction x sc full s = (y, sc', r) \<Longrightarrow> suffix r s"
  by (induction x sc full s rule: leading_fraction.induct) (auto split: if_splits intro: suffix_ConsI)

lemma unit_nanos_Nil [simp]: "unit_nanos [] = None"
  by (simp add: unit_nanos_def micro_sign_def greek_mu_def)

lemma duration_fraction_suffix: "duration_fraction s = (f, sc, r, post) \<Longrightarrow> suffix r s"
  by (auto simp: duration_fraction_def intro: suffix_ConsI leading_fraction_suffix
      split: list.splits if_splits prod.splits)

lemma dropWhile_shorter: "takeWhile P s \<noteq> [] \<Longrightarrow> length (dropWhile P s) < length s"
  by (cases s) (auto simp: le_imp_less_Suc length_dropWhile_le split: if_splits)

lemma duration_part_shorter:
  assumes "duration_part s = Some (w, r)"
  shows "length r < length s"
proof -
  from assms obtain v s1 f sc s2 post where p: "leading_int 0 s = Some (v, s1)"
      "duration_fraction s1 = (f, sc, s2, post)" "r = dropWhile (\<lambda>c. \<not> dot_or_digit c) s2"
      "takeWhile (\<lambda>c. \<not> dot_or_digit c) s2 \<noteq> []"
    by (force simp: duration_part_def Let_def split: option.splits prod.splits if_splits)
  have "length r < length s2" using p(3,4) dropWhile_shorter by simp
  also have "\<dots> \<le> length s1" using duration_fraction_suffix [OF p(2)] by (rule suffix_length_le)
  also have "\<dots> \<le> length s" using leading_int_suffix [OF p(1)] by (rule suffix_length_le)
  finally show ?thesis .
qed

text \<open>The parts are added in 64 bits; a sum beyond \<open>2 ^ 63\<close> fails unless it wraps to zero.\<close>

function duration_loop :: "nat \<Rightarrow> string \<Rightarrow> nat option" where
  "duration_loop d s =
     (if s = [] then Some d
      else if \<not> dot_or_digit (hd s) then None
      else (case duration_part s of
          None \<Rightarrow> None
        | Some (w, r) \<Rightarrow>
            if 2 ^ 63 < (d + w) mod 2 ^ 64 then None else duration_loop ((d + w) mod 2 ^ 64) r))"
  by pat_completeness auto
termination
  by (relation "measure (\<lambda>(d, s). length s)") (auto dest: duration_part_shorter)

declare duration_loop.simps [simp del]

definition ParseDuration :: "string \<Rightarrow> int option" where
  "ParseDuration s =
     (case split_sign s of (neg, t) \<Rightarrow>
        if t = ''0'' then Some 0
        else if t = [] then None
        else (case duration_loop 0 t of
            None \<Rightarrow> None
          | Some d \<Rightarrow>
              if neg then Some (- int d)
              else if 2 ^ 63 - 1 < d then None
              else Some (int d)))"

lemma duration_loop_bound: "duration_loop d s = Some e \<Longrightarrow> d \<le> 2 ^ 63 \<Longrightarrow> e \<le> 2 ^ 63"
proof (induction d s rule: duration_loop.induct)
  case (1 d s)
  show ?case
  proof (cases "s = []")
    case False
    with "1.prems"(1) obtain w r where w: "duration_part s = Some (w, r)" "dot_or_digit (hd s)"
        "\<not> 2 ^ 63 < (d + w) mod 2 ^ 64" "duration_loop ((d + w) mod 2 ^ 64) r = Some e"
      by (auto simp: duration_loop.simps [of d s] split: if_splits option.splits prod.splits)
    from "1.IH" [OF False _ w(1) refl w(3,4)] w(2,3) show ?thesis by simp
  qed (use "1.prems" in \<open>simp add: duration_loop.simps\<close>)
qed

lemma ParseDuration_range: "ParseDuration s = Some d \<Longrightarrow> in_int64 d"
  using duration_loop_bound [of 0]
  by (fastforce simp: ParseDuration_def in_int64_def split: prod.splits option.splits if_splits)

text \<open>A whole number of nanoseconds is read back from its decimal text.\<close>

lemma leading_int_append:
  "list_all digit s \<Longrightarrow> leading_int x s = Some (y, []) \<Longrightarrow> leading_int x (s @ t) = leading_int y t"
  by (induction x s rule: leading_int.induct) (auto split: if_splits)

lemma leading_int_snoc:
  assumes "list_all digit s" and "leading_int x s = Some (y, [])" and "digit c" and "y * 10 + digit_num c \<le> 2 ^ 63"
  shows "leading_int x (s @ [c]) = Some (y * 10 + digit_num c, [])"
proof -
  have "\<not> 2 ^ 63 div 10 < y" "\<not> 2 ^ 63 < y * 10 + digit_num c" using assms(4) by linarith+
  then show ?thesis using assms(3) by (simp add: leading_int_append [OF assms(1,2)])
qed

lemma leading_int_digits: "n \<le> 2 ^ 63 \<Longrightarrow> leading_int 0 (nat_digits n) = Some (n, [])"
proof (induction n rule: nat_digits.induct)
  case (1 n)
  have d: "digit (char_of (48 + n mod 10))" "digit_num (char_of (48 + n mod 10)) = n mod 10"
    using digit_char [of "n mod 10"] digit_num_char [of "n mod 10"] by simp_all
  show ?case
  proof (cases "n < 10")
    case True
    then show ?thesis using leading_int_snoc [of "[]" 0 0, OF _ _ d(1)] d(2) 1(2)
      by (simp add: nat_digits.simps [of n])
  next
    case False
    have "leading_int 0 (nat_digits (n div 10)) = Some (n div 10, [])" using 1 False by simp
    from leading_int_snoc [OF nat_digits_digits this d(1)] d(2) 1(2) False show ?thesis
      by (simp add: nat_digits.simps [of n])
  qed
qed

definition nanos_text :: "nat \<Rightarrow> string" where "nanos_text n = nat_digits n @ ''ns''"

lemma nanos_text_hd: "digit (hd (nanos_text n))" "nanos_text n \<noteq> []"
  using nat_digits_digits [of n] by (cases "nat_digits n"; simp add: nanos_text_def)+

lemma duration_part_nanos:
  assumes "n \<le> 2 ^ 63" and "t = [] \<or> dot_or_digit (hd t)"
  shows "duration_part (nanos_text n @ t) = Some (n, t)"
proof -
  have li: "leading_int 0 (nanos_text n @ t) = Some (n, ''ns'' @ t)"
    using leading_int_append [OF nat_digits_digits leading_int_digits [OF assms(1)], of "''ns'' @ t"]
    by (simp add: nanos_text_def digit_def)
  have fr: "duration_fraction (''ns'' @ t) = (0, (1, 1), ''ns'' @ t, False)"
    by (simp add: duration_fraction_def)
  have un: "\<not> dot_or_digit CHR ''n''" "\<not> dot_or_digit CHR ''s''" by (simp_all add: dot_or_digit_def digit_def)
  then have tk: "takeWhile (\<lambda>c. \<not> dot_or_digit c) (''ns'' @ t) = ''ns''"
      "dropWhile (\<lambda>c. \<not> dot_or_digit c) (''ns'' @ t) = t"
    using assms(2) by (cases t; simp)+
  have "unit_nanos ''ns'' = Some 1" by (simp add: unit_nanos_def)
  moreover have "''ns'' @ t \<noteq> nanos_text n @ t" by (simp add: nanos_text_def)
  ultimately show ?thesis using assms(1) unfolding duration_part_def
    by (simp only: li fr tk option.case prod.case Let_def) simp
qed

lemma duration_loop_nanos:
  assumes "n \<le> 2 ^ 63" and "t = [] \<or> dot_or_digit (hd t)"
  shows "duration_loop d (nanos_text n @ t) =
    (if 2 ^ 63 < (d + n) mod 2 ^ 64 then None else duration_loop ((d + n) mod 2 ^ 64) t)"
  using nanos_text_hd [of n] by (simp add: duration_loop.simps [of d] duration_part_nanos [OF assms] dot_or_digit_def)

lemma split_sign_nanos: "split_sign (nanos_text n @ t) = (False, nanos_text n @ t)"
  using nanos_text_hd [of n] by (cases "nanos_text n") (auto simp: split_sign_def digit_def)

lemma nanos_text_length: "3 \<le> length (nanos_text n)"
  using nat_digits_not_Nil [of n] by (cases "nat_digits n") (auto simp: nanos_text_def)

lemma ParseDuration_nanos: "n < 2 ^ 63 \<Longrightarrow> ParseDuration (nanos_text n) = Some (int n)"
  using duration_loop_nanos [of n "[]" 0] split_sign_nanos [of n "[]"] nanos_text_length [of n]
  by (auto simp: ParseDuration_def duration_loop.simps [of n])

text \<open>Two parts of \<open>2 ^ 63\<close> nanoseconds wrap the sum around to zero, which is accepted.\<close>

lemma ParseDuration_wraps: "ParseDuration (nanos_text (2 ^ 63) @ nanos_text (2 ^ 63)) = Some 0"
proof -
  let ?n = "nanos_text (2 ^ 63)"
  have "duration_loop 0 (?n @ ?n) = duration_loop (2 ^ 63) (?n @ [])"
    using duration_loop_nanos [of "2 ^ 63" ?n 0] nanos_text_hd by (simp add: dot_or_digit_def)
  also have "\<dots> = Some 0"
    using duration_loop_nanos [of "2 ^ 63" "[]" "2 ^ 63"] by (simp add: duration_loop.simps [of 0])
  finally show ?thesis
    using nanos_text_length [of "2 ^ 63"] by (auto simp: ParseDuration_def split_sign_nanos)
qed

lemmas duration_eval =
  ParseDuration_def split_sign_def duration_loop.simps duration_part_def duration_fraction_def
  unit_nanos_def micro_sign_def greek_mu_def dot_or_digit_def digit_def digit_num_def
  float_mult_def float_div_def round64_def scaled_def round_half_even_def bits.simps

lemma ParseDuration_samples:
  "ParseDuration ''1h15m30.918273645s'' = Some 4530918273645"
  "ParseDuration ''-.5m'' = Some (- 30000000000)" "ParseDuration ''8'' = None"
  by (simp_all add: duration_eval Let_def)

end
