(* ===== verification/Serve_Config.thy ===== *)
theory Serve_Config
  imports Go_Numbers
begin

text \<open>
  \<open>internal/serve/config.go\<close>: the flags of \<open>cobe-lint serve\<close>.  The loop is the one of Go's
  \<open>flag\<close> package for a set without boolean flags; integers and durations are those of
  \<open>Go_Numbers\<close>.
\<close>

definition Protocol :: int where "Protocol = 1"
definition DefaultSocket :: string where "DefaultSocket = ''/tmp/cobe-lint.sock''"
definition DefaultWorkers :: int where "DefaultWorkers = 4"
definition DefaultDeadline :: int where "DefaultDeadline = 8 * 1000000000"
definition DefaultCacheDir :: string where "DefaultCacheDir = ''/workspace/lint-cache''"
definition DefaultCacheMaxBytes :: int where "DefaultCacheMaxBytes = 192 * 1048576"
definition DefaultWorkDir :: string where "DefaultWorkDir = ''/tmp''"

definition MaxCodeBytes :: nat where "MaxCodeBytes = 1048576"
definition MaxFindings :: int where "MaxFindings = 1000"
definition maxLintBody :: nat where "maxLintBody = 4 * 1048576"
definition maxMessageBytes :: nat where "maxMessageBytes = 4096"
definition maxResponseBytes :: nat where "maxResponseBytes = 8 * 1048576"
definition maxWorkers :: int where "maxWorkers = 64"
definition maxQueue :: int where "maxQueue = 256"
definition maxAssetEntries :: nat where "maxAssetEntries = 10000"
definition maxAssetName :: nat where "maxAssetName = 4096"
definition minTokenBytes :: nat where "minTokenBytes = 32"

record config =
  c_socket :: string
  c_listen :: string
  c_token_file :: string
  c_workers :: int
  c_queue :: int
  c_deadline :: int
  c_cache_dir :: string
  c_cache_max :: int
  c_work_dir :: string

datatype usage_error =
    BadFlagSyntax string
  | FlagUndefined string
  | FlagHelp
  | FlagNeedsArgument string
  | FlagInvalidValue string string
  | UnexpectedArgument string
  | SocketEmpty
  | ListenNeedsToken
  | TokenNeedsListen
  | WorkersRange int
  | QueueRange int
  | DeadlineNotPositive
  | DirEmpty
  | CacheMaxNotPositive

definition flag_defaults :: config where
  "flag_defaults =
     \<lparr>c_socket = DefaultSocket, c_listen = [], c_token_file = [], c_workers = DefaultWorkers,
      c_queue = -1, c_deadline = DefaultDeadline, c_cache_dir = DefaultCacheDir,
      c_cache_max = DefaultCacheMaxBytes, c_work_dir = DefaultWorkDir\<rparr>"

definition flag_names :: "string list" where
  "flag_names = [''socket'', ''listen'', ''token-file'', ''workers'', ''queue'', ''deadline'',
     ''cache-dir'', ''cache-max-bytes'', ''work-dir'']"

text \<open>Setting one flag; \<open>None\<close> is an invalid value.\<close>

definition set_flag :: "string \<Rightarrow> string \<Rightarrow> config \<Rightarrow> config option" where
  "set_flag name v c =
     (if name = ''socket'' then Some (c\<lparr>c_socket := v\<rparr>)
      else if name = ''listen'' then Some (c\<lparr>c_listen := v\<rparr>)
      else if name = ''token-file'' then Some (c\<lparr>c_token_file := v\<rparr>)
      else if name = ''workers'' then map_option (\<lambda>n. c\<lparr>c_workers := n\<rparr>) (ParseInt v)
      else if name = ''queue'' then map_option (\<lambda>n. c\<lparr>c_queue := n\<rparr>) (ParseInt v)
      else if name = ''deadline'' then map_option (\<lambda>n. c\<lparr>c_deadline := n\<rparr>) (ParseDuration v)
      else if name = ''cache-dir'' then Some (c\<lparr>c_cache_dir := v\<rparr>)
      else if name = ''cache-max-bytes'' then map_option (\<lambda>n. c\<lparr>c_cache_max := n\<rparr>) (ParseInt v)
      else Some (c\<lparr>c_work_dir := v\<rparr>))"

text \<open>The name and the inline value of a flag argument (the sign of equality from index 1 on).\<close>

definition flag_split :: "string \<Rightarrow> string \<times> string option" where
  "flag_split name =
     (let n = takeWhile (\<lambda>c. c \<noteq> CHR ''='') (tl name)
      in if CHR ''='' \<in> set (tl name)
         then (hd name # n, Some (drop (length n + 2) name))
         else (name, None))"

text \<open>
  The loop of \<open>flag.FlagSet.Parse\<close> for a set with the flags \<open>names\<close>, none of them boolean: the
  arguments left and the flags' values.
\<close>

function flag_loop ::
  "string list \<Rightarrow> (string \<Rightarrow> string \<Rightarrow> 'c \<Rightarrow> 'c option) \<Rightarrow> string list \<Rightarrow> 'c \<Rightarrow>
     usage_error + (string list \<times> 'c)" where
  "flag_loop names set_value [] c = Inr ([], c)"
| "flag_loop names set_value (s # args) c =
     (if length s < 2 \<or> hd s \<noteq> CHR ''-'' then Inr (s # args, c)
      else if s = ''--'' then Inr (args, c)
      else
        (let name = (if s ! 1 = CHR ''-'' then drop 2 s else drop 1 s)
         in if name = [] \<or> hd name = CHR ''-'' \<or> hd name = CHR ''='' then Inl (BadFlagSyntax s)
            else (case flag_split name of (n, v) \<Rightarrow>
              if n \<notin> set names
              then Inl (if n = ''help'' \<or> n = ''h'' then FlagHelp else FlagUndefined n)
              else (case v of
                  Some value \<Rightarrow>
                    (case set_value n value c of
                       None \<Rightarrow> Inl (FlagInvalidValue n value)
                     | Some c' \<Rightarrow> flag_loop names set_value args c')
                | None \<Rightarrow>
                    (case args of
                       [] \<Rightarrow> Inl (FlagNeedsArgument n)
                     | value # args' \<Rightarrow>
                         (case set_value n value c of
                            None \<Rightarrow> Inl (FlagInvalidValue n value)
                          | Some c' \<Rightarrow> flag_loop names set_value args' c'))))))"
  by pat_completeness auto
termination
  by (relation "measure (\<lambda>(names, set_value, args, c). length args)") auto

definition parse_flags ::
  "string list \<Rightarrow> config \<Rightarrow> usage_error + (string list \<times> config)" where
  "parse_flags args c = flag_loop flag_names set_flag args c"

definition validate :: "config \<Rightarrow> usage_error option" where
  "validate c =
     (if c_socket c = [] then Some SocketEmpty
      else if c_listen c \<noteq> [] \<and> c_token_file c = [] then Some ListenNeedsToken
      else if c_listen c = [] \<and> c_token_file c \<noteq> [] then Some TokenNeedsListen
      else if c_workers c < 1 \<or> c_workers c > maxWorkers then Some (WorkersRange (c_workers c))
      else if c_queue c < 0 \<or> c_queue c > maxQueue then Some (QueueRange (c_queue c))
      else if c_deadline c \<le> 0 then Some DeadlineNotPositive
      else if c_cache_dir c = [] \<or> c_work_dir c = [] then Some DirEmpty
      else if c_cache_max c \<le> 0 then Some CacheMaxNotPositive
      else None)"

definition ParseFlags :: "string list \<Rightarrow> usage_error + config" where
  "ParseFlags args =
     (case parse_flags args flag_defaults of
        Inl e \<Rightarrow> Inl e
      | Inr (rest, c) \<Rightarrow>
          if rest \<noteq> [] then Inl (UnexpectedArgument (hd rest))
          else
            (let c' = (if c_queue c = -1 then c\<lparr>c_queue := c_workers c\<rparr> else c)
             in case validate c' of Some e \<Rightarrow> Inl e | None \<Rightarrow> Inr c'))"

section \<open>What a parsed configuration satisfies\<close>

definition config_ok :: "config \<Rightarrow> bool" where
  "config_ok c \<longleftrightarrow>
     c_socket c \<noteq> [] \<and> (c_listen c = [] \<longleftrightarrow> c_token_file c = []) \<and>
     1 \<le> c_workers c \<and> c_workers c \<le> 64 \<and> 0 \<le> c_queue c \<and> c_queue c \<le> 256 \<and>
     0 < c_deadline c \<and> c_cache_dir c \<noteq> [] \<and> c_work_dir c \<noteq> [] \<and> 0 < c_cache_max c"

lemma validate_iff: "validate c = None \<longleftrightarrow> config_ok c"
  by (auto simp: validate_def config_ok_def maxWorkers_def maxQueue_def)

lemma ParseFlags_ok: "ParseFlags args = Inr c \<Longrightarrow> config_ok c"
  by (auto simp: ParseFlags_def Let_def validate_iff [symmetric]
      split: sum.splits prod.splits if_splits option.splits)

text \<open>Without flags the server runs four workers with a queue of four.\<close>

lemma ParseFlags_defaults:
  "ParseFlags [] = Inr (flag_defaults\<lparr>c_queue := 4\<rparr>)"
  by (simp add: ParseFlags_def parse_flags_def flag_defaults_def validate_def DefaultSocket_def
      DefaultWorkers_def DefaultDeadline_def DefaultCacheDir_def DefaultCacheMaxBytes_def
      DefaultWorkDir_def maxWorkers_def maxQueue_def)

section \<open>Every configuration has flags\<close>

definition config_range :: "config \<Rightarrow> bool" where
  "config_range c \<longleftrightarrow> in_int64 (c_deadline c) \<and> in_int64 (c_cache_max c)"

text \<open>What the flags give fits the fields of \<open>Config\<close>.\<close>

lemma set_flag_range: "set_flag n v c = Some c' \<Longrightarrow> config_range c \<Longrightarrow> config_range c'"
  by (auto simp: set_flag_def config_range_def ParseInt_range ParseDuration_range split: if_splits)

lemma flag_loop_step:
  assumes "flag_loop names f (s # args) c = Inr r"
  shows "snd r = c \<or>
    (\<exists>n v args' c'. f n v c = Some c' \<and> length args' \<le> length args \<and> flag_loop names f args' c' = Inr r)"
proof (cases "snd r = c")
  case False
  define name where "name = (if s ! 1 = CHR ''-'' then drop 2 s else drop 1 s)"
  obtain n v where nv: "flag_split name = (n, v)" by fastforce
  have "(case v of
        Some value \<Rightarrow>
          (case f n value c of None \<Rightarrow> Inl (FlagInvalidValue n value) | Some c' \<Rightarrow> flag_loop names f args c')
      | None \<Rightarrow>
          (case args of
             [] \<Rightarrow> Inl (FlagNeedsArgument n)
           | value # args' \<Rightarrow>
               (case f n value c of None \<Rightarrow> Inl (FlagInvalidValue n value)
                | Some c' \<Rightarrow> flag_loop names f args' c'))) = Inr r"
    using assms False unfolding flag_loop.simps(2) Let_def name_def [symmetric] nv prod.case
    by (auto split: if_split_asm)
  then show ?thesis by (auto split: option.splits list.splits)
qed simp

lemma flag_loop_inv:
  assumes "flag_loop names f args c = Inr r" and "P c"
    and "\<And>n v c c'. f n v c = Some c' \<Longrightarrow> P c \<Longrightarrow> P c'"
  shows "P (snd r)"
  using assms(1,2)
proof (induction args arbitrary: c rule: length_induct)
  case (1 args)
  show ?case
  proof (cases args)
    case (Cons s as)
    from flag_loop_step [OF 1(2) [unfolded Cons]] show ?thesis
    proof (elim disjE exE conjE)
      fix n v args' c'
      assume st: "f n v c = Some c'" "length args' \<le> length as" "flag_loop names f args' c' = Inr r"
      then have "length args' < length args" using Cons by simp
      with 1(1) st(3) assms(3) [OF st(1) 1(3)] show ?thesis by blast
    qed (use 1(3) in simp)
  qed (use 1(2,3) in auto)
qed

lemma ParseFlags_range: "ParseFlags args = Inr c \<Longrightarrow> config_range c"
proof -
  assume "ParseFlags args = Inr c"
  then obtain rest c' where p: "parse_flags args flag_defaults = Inr (rest, c')"
      and c: "c = (if c_queue c' = -1 then c'\<lparr>c_queue := c_workers c'\<rparr> else c')"
    by (auto simp: ParseFlags_def Let_def split: sum.splits prod.splits if_splits option.splits)
  have "config_range flag_defaults"
    by (simp add: config_range_def flag_defaults_def in_int64_def DefaultDeadline_def DefaultCacheMaxBytes_def)
  with flag_loop_inv [OF p [unfolded parse_flags_def], of config_range] set_flag_range
  have "config_range c'" by simp
  then show ?thesis using c by (auto simp: config_range_def)
qed

text \<open>A flag with one or two dashes, its value in the same argument or the next.\<close>

definition flag_args :: "bool \<times> bool \<Rightarrow> string \<times> string \<Rightarrow> string list" where
  "flag_args form nv =
     (let name = (if fst form then ''--'' else ''-'') @ fst nv
      in if snd form then [name @ ''='' @ snd nv] else [name, snd nv])"

definition config_flags :: "config \<Rightarrow> (string \<times> string) list" where
  "config_flags c =
     [(''socket'', c_socket c), (''listen'', c_listen c), (''token-file'', c_token_file c),
      (''workers'', int_text (c_workers c)), (''queue'', int_text (c_queue c)),
      (''deadline'', nanos_text (nat (c_deadline c))), (''cache-dir'', c_cache_dir c),
      (''cache-max-bytes'', int_text (c_cache_max c)), (''work-dir'', c_work_dir c)]"

definition flag_name :: "string \<Rightarrow> bool" where
  "flag_name n \<longleftrightarrow> n \<noteq> [] \<and> hd n \<noteq> CHR ''-'' \<and> CHR ''='' \<notin> set n"

lemma flag_split_plain: "flag_name n \<Longrightarrow> flag_split n = (n, None)"
  by (cases n) (auto simp: flag_name_def flag_split_def)

lemma takeWhile_until: "b \<notin> set as \<Longrightarrow> takeWhile (\<lambda>c. c \<noteq> b) (as @ b # v) = as"
  by (induction as) auto

lemma flag_split_value: "flag_name n \<Longrightarrow> flag_split (n @ CHR ''='' # v) = (n, Some v)"
proof (cases n)
  case (Cons a as)
  assume "flag_name n"
  with Cons have "takeWhile (\<lambda>c. c \<noteq> CHR ''='') (as @ CHR ''='' # v) = as"
    by (simp add: flag_name_def takeWhile_until)
  with Cons show ?thesis by (simp add: flag_split_def)
qed (simp add: flag_name_def)

lemma flag_loop_args:
  assumes "flag_name n" and "n \<in> set names" and "f n v c = Some c'"
  shows "flag_loop names f (flag_args form (n, v) @ args) c = flag_loop names f args c'"
proof -
  obtain a as where n: "n = a # as" "a \<noteq> CHR ''-''" "a \<noteq> CHR ''=''"
    using assms(1) by (cases n) (auto simp: flag_name_def)
  have "CHR ''-'' # CHR ''-'' # n \<noteq> ''--''" using n by simp
  then show ?thesis
    using assms n flag_split_plain [OF assms(1)] flag_split_value [OF assms(1), of v]
    by (cases form) (auto simp: flag_args_def Let_def)
qed

lemma flag_loop_all:
  assumes "\<forall>n \<in> set (map fst nvs). flag_name n \<and> n \<in> set names"
    and "fold (\<lambda>(n, v) r. Option.bind r (f n v)) nvs (Some c) = Some c'"
  shows "flag_loop names f (concat (map (\<lambda>nv. flag_args (form (fst nv)) nv) nvs)) c = Inr ([], c')"
  using assms
proof (induction nvs arbitrary: c)
  case (Cons nv nvs)
  obtain n v where nv: "nv = (n, v)" by (cases nv)
  have none: "fold (\<lambda>(n, v) r. Option.bind r (f n v)) nvs None = None" for nvs
    by (induction nvs) auto
  from Cons.prems(2) nv none obtain d where d: "f n v c = Some d" by (cases "f n v c") auto
  with Cons.prems nv have "fold (\<lambda>(n, v) r. Option.bind r (f n v)) nvs (Some d) = Some c'" by simp
  with Cons.IH Cons.prems(1) have
    "flag_loop names f (concat (map (\<lambda>nv. flag_args (form (fst nv)) nv) nvs)) d = Inr ([], c')" by simp
  with flag_loop_args [of n names f v c d "form n"] d Cons.prems(1) nv show ?case by simp
qed simp

text \<open>Every valid configuration is the one its own flags parse to, however they are spelled.\<close>

lemma ParseFlags_config:
  assumes "config_ok c" and "config_range c"
  shows "ParseFlags (concat (map (\<lambda>nv. flag_args (form (fst nv)) nv) (config_flags c))) = Inr c"
proof -
  have ints: "in_int64 (c_workers c)" "in_int64 (c_queue c)" "in_int64 (c_cache_max c)"
      "nat (c_deadline c) < 2 ^ 63" "0 \<le> c_deadline c" "c_queue c \<noteq> -1"
    using assms by (simp_all add: config_ok_def config_range_def in_int64_def nat_less_iff)
  have "ParseDuration (nanos_text (nat (c_deadline c))) = Some (c_deadline c)"
    using ParseDuration_nanos [OF ints(4)] ints(5) by simp
  then have "fold (\<lambda>(n, v) r. Option.bind r (set_flag n v)) (config_flags c) (Some flag_defaults) = Some c"
    by (simp add: config_flags_def set_flag_def ParseInt_text ints)
  moreover have "\<forall>n \<in> set (map fst (config_flags c)). flag_name n \<and> n \<in> set flag_names"
    by (simp add: config_flags_def flag_name_def flag_names_def)
  ultimately have "parse_flags (concat (map (\<lambda>nv. flag_args (form (fst nv)) nv) (config_flags c))) flag_defaults
      = Inr ([], c)"
    unfolding parse_flags_def by (rule flag_loop_all [rotated])
  then show ?thesis using assms(1) ints(6) validate_iff [of c] by (simp add: ParseFlags_def)
qed

end
