(* ===== verification/Asset_Names.thy ===== *)
theory Asset_Names
  imports Go_Path Serve_Config
begin

text \<open>
  \<open>internal/serve/cache.go\<close>: which entry names an upload may use (\<open>checkAssetName\<close>,
  \<open>hasControl\<close>) and the loop over a name's parent directories.  Go ranges over runes in
  \<open>hasControl\<close>; a rune below \<open>0x80\<close> is exactly a byte below \<open>0x80\<close>, so the model ranges over
  bytes.
\<close>

section \<open>Names\<close>

definition hasControl :: "string \<Rightarrow> bool" where
  "hasControl s \<longleftrightarrow> list_ex (\<lambda>c. (of_char c :: nat) < 0x20 \<or> (of_char c :: nat) = 0x7f) s"

datatype name_error =
    EmptyName
  | LongName
  | AbsoluteName
  | ControlChar
  | NotClean
  | DotDotSegment

definition checkAssetName :: "string \<Rightarrow> name_error option" where
  "checkAssetName name =
     (if name = [] \<or> name = ''.'' then Some EmptyName
      else if length name > maxAssetName then Some LongName
      else if has_prefix name ''/'' then Some AbsoluteName
      else if hasControl name then Some ControlChar
      else if clean name \<noteq> name then Some NotClean
      else if ''..'' \<in> set (split_on CHR ''/'' name) then Some DotDotSegment
      else None)"

text \<open>What the checks add up to: plain segments, bounded, no control characters.\<close>

definition asset_name :: "string \<Rightarrow> bool" where
  "asset_name name \<longleftrightarrow> plain_name name \<and> length name \<le> maxAssetName \<and> \<not> hasControl name"

lemma checkAssetName_iff: "checkAssetName name = None \<longleftrightarrow> asset_name name"
  by (auto simp: checkAssetName_def asset_name_def plain_name_iff)

section \<open>Parent directories\<close>

text \<open>
  The loop \<open>for p := path.Dir(name); p != "."; p = path.Dir(p)\<close>.  It does not end on an
  absolute name (\<open>path.Dir("/")\<close> is \<open>"/"\<close>), so it is a partial function: \<open>None\<close> is
  divergence.  \<open>Inl p\<close> reports that \<open>p\<close> is a file.
\<close>

partial_function (option) parents_loop ::
  "string set \<Rightarrow> string \<Rightarrow> (string \<rightharpoonup> bool) \<Rightarrow> (string + (string \<rightharpoonup> bool)) option" where
  "parents_loop files p dirs =
     (if p = ''.'' then Some (Inr dirs)
      else if p \<in> files then Some (Inl p)
      else parents_loop files (path_dir p) (if dirs p = None then dirs(p \<mapsto> False) else dirs))"

declare parents_loop.simps [code]

definition check_parents ::
  "string set \<Rightarrow> string \<Rightarrow> (string \<rightharpoonup> bool) \<Rightarrow> (string + (string \<rightharpoonup> bool)) option" where
  "check_parents files name dirs = parents_loop files (path_dir name) dirs"

text \<open>The proper ancestors of a name, from its segments.\<close>

definition seg_join :: "string list \<Rightarrow> string" where
  "seg_join ss = join_with CHR ''/'' ss"

definition ancestors :: "string \<Rightarrow> string set" where
  "ancestors name =
     (let ss = split_on CHR ''/'' name in (\<lambda>k. seg_join (take k ss)) ` {1..<length ss})"

lemma ancestors_join:
  assumes "list_all plain_seg (ss @ [s])"
  shows "ancestors (seg_join (ss @ [s])) =
    (if ss = [] then {} else insert (seg_join ss) (ancestors (seg_join ss)))"
proof -
  have sp: "split_on CHR ''/'' (seg_join (ss @ [s])) = ss @ [s]"
    using assms by (simp add: seg_join_def plain_join)
  have sp': "ss \<noteq> [] \<Longrightarrow> split_on CHR ''/'' (seg_join ss) = ss"
    using assms by (simp add: seg_join_def plain_join)
  have "{1..<length ss + 1} = insert (length ss) {1..<length ss}" if "ss \<noteq> []"
    using that by (cases ss) auto
  then show ?thesis
    by (auto simp: ancestors_def Let_def sp sp' image_iff)
qed

lemma dot_not_plain: "list_all plain_seg ss \<Longrightarrow> ss \<noteq> [] \<Longrightarrow> seg_join ss \<noteq> ''.''"
  using plain_name_join [of ss] plain_name_iff unfolding seg_join_def by blast

definition with_parents :: "string set \<Rightarrow> (string \<rightharpoonup> bool) \<Rightarrow> string \<rightharpoonup> bool" where
  "with_parents ps dirs = (\<lambda>p. if p \<in> ps \<and> dirs p = None then Some False else dirs p)"

lemma with_parents_empty [simp]: "with_parents {} dirs = dirs"
  by (simp add: with_parents_def)

lemma with_parents_insert:
  "with_parents ps (if dirs p = None then dirs(p \<mapsto> False) else dirs) =
     with_parents (insert p ps) dirs"
  by (auto simp: with_parents_def fun_eq_iff)

text \<open>
  The loop returns for every plain name; it fails exactly when an ancestor is a file and
  otherwise records every ancestor.
\<close>

lemma parents_loop_plain:
  assumes "list_all plain_seg ss" and "ss \<noteq> []"
  shows "(insert (seg_join ss) (ancestors (seg_join ss)) \<inter> files = {} \<longrightarrow>
      parents_loop files (seg_join ss) dirs =
        Some (Inr (with_parents (insert (seg_join ss) (ancestors (seg_join ss))) dirs))) \<and>
    (insert (seg_join ss) (ancestors (seg_join ss)) \<inter> files \<noteq> {} \<longrightarrow>
      (\<exists>p \<in> files. parents_loop files (seg_join ss) dirs = Some (Inl p)))"
  using assms
proof (induction ss arbitrary: dirs rule: rev_induct)
  case (snoc s ss)
  note anc = ancestors_join [OF snoc.prems(1)]
  have dot: "seg_join (ss @ [s]) \<noteq> ''.''" using snoc.prems dot_not_plain by blast
  have dir: "path_dir (seg_join (ss @ [s])) = (if ss = [] then ''.'' else seg_join ss)"
    using path_dir_join [OF snoc.prems(1)] by (simp add: seg_join_def)
  note step = parents_loop.simps [of files "seg_join (ss @ [s])" dirs]
  show ?case
  proof (cases "seg_join (ss @ [s]) \<in> files")
    case True
    with step dot show ?thesis by auto
  next
    case F: False
    let ?d = "if dirs (seg_join (ss @ [s])) = None then dirs(seg_join (ss @ [s]) \<mapsto> False) else dirs"
    from step dot F have run: "parents_loop files (seg_join (ss @ [s])) dirs =
        parents_loop files (path_dir (seg_join (ss @ [s]))) ?d" by simp
    show ?thesis
    proof (cases "ss = []")
      case True
      have "parents_loop files ''.'' ?d = Some (Inr ?d)" by (simp add: parents_loop.simps)
      moreover have "?d = with_parents {seg_join (ss @ [s])} dirs"
        using with_parents_insert [of "{}" dirs] by simp
      moreover have "path_dir (seg_join (ss @ [s])) = ''.''" "ancestors (seg_join (ss @ [s])) = {}"
        using True dir anc by simp_all
      ultimately show ?thesis
        using run F by simp
    next
      case False
      then have "list_all plain_seg ss" using snoc.prems by simp
      note ih = snoc.IH [OF this False, of ?d]
      show ?thesis
        using run ih F False
        by (simp only: dir anc with_parents_insert if_False insert_commute) auto
    qed
  qed
qed simp

lemma check_parents_plain:
  assumes "plain_name name"
  shows "ancestors name \<inter> files = {} \<Longrightarrow>
      check_parents files name dirs = Some (Inr (with_parents (ancestors name) dirs))"
    and "ancestors name \<inter> files \<noteq> {} \<Longrightarrow>
      \<exists>p \<in> files. check_parents files name dirs = Some (Inl p)"
proof -
  let ?segs = "split_on CHR ''/'' name"
  have pl: "list_all plain_seg ?segs" using assms by (simp add: plain_name_def)
  have ne: "?segs \<noteq> []" by simp
  define ss s where "ss = butlast ?segs" and "s = last ?segs"
  have segs: "ss @ [s] = ?segs" using ne by (simp add: ss_def s_def)
  have name: "name = seg_join (ss @ [s])" by (simp add: segs seg_join_def join_split)
  from pl segs have pl': "list_all plain_seg (ss @ [s])" by simp
  have dir: "path_dir name = (if ss = [] then ''.'' else seg_join ss)"
    using path_dir_join [OF pl'] by (simp add: name seg_join_def)
  note anc = ancestors_join [OF pl', folded name]
  have pl'': "list_all plain_seg ss" using pl' by simp
  show "check_parents files name dirs = Some (Inr (with_parents (ancestors name) dirs))"
    if "ancestors name \<inter> files = {}"
  proof (cases "ss = []")
    case True
    then show ?thesis by (simp add: check_parents_def dir anc parents_loop.simps)
  next
    case False
    with that parents_loop_plain [OF pl'' False, of files dirs] show ?thesis
      by (simp only: check_parents_def dir anc if_False)
  qed
  show "\<exists>p \<in> files. check_parents files name dirs = Some (Inl p)"
    if "ancestors name \<inter> files \<noteq> {}"
  proof (cases "ss = []")
    case True
    with that show ?thesis by (simp add: anc)
  next
    case False
    with that parents_loop_plain [OF pl'' False, of files dirs] show ?thesis
      by (simp only: check_parents_def dir anc if_False) auto
  qed
qed

end
