(* ===== verification/Lint_Request.thy ===== *)
theory Lint_Request
  imports Asset_Names Findings Json_Parse
begin

text \<open>
  \<open>internal/serve/lint.go\<close>: the body of \<open>POST /v1/lint\<close> (\<open>decodeLint\<close>, \<open>checkFilename\<close>) and
  what is done to a report before it is sent (\<open>capReport\<close>, \<open>truncateUTF8\<close>).  Of an
  error response the status and the code are modelled, not the message text.
\<close>

section \<open>Patterns\<close>

definition key_char :: "char \<Rightarrow> bool" where
  "key_char c \<longleftrightarrow> alnum c \<or> c \<in> {CHR ''.'', CHR ''_'', CHR ''-''}"

text \<open>\<^verbatim>\<open>^[A-Za-z0-9][A-Za-z0-9._-]{0,127}$\<close> and \<^verbatim>\<open>^[0-9a-f]{64}$\<close>\<close>

definition cacheKeyRE :: re where
  "cacheKeyRE = Seq (one alnum) (Rep key_char 0 (Some 127))"

definition fingerprintRE :: re where
  "fingerprintRE = Rep hex_digit 64 (Some 64)"

lemma cacheKeyRE_iff:
  "re_matches cacheKeyRE s \<longleftrightarrow>
     (\<exists>c cs. s = c # cs \<and> alnum c \<and> list_all key_char cs \<and> length cs \<le> 127)"
  (is "?L \<longleftrightarrow> ?R")
proof
  assume ?L
  then obtain u v where "s = u @ v" "re_lang (one alnum) u" "list_all key_char v" "length v \<le> 127"
    by (auto simp: re_matches_iff cacheKeyRE_def)
  then show ?R using re_lang_one [of alnum u] by auto
next
  assume ?R
  then obtain c cs where "s = [c] @ cs" "alnum c" "list_all key_char cs" "length cs \<le> 127" by auto
  moreover have "re_lang (one alnum) [c]" using re_lang_one \<open>alnum c\<close> by blast
  moreover have "re_lang (Rep key_char 0 (Some 127)) cs"
    using \<open>list_all key_char cs\<close> \<open>length cs \<le> 127\<close> by simp
  ultimately have "re_lang (Seq (one alnum) (Rep key_char 0 (Some 127))) s"
    unfolding re_lang.simps(5) by blast
  then show ?L by (simp only: re_matches_iff cacheKeyRE_def)
qed

lemma fingerprintRE_iff: "re_matches fingerprintRE s \<longleftrightarrow> length s = 64 \<and> list_all hex_digit s"
  by (auto simp: re_matches_iff fingerprintRE_def)

section \<open>Filenames\<close>

datatype filename_error =
    FnEmpty | FnLong | FnControl | FnBackslash | FnStart | FnNotClean | FnDotDot
  | FnReserved string

definition checkFilename :: "string \<Rightarrow> filename_error option" where
  "checkFilename name =
     (if name = [] then Some FnEmpty
      else if length name > 255 then Some FnLong
      else if hasControl name then Some FnControl
      else if CHR 0x5C \<in> set name then Some FnBackslash
      else if has_prefix name ''/'' \<or> has_prefix name ''-'' then Some FnStart
      else if name = ''.'' \<or> clean name \<noteq> name then Some FnNotClean
      else if ''..'' \<in> set (split_on CHR ''/'' name) then Some FnDotDot
      else (let first = fst (cut_at CHR ''/'' name)
            in if first = ''.zinc'' \<or> first = ''examination-assets'' then Some (FnReserved first)
               else None))"

definition filename_ok :: "string \<Rightarrow> bool" where
  "filename_ok name \<longleftrightarrow>
     plain_name name \<and> length name \<le> 255 \<and> \<not> hasControl name \<and> CHR 0x5C \<notin> set name \<and>
     \<not> has_prefix name ''-'' \<and>
     hd (split_on CHR ''/'' name) \<notin> {''.zinc'', ''examination-assets''}"

lemma checkFilename_iff: "checkFilename name = None \<longleftrightarrow> filename_ok name"
  by (auto simp: checkFilename_def filename_ok_def plain_name_iff cut_at_fst Let_def)

text \<open>An accepted filename names a file below the workspace and cannot be read as a flag.\<close>

lemma filename_inside:
  "filename_ok name \<Longrightarrow> abs_dir ws \<Longrightarrow> join_path ws name = ws @ CHR ''/'' # name"
  by (simp add: filename_ok_def join_path_inside)

section \<open>Requests\<close>

record asset_ref =
  ar_cache_key :: "string option"
  ar_fingerprint :: "string option"

record lint_request =
  lq_language :: "string option"
  lq_filename :: "string option"
  lq_code :: "string option"
  lq_assets :: "asset_ref option"
  lq_max_findings :: "int option"

definition zero_asset_ref :: asset_ref where
  "zero_asset_ref = \<lparr>ar_cache_key = None, ar_fingerprint = None\<rparr>"

definition zero_lint_request :: lint_request where
  "zero_lint_request = \<lparr>lq_language = None, lq_filename = None, lq_code = None, lq_assets = None,
     lq_max_findings = None\<rparr>"

definition dec_asset_ref :: "asset_ref decoder" where
  "dec_asset_ref = dec_struct [''cache_key'', ''fingerprint'']
     (\<lambda>n j v.
        if n = ''cache_key''
        then map_option (\<lambda>x. v\<lparr>ar_cache_key := x\<rparr>) (dec_ptr [] dec_string (ar_cache_key v) j)
        else map_option (\<lambda>x. v\<lparr>ar_fingerprint := x\<rparr>) (dec_ptr [] dec_string (ar_fingerprint v) j))"

definition dec_lint_request :: "lint_request decoder" where
  "dec_lint_request = dec_struct [''language'', ''filename'', ''code'', ''assets'', ''max_findings'']
     (\<lambda>n j v.
        if n = ''language''
        then map_option (\<lambda>x. v\<lparr>lq_language := x\<rparr>) (dec_ptr [] dec_string (lq_language v) j)
        else if n = ''filename''
        then map_option (\<lambda>x. v\<lparr>lq_filename := x\<rparr>) (dec_ptr [] dec_string (lq_filename v) j)
        else if n = ''code''
        then map_option (\<lambda>x. v\<lparr>lq_code := x\<rparr>) (dec_ptr [] dec_string (lq_code v) j)
        else if n = ''assets''
        then map_option (\<lambda>x. v\<lparr>lq_assets := x\<rparr>) (dec_ptr zero_asset_ref dec_asset_ref (lq_assets v) j)
        else map_option (\<lambda>x. v\<lparr>lq_max_findings := x\<rparr>) (dec_ptr 0 dec_int (lq_max_findings v) j))"

record lint_error =
  le_status :: int
  le_code :: string

definition lint_error :: "int \<Rightarrow> string \<Rightarrow> lint_error" where
  "lint_error status code = \<lparr>le_status = status, le_code = code\<rparr>"

definition badRequest :: lint_error where
  "badRequest = lint_error 400 ''bad_request''"

record lint_job =
  jb_linter :: linter
  jb_filename :: string
  jb_code :: string
  jb_cacheKey :: string
  jb_fingerprint :: string
  jb_maxFindings :: int

datatype body_error = BodyDeadline | BodyMaxBytes | BodyOther

definition decodeError :: "body_error \<Rightarrow> lint_error" where
  "decodeError e =
     (if e = BodyMaxBytes then lint_error 413 ''payload_too_large'' else badRequest)"

text \<open>The asset reference and the bound on findings, in the order of the code.\<close>

definition decode_assets :: "asset_ref option \<Rightarrow> lint_job \<Rightarrow> lint_error + lint_job" where
  "decode_assets assets job =
     (case assets of
        None \<Rightarrow> Inr job
      | Some a \<Rightarrow>
          (case ar_cache_key a of
             None \<Rightarrow> Inl badRequest
           | Some key \<Rightarrow>
               if \<not> re_matches cacheKeyRE key then Inl badRequest
               else (case ar_fingerprint a of
                   None \<Rightarrow> Inl badRequest
                 | Some fp \<Rightarrow>
                     if \<not> re_matches fingerprintRE fp then Inl badRequest
                     else Inr (job\<lparr>jb_cacheKey := key, jb_fingerprint := fp\<rparr>))))"

definition decode_max :: "int option \<Rightarrow> lint_job \<Rightarrow> lint_error + lint_job" where
  "decode_max m job =
     (case m of
        None \<Rightarrow> Inr job
      | Some n \<Rightarrow> if n < 1 \<or> n > MaxFindings then Inl badRequest else Inr (job\<lparr>jb_maxFindings := n\<rparr>))"

definition validate_request ::
  "(string \<rightharpoonup> linter) \<Rightarrow> lint_request \<Rightarrow> lint_error + lint_job" where
  "validate_request linters req =
     (case lq_language req of
        None \<Rightarrow> Inl badRequest
      | Some language \<Rightarrow>
      (case linters language of
        None \<Rightarrow> Inl (lint_error 422 ''unsupported_language'')
      | Some l \<Rightarrow>
      (case lq_filename req of
        None \<Rightarrow> Inl badRequest
      | Some filename \<Rightarrow>
      if checkFilename filename \<noteq> None then Inl (lint_error 422 ''filename_invalid'')
      else (case lq_code req of
        None \<Rightarrow> Inl badRequest
      | Some code \<Rightarrow>
      if length code > MaxCodeBytes then Inl (lint_error 413 ''payload_too_large'')
      else
        (case decode_assets (lq_assets req)
                \<lparr>jb_linter = l, jb_filename = filename, jb_code = code, jb_cacheKey = [],
                 jb_fingerprint = [], jb_maxFindings = MaxFindings\<rparr> of
           Inl e \<Rightarrow> Inl e
         | Inr job \<Rightarrow> decode_max (lq_max_findings req) job)))))"

definition decodeLint ::
  "(string \<rightharpoonup> linter) \<Rightarrow> string \<Rightarrow> lint_error + lint_job" where
  "decodeLint linters body =
     (case json_first body of
        None \<Rightarrow> Inl badRequest
      | Some (j, rest) \<Rightarrow>
          (case dec_lint_request zero_lint_request j of
             None \<Rightarrow> Inl badRequest
           | Some req \<Rightarrow>
               if \<not> list_all json_space rest then Inl badRequest
               else validate_request linters req))"

section \<open>What an accepted request satisfies\<close>

definition job_ok :: "(string \<rightharpoonup> linter) \<Rightarrow> lint_job \<Rightarrow> bool" where
  "job_ok linters job \<longleftrightarrow>
     jb_linter job \<in> ran linters \<and> filename_ok (jb_filename job) \<and>
     length (jb_code job) \<le> MaxCodeBytes \<and>
     (jb_fingerprint job = [] \<and> jb_cacheKey job = [] \<or>
      re_matches cacheKeyRE (jb_cacheKey job) \<and> re_matches fingerprintRE (jb_fingerprint job)) \<and>
     1 \<le> jb_maxFindings job \<and> jb_maxFindings job \<le> MaxFindings"

lemma decode_assets_Inr:
  "decode_assets a job = Inr job' \<Longrightarrow>
     \<exists>k f. job' = job\<lparr>jb_cacheKey := k, jb_fingerprint := f\<rparr> \<and>
       (k = jb_cacheKey job \<and> f = jb_fingerprint job \<or>
        re_matches cacheKeyRE k \<and> re_matches fingerprintRE f)"
proof (cases a)
  case None
  assume "decode_assets a job = Inr job'"
  with None have "job' = job\<lparr>jb_cacheKey := jb_cacheKey job, jb_fingerprint := jb_fingerprint job\<rparr>"
    by (simp add: decode_assets_def)
  then show ?thesis by blast
next
  case (Some x)
  assume "decode_assets a job = Inr job'"
  with Some show ?thesis by (auto simp: decode_assets_def split: option.splits if_splits)
qed

lemma decode_max_Inr:
  "decode_max m job = Inr job' \<Longrightarrow>
     job' = job\<lparr>jb_maxFindings := jb_maxFindings job'\<rparr> \<and>
     (jb_maxFindings job' = jb_maxFindings job \<or>
      1 \<le> jb_maxFindings job' \<and> jb_maxFindings job' \<le> MaxFindings)"
  by (auto simp: decode_max_def split: option.splits if_splits)

lemma validate_request_Inr:
  assumes "validate_request linters req = Inr job"
  shows "job_ok linters job" and "lq_filename req = Some (jb_filename job)"
    and "lq_code req = Some (jb_code job)" and "Option.bind (lq_language req) linters = Some (jb_linter job)"
proof -
  from assms obtain language l filename code job0 where
    l: "lq_language req = Some language" "linters language = Some l"
    and f: "lq_filename req = Some filename" "filename_ok filename"
    and c: "lq_code req = Some code" "length code \<le> MaxCodeBytes"
    and a: "decode_assets (lq_assets req) \<lparr>jb_linter = l, jb_filename = filename, jb_code = code,
       jb_cacheKey = [], jb_fingerprint = [], jb_maxFindings = MaxFindings\<rparr> = Inr job0"
    and m: "decode_max (lq_max_findings req) job0 = Inr job"
    by (auto simp: validate_request_def checkFilename_iff
        split: option.splits if_splits sum.splits)
  from decode_assets_Inr [OF a] obtain k fp where job0: "job0 = \<lparr>jb_linter = l, jb_filename = filename,
      jb_code = code, jb_cacheKey = k, jb_fingerprint = fp, jb_maxFindings = MaxFindings\<rparr>"
    and kf: "k = [] \<and> fp = [] \<or> re_matches cacheKeyRE k \<and> re_matches fingerprintRE fp" by auto
  from decode_max_Inr [OF m] obtain n where job: "job = job0\<lparr>jb_maxFindings := n\<rparr>"
    and n: "1 \<le> n" "n \<le> MaxFindings" by (auto simp: job0 MaxFindings_def)
  show "lq_filename req = Some (jb_filename job)" "lq_code req = Some (jb_code job)"
    "Option.bind (lq_language req) linters = Some (jb_linter job)"
    using l f c by (simp_all add: job job0)
  show "job_ok linters job"
    using l f c kf n by (auto simp: job_ok_def job job0 ran_def)
qed

text \<open>Every refusal is one of the four responses of contract section 8.4.\<close>

definition request_errors :: "lint_error list" where
  "request_errors =
     [lint_error 400 ''bad_request'', lint_error 413 ''payload_too_large'',
      lint_error 422 ''unsupported_language'', lint_error 422 ''filename_invalid'']"

lemma decodeLint_Inl: "decodeLint linters body = Inl e \<Longrightarrow> e \<in> set request_errors"
  by (auto simp: decodeLint_def validate_request_def decode_assets_def decode_max_def
      request_errors_def badRequest_def split: option.splits prod.splits if_splits sum.splits)

lemma decodeLint_Inr: "decodeLint linters body = Inr job \<Longrightarrow> job_ok linters job"
  using validate_request_Inr(1)
  by (auto simp: decodeLint_def split: option.splits prod.splits if_splits)

section \<open>Cutting messages\<close>

definition rune_start :: "char \<Rightarrow> bool" where
  "rune_start c \<longleftrightarrow> \<not> (0x80 \<le> (of_char c :: nat) \<and> (of_char c :: nat) < 0xC0)"

fun back_up :: "string \<Rightarrow> nat \<Rightarrow> nat" where
  "back_up s 0 = 0"
| "back_up s (Suc n) = (if \<not> rune_start (s ! Suc n) then back_up s n else Suc n)"

definition truncateUTF8 :: "string \<Rightarrow> nat \<Rightarrow> string" where
  "truncateUTF8 s n = (if length s \<le> n then s else take (back_up s n) s)"

definition capReport :: "int \<Rightarrow> report \<Rightarrow> report" where
  "capReport maxFindings r =
     (let fs = findings_of r;
          fs' = (if int (length fs) > maxFindings then take (nat maxFindings) fs else fs)
      in r\<lparr>r_findings := Some (map (\<lambda>f. f\<lparr>f_message := truncateUTF8 (f_message f) maxMessageBytes\<rparr>) fs')\<rparr>)"

lemma back_up_le: "back_up s n \<le> n"
  by (induction n) (auto intro: le_SucI)

lemma truncateUTF8_length: "length (truncateUTF8 s n) \<le> n"
  using back_up_le [of s n] by (simp add: truncateUTF8_def)

text \<open>
  UTF-8 text as a list of runes: a start byte and continuation bytes.  The cut keeps the
  whole runes that fit, and as many of them as possible.
\<close>

definition rune :: "string \<Rightarrow> bool" where
  "rune r \<longleftrightarrow> r \<noteq> [] \<and> rune_start (hd r) \<and> list_all (\<lambda>c. \<not> rune_start c) (tl r)"

fun runes_fitting :: "nat \<Rightarrow> string list \<Rightarrow> string list" where
  "runes_fitting n [] = []"
| "runes_fitting n (r # rs) = (if length r \<le> n then r # runes_fitting (n - length r) rs else [])"

lemma back_up_inside:
  assumes "rune r" and "n < length r"
  shows "back_up (r @ t) n = 0"
  using assms(2)
proof (induction n)
  case (Suc n)
  from assms(1) Suc.prems have "\<not> rune_start (r ! Suc n)"
    unfolding rune_def by (cases r) (auto simp: list_all_length)
  then show ?case using Suc by (simp add: nth_append)
qed simp

lemma back_up_skip:
  "t \<noteq> [] \<Longrightarrow> rune_start (hd t) \<Longrightarrow> back_up (r @ t) (length r + m) = length r + back_up t m"
proof (induction m)
  case 0
  then show ?case by (cases "length r") (auto simp: nth_append hd_conv_nth)
qed (simp add: nth_append)

lemma truncate_runes:
  "list_all rune rs \<Longrightarrow> truncateUTF8 (concat rs) n = concat (runes_fitting n rs)"
proof (induction rs arbitrary: n)
  case (Cons r rs)
  then have r: "rune r" and rs: "list_all rune rs" by auto
  show ?case
  proof (cases "length r \<le> n")
    case False
    then show ?thesis using back_up_inside [OF r, of n] by (simp add: truncateUTF8_def)
  next
    case True
    then obtain m where m: "n = length r + m" by (auto simp: le_iff_add)
    show ?thesis
    proof (cases "concat rs = []")
      case False
      then obtain a as where "rs = a # as" by (cases rs) auto
      with rs have "rune_start (hd (concat rs))" by (auto simp: rune_def)
      with Cons.IH [OF rs, of m] False True show ?thesis
        by (auto simp: m truncateUTF8_def back_up_skip)
    next
      case c: True
      then have "rs = []" using rs by (cases rs) (auto simp: rune_def)
      with True show ?thesis by (simp add: truncateUTF8_def)
    qed
  qed
qed (simp add: truncateUTF8_def)

lemma capReport_findings:
  assumes "0 \<le> m"
  shows "\<exists>fs. r_findings (capReport m r) = Some fs \<and> int (length fs) \<le> m \<and>
    list_all (\<lambda>f. length (f_message f) \<le> maxMessageBytes) fs \<and>
    map (\<lambda>f. f\<lparr>f_message := []\<rparr>) fs = take (length fs) (map (\<lambda>f. f\<lparr>f_message := []\<rparr>) (findings_of r))"
  using assms truncateUTF8_length
  by (auto simp: capReport_def Let_def list_all_iff take_map comp_def)

end
