(* ===== verification/Asset_Extract.thy ===== *)
theory Asset_Extract
  imports Asset_Names
begin

text \<open>
  \<open>internal/serve/cache.go\<close>: unpacking an upload (\<open>extractAssets\<close>, \<open>writeAssetFile\<close>,
  \<open>readError\<close>, \<open>diskError\<close>).  \<open>archive/tar\<close> yields a sequence of headers, each with the data
  its reader delivers and the error that reading ends with; the file system is a tree of
  nodes with the errors of \<open>MkdirAll\<close> and of \<open>OpenFile\<close> under \<open>O_EXCL\<close>, and \<open>fault\<close> injects
  any further I/O error per entry.  The byte budget is the callback \<open>reserve\<close>, whose
  contract is the locale \<open>upload_budget\<close>.
\<close>

section \<open>Errors\<close>

datatype tar_type = XGlobalHeader | TypeDir | TypeReg | TypeRegA | OtherType char

datatype read_err =
    RdDeadline | RdMaxBytes | RdHeader | RdUnexpectedEOF | RdInsecurePath | RdNoSpace
  | RdOther string

datatype fs_error = ENOSPC | ENOTDIR | EISDIR | EEXIST | ENOENT | EIO

datatype invalid_reason =
    TooManyEntries
  | UnsupportedType string tar_type
  | BadEntryName string name_error
  | FileAndDirectory string
  | DuplicateDirectory string
  | DuplicateFile string

datatype upload_error =
    NotTar | TooLarge | CacheFull | UploadSlow
  | InvalidAssets invalid_reason
  | DiskFailure fs_error

definition diskError :: "fs_error \<Rightarrow> upload_error" where
  "diskError e = (if e = ENOSPC then CacheFull else DiskFailure e)"

fun readError :: "read_err \<Rightarrow> upload_error" where
  "readError RdDeadline = UploadSlow"
| "readError RdMaxBytes = TooLarge"
| "readError RdHeader = NotTar"
| "readError RdUnexpectedEOF = NotTar"
| "readError RdInsecurePath = NotTar"
| "readError RdNoSpace = CacheFull"
| "readError (RdOther s) = NotTar"

section \<open>The staging tree\<close>

datatype node = DirN | FileN string

type_synonym tree = "string list \<rightharpoonup> node"

definition components :: "string \<Rightarrow> string list" where
  "components p = filter (\<lambda>s. s \<noteq> [] \<and> s \<noteq> ''.'') (split_on CHR ''/'' p)"

text \<open>\<open>os.MkdirAll\<close>: existing directories are kept, a file on the way is an error.\<close>

fun mkdir_all :: "tree \<Rightarrow> string list \<Rightarrow> string list \<Rightarrow> fs_error option \<times> tree" where
  "mkdir_all t pre [] = (None, t)"
| "mkdir_all t pre (s # ss) =
     (case t (pre @ [s]) of
        Some (FileN _) \<Rightarrow> (Some ENOTDIR, t)
      | Some DirN \<Rightarrow> mkdir_all t (pre @ [s]) ss
      | None \<Rightarrow> mkdir_all (t(pre @ [s] \<mapsto> DirN)) (pre @ [s]) ss)"

text \<open>\<open>os.OpenFile\<close> with \<open>O_CREATE|O_EXCL\<close>: the parent must be a directory and the name free.\<close>

definition is_file :: "node option \<Rightarrow> bool" where
  "is_file nd = (case nd of Some (FileN _) \<Rightarrow> True | _ \<Rightarrow> False)"

lemma is_file_iff [simp]: "is_file nd \<longleftrightarrow> (\<exists>d. nd = Some (FileN d))"
  by (simp add: is_file_def split: option.splits node.splits)

definition open_excl :: "tree \<Rightarrow> string list \<Rightarrow> fs_error option" where
  "open_excl t p =
     (if butlast p \<noteq> [] \<and> t (butlast p) = None then Some ENOENT
      else if butlast p \<noteq> [] \<and> is_file (t (butlast p)) then Some ENOTDIR
      else if t p \<noteq> None then Some EEXIST
      else None)"

record fault =
  fa_mkdir :: "fs_error option"
  fa_open :: "fs_error option"
  fa_write :: "(nat \<times> fs_error) option"    \<comment> \<open>after that many bytes\<close>
  fa_close :: "fs_error option"

definition no_fault :: fault where
  "no_fault = \<lparr>fa_mkdir = None, fa_open = None, fa_write = None, fa_close = None\<rparr>"

section \<open>Extraction\<close>

record tar_entry =
  ta_type :: tar_type
  ta_name :: string
  ta_size :: int
  ta_data :: string               \<comment> \<open>what reading the entry yields\<close>
  ta_err :: "read_err option"     \<comment> \<open>and how it ends; \<open>None\<close> is EOF\<close>

record 'b extract_env =
  xe_dir :: string
  xe_max :: int
  xe_reserve :: "int \<Rightarrow> 'b \<Rightarrow> upload_error option \<times> 'b"
  xe_fault :: "nat \<Rightarrow> fault"       \<comment> \<open>by the number of the entry\<close>

record 'b extraction =
  ex_files :: "string set"
  ex_dirs :: "string \<rightharpoonup> bool"       \<comment> \<open>true when an entry named it\<close>
  ex_total :: int
  ex_entries :: nat
  ex_tree :: tree
  ex_budget :: 'b

text \<open>
  \<open>io.LimitReader\<close> with limit \<open>room + 1\<close> (an \<open>int64\<close>): no byte is read when the limit is not
  positive, and the reader's error is seen only when the limit was not reached.
\<close>

definition limited_read :: "int \<Rightarrow> tar_entry \<Rightarrow> string \<times> read_err option" where
  "limited_read limit h =
     (let data = take (nat limit) (ta_data h)
      in (data, if length (ta_data h) < nat limit then ta_err h else None))"

definition writeAssetFile ::
  "fault \<Rightarrow> tree \<Rightarrow> string list \<Rightarrow> tar_entry \<Rightarrow> int \<Rightarrow> (upload_error + int) \<times> tree" where
  "writeAssetFile fa t p h room =
     (case (case fa_open fa of Some e \<Rightarrow> Some e | None \<Rightarrow> open_excl t p) of
        Some e \<Rightarrow> (Inl (diskError e), t)
      | None \<Rightarrow>
          (case limited_read (wrap64 (room + 1)) h of (data, rd) \<Rightarrow>
             (case (case fa_write fa of Some (k, e) \<Rightarrow> if k < length data then Some (k, e) else None
                    | None \<Rightarrow> None) of
                Some (k, e) \<Rightarrow> (Inl (diskError e), t(p \<mapsto> FileN (take k data)))
              | None \<Rightarrow>
                  (let t' = t(p \<mapsto> FileN data)
                   in case rd of
                        Some r \<Rightarrow> (Inl (readError r), t')
                      | None \<Rightarrow>
                          (case fa_close fa of
                             Some e \<Rightarrow> (Inl (diskError e), t')
                           | None \<Rightarrow> if int (length data) > room then (Inl TooLarge, t')
                                     else (Inr (int (length data)), t'))))))"

definition entry_is_dir :: "tar_entry \<Rightarrow> bool" where
  "entry_is_dir h \<longleftrightarrow> ta_type h = TypeDir"

definition entry_name :: "tar_entry \<Rightarrow> string" where
  "entry_name h =
     (let name = trim_prefix (ta_name h) ''./''
      in if entry_is_dir h then trim_suffix name ''/'' else name)"

definition make_dirs :: "fault \<Rightarrow> tree \<Rightarrow> string \<Rightarrow> fs_error option \<times> tree" where
  "make_dirs fa t path =
     (case fa_mkdir fa of Some e \<Rightarrow> (Some e, t) | None \<Rightarrow> mkdir_all t [] (components path))"

definition extract_dir ::
  "'b extract_env \<Rightarrow> string \<Rightarrow> 'b extraction \<Rightarrow> upload_error option \<times> 'b extraction" where
  "extract_dir env name x =
     (if name \<in> ex_files x \<or> ex_dirs x name = Some True
      then (Some (InvalidAssets (DuplicateDirectory name)), x)
      else
        (let x1 = x\<lparr>ex_dirs := (ex_dirs x)(name \<mapsto> True)\<rparr>
         in case make_dirs (xe_fault env (ex_entries x)) (ex_tree x) (join_path (xe_dir env) name) of
              (e, t) \<Rightarrow> (map_option diskError e, x1\<lparr>ex_tree := t\<rparr>)))"

definition extract_file ::
  "'b extract_env \<Rightarrow> tar_entry \<Rightarrow> string \<Rightarrow> 'b extraction \<Rightarrow> upload_error option \<times> 'b extraction" where
  "extract_file env h name x =
     (if ex_dirs x name \<noteq> None \<or> name \<in> ex_files x
      then (Some (InvalidAssets (DuplicateFile name)), x)
      else
        (let x1 = x\<lparr>ex_files := insert name (ex_files x)\<rparr>;
             room = xe_max env - ex_total x;
             fa = xe_fault env (ex_entries x);
             target = join_path (xe_dir env) name
         in if ta_size h > room then (Some TooLarge, x1)
            else (case xe_reserve env (ta_size h) (ex_budget x) of
                (Some e, b) \<Rightarrow> (Some e, x1\<lparr>ex_budget := b\<rparr>)
              | (None, b) \<Rightarrow>
                  (case make_dirs fa (ex_tree x) (path_dir target) of
                     (Some e, t) \<Rightarrow> (Some (diskError e), x1\<lparr>ex_budget := b, ex_tree := t\<rparr>)
                   | (None, t) \<Rightarrow>
                       (case writeAssetFile fa t (components target) h room of
                          (Inl e, t') \<Rightarrow> (Some e, x1\<lparr>ex_budget := b, ex_tree := t'\<rparr>)
                        | (Inr n, t') \<Rightarrow>
                            (None, x1\<lparr>ex_budget := b, ex_tree := t', ex_total := ex_total x + n\<rparr>))))))"

text \<open>One turn of the loop over the headers; \<open>None\<close> would be a parent loop that never ends.\<close>

definition extract_entry ::
  "'b extract_env \<Rightarrow> tar_entry \<Rightarrow> 'b extraction \<Rightarrow> (upload_error option \<times> 'b extraction) option" where
  "extract_entry env h x0 =
     (let x = x0\<lparr>ex_entries := ex_entries x0 + 1\<rparr>; name = entry_name h
      in if ex_entries x > maxAssetEntries then Some (Some (InvalidAssets TooManyEntries), x)
         else if \<not> entry_is_dir h \<and> ta_type h \<noteq> TypeReg \<and> ta_type h \<noteq> TypeRegA
         then Some (Some (InvalidAssets (UnsupportedType (ta_name h) (ta_type h))), x)
         else (case checkAssetName name of
             Some e \<Rightarrow> Some (Some (InvalidAssets (BadEntryName (ta_name h) e)), x)
           | None \<Rightarrow>
               (case check_parents (ex_files x) name (ex_dirs x) of
                  None \<Rightarrow> None
                | Some (Inl p) \<Rightarrow> Some (Some (InvalidAssets (FileAndDirectory p)), x)
                | Some (Inr dirs) \<Rightarrow>
                    (let x1 = x\<lparr>ex_dirs := dirs\<rparr>
                     in Some (if entry_is_dir h then extract_dir env name x1
                              else extract_file env h name x1)))))"

fun extract_loop ::
  "'b extract_env \<Rightarrow> tar_entry list \<Rightarrow> read_err option \<Rightarrow> 'b extraction \<Rightarrow>
     ((upload_error + int) \<times> 'b extraction) option" where
  "extract_loop env [] None x = Some (Inr (ex_total x), x)"
| "extract_loop env [] (Some e) x = Some (Inl (readError e), x)"
| "extract_loop env (h # hs) e x =
     (if ta_type h = XGlobalHeader then extract_loop env hs e x
      else (case extract_entry env h x of
          None \<Rightarrow> None
        | Some (Some err, x') \<Rightarrow> Some (Inl err, x')
        | Some (None, x') \<Rightarrow> extract_loop env hs e x'))"

definition extraction_start :: "tree \<Rightarrow> 'b \<Rightarrow> 'b extraction" where
  "extraction_start t b =
     \<lparr>ex_files = {}, ex_dirs = Map.empty, ex_total = 0, ex_entries = 0, ex_tree = t, ex_budget = b\<rparr>"

definition extractAssets ::
  "'b extract_env \<Rightarrow> tar_entry list \<Rightarrow> read_err option \<Rightarrow> tree \<Rightarrow> 'b \<Rightarrow>
     ((upload_error + int) \<times> 'b extraction) option" where
  "extractAssets env hs e t b = extract_loop env hs e (extraction_start t b)"

section \<open>Extraction ends\<close>

lemma check_parents_returns:
  assumes "checkAssetName name = None"
  shows "check_parents files name dirs \<noteq> None"
proof (cases "ancestors name \<inter> files = {}")
  case True
  with assms show ?thesis
    using check_parents_plain(1) by (simp add: checkAssetName_iff asset_name_def)
next
  case False
  then obtain p where "check_parents files name dirs = Some (Inl p)"
    using assms check_parents_plain(2) [of name files dirs]
    by (auto simp: checkAssetName_iff asset_name_def)
  then show ?thesis by simp
qed

lemma extract_entry_returns: "extract_entry env h x \<noteq> None"
  using check_parents_returns [of "entry_name h" "ex_files x" "ex_dirs x"]
  by (auto simp: extract_entry_def Let_def split: option.split sum.split)

lemma extract_loop_returns: "extract_loop env hs e x \<noteq> None"
proof (induction env hs e x rule: extract_loop.induct)
  case (3 env h hs e x)
  with extract_entry_returns [of env h x] show ?case
    by (auto split: option.split)
qed auto

end
