(* ===== verification/Asset_Staging.thy ===== *)
theory Asset_Staging
  imports Asset_Extract
begin

text \<open>
  What an accepted upload leaves in the staging directory.  \<open>archive_tree\<close> and \<open>names_ok\<close>
  describe the result of unpacking a list of entries without following the loop; the
  lemmas show that the loop's bookkeeping (\<open>files\<close>, \<open>dirs\<close>, \<open>total\<close>) mirrors the tree on
  disk, so that \<open>MkdirAll\<close> and \<open>O_EXCL\<close> never fail on their own.
\<close>

section \<open>Target paths\<close>

lemma components_rooted:
  assumes "list_all plain_seg ss"
  shows "components (CHR ''/'' # join_with CHR ''/'' ss) = ss"
proof (cases "ss = []")
  case False
  with assms have "split_on CHR ''/'' (join_with CHR ''/'' ss) = ss" by (rule plain_join [rotated])
  with assms show ?thesis
    by (auto simp: components_def list_all_iff plain_seg_def filter_id_conv)
qed (simp add: components_def)

lemma abs_dir_components:
  assumes "abs_dir d"
  shows "d = CHR ''/'' # join_with CHR ''/'' (components d)"
    and "list_all plain_seg (components d)" and "components d \<noteq> []"
  using assms components_rooted by (auto simp: abs_dir_def)

definition segs :: "string \<Rightarrow> string list" where
  "segs name = split_on CHR ''/'' name"

lemma segs_ne [simp]: "segs name \<noteq> []"
  by (simp add: segs_def)

lemma segs_plain: "plain_name name \<Longrightarrow> list_all plain_seg (segs name)"
  by (simp add: segs_def plain_name_def)

lemma seg_join_segs [simp]: "seg_join (segs name) = name"
  by (simp add: segs_def seg_join_def join_split)

lemma segs_inj: "segs a = segs b \<longleftrightarrow> a = b"
  by (metis seg_join_segs)

lemma target_path:
  assumes "abs_dir d" and "plain_name name"
  shows "join_path d name = CHR ''/'' # join_with CHR ''/'' (components d @ segs name)"
proof -
  have "join_path d name = d @ CHR ''/'' # name" using assms by (rule join_path_inside)
  then show ?thesis
    using abs_dir_components [OF assms(1)]
    by (simp add: join_with_append segs_def join_split)
qed

lemma components_target:
  assumes "abs_dir d" and "plain_name name"
  shows "components (join_path d name) = components d @ segs name"
  unfolding target_path [OF assms]
  by (rule components_rooted) (use assms abs_dir_components segs_plain in auto)

lemma clean_rooted_trailing:
  assumes "list_all plain_seg ss"
  shows "clean (CHR ''/'' # join_with CHR ''/'' ss @ ''/'') = CHR ''/'' # join_with CHR ''/'' ss"
proof -
  let ?p = "CHR ''/'' # join_with CHR ''/'' ss @ ''/''"
  have "split_on CHR ''/'' (join_with CHR ''/'' (ss @ [[]])) = ss @ [[]]"
    using assms by (intro split_join) (auto simp: list_all_iff plain_seg_def)
  then have sp: "ss \<noteq> [] \<Longrightarrow> split_on CHR ''/'' (join_with CHR ''/'' ss @ ''/'') = ss @ [[]]"
    by (simp add: join_with_append)
  have "clean_segs True ([] # ss @ [[]]) = clean_segs True ([[]] @ ss)"
    by (simp add: clean_segs_def)
  also have "\<dots> = ss"
    using clean_segs_append_plain [OF assms, of True "[[]]"] by (simp add: clean_segs_def)
  finally show ?thesis
    by (cases "ss = []") (simp_all add: clean_def Let_def sp clean_segs_def)
qed

lemma path_dir_rooted:
  assumes "list_all plain_seg (ss @ [s])" and "ss \<noteq> []"
  shows "path_dir (CHR ''/'' # join_with CHR ''/'' (ss @ [s])) = CHR ''/'' # join_with CHR ''/'' ss"
proof -
  have s: "\<forall>c \<in> set s. c \<noteq> CHR ''/''" using assms by (auto simp: plain_seg_def)
  have "dropWhile (\<lambda>c. c \<noteq> CHR ''/'') (rev s @ CHR ''/'' # t) = CHR ''/'' # t" for t
    using s by (subst dropWhile_append2) auto
  then have "rev (dropWhile (\<lambda>c. c \<noteq> CHR ''/'') (rev (CHR ''/'' # join_with CHR ''/'' (ss @ [s]))))
      = CHR ''/'' # join_with CHR ''/'' ss @ ''/''"
    using assms(2) by (simp add: join_with_append)
  then show ?thesis
    using assms(1) clean_rooted_trailing [of ss] by (simp add: path_dir_def)
qed

lemma components_parent:
  assumes "abs_dir d" and "plain_name name"
  shows "components (path_dir (join_path d name)) = components d @ butlast (segs name)"
proof -
  define ps s where "ps = components d @ butlast (segs name)" and "s = last (segs name)"
  have all: "components d @ segs name = ps @ [s]" by (simp add: ps_def s_def)
  have "list_all plain_seg (components d @ segs name)"
    using abs_dir_components [OF assms(1)] segs_plain [OF assms(2)] by simp
  then have pl: "list_all plain_seg (ps @ [s])" by (simp only: all)
  have "ps \<noteq> []" using abs_dir_components(3) [OF assms(1)] by (simp add: ps_def)
  with pl have "path_dir (join_path d name) = CHR ''/'' # join_with CHR ''/'' ps"
    unfolding target_path [OF assms] all by (rule path_dir_rooted)
  with pl show ?thesis using components_rooted [of ps] by (simp add: ps_def)
qed

lemma ancestors_segs: "plain_name name \<Longrightarrow> p \<in> ancestors name \<Longrightarrow> plain_name p \<and>
    (\<exists>k. 0 < k \<and> k < length (segs name) \<and> segs p = take k (segs name))"
proof -
  assume n: "plain_name name" and "p \<in> ancestors name"
  then obtain k where "k \<in> {1..<length (segs name)}" and p: "p = seg_join (take k (segs name))"
    unfolding ancestors_def Let_def segs_def by blast
  then have k: "0 < k" "k < length (segs name)" by auto
  have pl: "list_all plain_seg (take k (segs name))"
    using segs_plain [OF n] by (auto simp: list_all_iff dest: in_set_takeD)
  with k have "plain_name p" and "segs p = take k (segs name)"
    using plain_name_join [of "take k (segs name)"] plain_join [of "take k (segs name)"]
    by (auto simp: p seg_join_def segs_def)
  with k show ?thesis by blast
qed

lemma ancestors_take:
  "0 < k \<Longrightarrow> k < length (segs name) \<Longrightarrow> seg_join (take k (segs name)) \<in> ancestors name"
  by (auto simp: ancestors_def Let_def segs_def)

lemma not_own_ancestor: "plain_name name \<Longrightarrow> name \<notin> ancestors name"
  using ancestors_segs [of name name] by (metis length_take less_irrefl min.absorb4)

section \<open>The file system operations\<close>

lemma mkdir_all_eq:
  "(\<forall>k \<in> {1..length ss}. \<forall>d. t (pre @ take k ss) \<noteq> Some (FileN d)) \<Longrightarrow>
     mkdir_all t pre ss =
       (None, \<lambda>q. if \<exists>k \<in> {1..length ss}. q = pre @ take k ss then Some DirN else t q)"
proof (induction t pre ss rule: mkdir_all.induct)
  case (2 t pre s ss)
  have first: "t (pre @ [s]) \<noteq> Some (FileN d)" for d
    using "2.prems" [THEN bspec, of 1] by simp
  have rest: "t (pre @ s # take k ss) \<noteq> Some (FileN d)" if "k \<in> {1..length ss}" for k d
    using "2.prems" [THEN bspec, of "Suc k"] that by simp
  have ix: "(\<exists>k \<in> {1..length (s # ss)}. q = pre @ take k (s # ss)) \<longleftrightarrow>
      q = pre @ [s] \<or> (\<exists>k \<in> {1..length ss}. q = (pre @ [s]) @ take k ss)" (is "?L \<longleftrightarrow> ?R") for q
  proof
    assume ?L
    then obtain k where k: "k \<in> {1..length (s # ss)}" "q = pre @ take k (s # ss)" by blast
    then obtain j where "k = Suc j" by (cases k) auto
    with k show ?R by (cases "j = 0") (auto intro!: bexI [of _ j])
  next
    assume ?R
    then show ?L
    proof
      assume "q = pre @ [s]"
      then show ?L by (intro bexI [of _ 1]) auto
    next
      assume "\<exists>k \<in> {1..length ss}. q = (pre @ [s]) @ take k ss"
      then obtain k where "k \<in> {1..length ss}" "q = (pre @ [s]) @ take k ss" by blast
      then show ?L by (intro bexI [of _ "Suc k"]) auto
    qed
  qed
  consider "t (pre @ [s]) = None" | "t (pre @ [s]) = Some DirN"
    using first by (metis node.exhaust option.exhaust)
  then show ?case
  proof cases
    case 1
    have "mkdir_all (t(pre @ [s] \<mapsto> DirN)) (pre @ [s]) ss =
        (None, \<lambda>q. if \<exists>k \<in> {1..length ss}. q = (pre @ [s]) @ take k ss then Some DirN
          else (t(pre @ [s] \<mapsto> DirN)) q)"
      by (rule "2.IH"(1) [OF 1]) (use rest in auto)
    with 1 show ?thesis unfolding ix by (auto simp: fun_eq_iff)
  next
    case 2
    have "mkdir_all t (pre @ [s]) ss =
        (None, \<lambda>q. if \<exists>k \<in> {1..length ss}. q = (pre @ [s]) @ take k ss then Some DirN else t q)"
      by (rule "2.IH"(2) [OF 2]) (use rest in auto)
    with 2 show ?thesis unfolding ix by (auto simp: fun_eq_iff)
  qed
qed auto

lemma writeAssetFile_Inr:
  assumes "writeAssetFile fa t p h room = (Inr n, t')" and "0 \<le> room" and "room < 2 ^ 63 - 1"
  shows "open_excl t p = None" and "n = int (length (ta_data h))" and "n \<le> room"
    and "ta_err h = None" and "t' = t(p \<mapsto> FileN (ta_data h))"
proof -
  have w: "wrap64 (room + 1) = room + 1"
    using assms(2,3) by (intro wrap64_id) (simp add: in_int64_def)
  from assms(1) show o: "open_excl t p = None"
    by (auto simp: writeAssetFile_def split: option.splits)
  let ?data = "take (nat (room + 1)) (ta_data h)"
  from assms(1) o have n: "n = int (length ?data)" and t: "t' = t(p \<mapsto> FileN ?data)"
    and le: "int (length ?data) \<le> room"
    and rd: "length (ta_data h) < nat (room + 1) \<longrightarrow> ta_err h = None"
    by (auto simp: writeAssetFile_def limited_read_def w Let_def
        split: option.splits if_splits prod.splits)
  from le assms(2) have "length (ta_data h) < nat (room + 1)" by (auto simp: min_def split: if_splits)
  with n t le rd show "n = int (length (ta_data h))" "n \<le> room" "ta_err h = None"
    "t' = t(p \<mapsto> FileN (ta_data h))" by auto
qed

lemma writeAssetFile_ok:
  assumes "open_excl t p = None" and "int (length (ta_data h)) \<le> room" and "room < 2 ^ 63 - 1"
    and "ta_err h = None"
  shows "writeAssetFile no_fault t p h room =
    (Inr (int (length (ta_data h))), t(p \<mapsto> FileN (ta_data h)))"
proof -
  have w: "wrap64 (room + 1) = room + 1"
    using assms(2,3) by (intro wrap64_id) (simp add: in_int64_def)
  have "length (ta_data h) < nat (room + 1)" using assms(2) by simp
  with assms show ?thesis
    by (simp add: writeAssetFile_def no_fault_def limited_read_def w Let_def)
qed

end
