(* ===== verification/Asset_Archive.thy ===== *)
theory Asset_Archive
  imports Asset_Staging
begin

text \<open>
  The correctness of \<open>extractAssets\<close> against a specification that does not follow the
  loop: \<open>names_ok\<close> is the naming rule of contract section 9.2 on the whole list of entries,
  \<open>archive_tree\<close> the tree those entries stand for.  The loop invariant \<open>ex_inv\<close> says that
  the loop's maps, counters and the staging tree are those of the entries read so far.
\<close>

section \<open>The specification\<close>

definition supported_type :: "tar_entry \<Rightarrow> bool" where
  "supported_type h \<longleftrightarrow> ta_type h \<in> {TypeDir, TypeReg, TypeRegA}"

definition files_of :: "tar_entry list \<Rightarrow> tar_entry list" where
  "files_of hs = filter (\<lambda>h. \<not> entry_is_dir h) hs"

definition file_names :: "tar_entry list \<Rightarrow> string set" where
  "file_names hs = entry_name ` set (files_of hs)"

definition dir_names :: "tar_entry list \<Rightarrow> string set" where
  "dir_names hs = entry_name ` set (filter entry_is_dir hs)"

definition implied_dirs :: "tar_entry list \<Rightarrow> string set" where
  "implied_dirs hs = (\<Union>h \<in> set hs. ancestors (entry_name h))"

text \<open>Supported types, valid names, each named once, and no file used as a directory.\<close>

definition names_ok :: "tar_entry list \<Rightarrow> bool" where
  "names_ok hs \<longleftrightarrow>
     (\<forall>h \<in> set hs. supported_type h \<and> asset_name (entry_name h)) \<and>
     distinct (map entry_name hs) \<and> file_names hs \<inter> implied_dirs hs = {}"

definition archive_size :: "tar_entry list \<Rightarrow> int" where
  "archive_size hs = (\<Sum>h \<leftarrow> files_of hs. int (length (ta_data h)))"

text \<open>A tree with the directories \<open>Ds\<close> and the files \<open>Fs\<close> below \<open>D\<close>, and \<open>t0\<close> elsewhere.\<close>

definition tree_of ::
  "string list \<Rightarrow> tree \<Rightarrow> string list set \<Rightarrow> (string list \<rightharpoonup> string) \<Rightarrow> tree" where
  "tree_of D t0 Ds Fs = (\<lambda>q.
     if length D < length q \<and> take (length D) q = D
     then (if drop (length D) q \<in> Ds then Some DirN else map_option FileN (Fs (drop (length D) q)))
     else t0 q)"

definition archive_files :: "tar_entry list \<Rightarrow> string list \<rightharpoonup> string" where
  "archive_files hs = map_of (map (\<lambda>h. (segs (entry_name h), ta_data h)) (files_of hs))"

definition archive_tree :: "string list \<Rightarrow> tree \<Rightarrow> tar_entry list \<Rightarrow> tree" where
  "archive_tree D t0 hs = tree_of D t0 (segs ` (dir_names hs \<union> implied_dirs hs)) (archive_files hs)"

text \<open>The staging directory exists and is empty.\<close>

definition staging_ok :: "string list \<Rightarrow> tree \<Rightarrow> bool" where
  "staging_ok D t0 \<longleftrightarrow>
     (\<forall>k \<in> {1..length D}. t0 (take k D) = Some DirN) \<and> (\<forall>n. n \<noteq> [] \<longrightarrow> t0 (D @ n) = None)"

lemma spec_snoc [simp]:
  "files_of (hs @ [h]) = files_of hs @ (if entry_is_dir h then [] else [h])"
  "file_names (hs @ [h]) = file_names hs \<union> (if entry_is_dir h then {} else {entry_name h})"
  "dir_names (hs @ [h]) = dir_names hs \<union> (if entry_is_dir h then {entry_name h} else {})"
  "implied_dirs (hs @ [h]) = implied_dirs hs \<union> ancestors (entry_name h)"
  "archive_size (hs @ [h]) =
     archive_size hs + (if entry_is_dir h then 0 else int (length (ta_data h)))"
  by (auto simp: files_of_def file_names_def dir_names_def implied_dirs_def archive_size_def)

lemma spec_Nil [simp]:
  "files_of [] = []" "file_names [] = {}" "dir_names [] = {}" "implied_dirs [] = {}"
  "archive_size [] = 0" "names_ok []"
  by (auto simp: files_of_def file_names_def dir_names_def implied_dirs_def archive_size_def
      names_ok_def)

lemma entry_names: "entry_name ` set hs = file_names hs \<union> dir_names hs"
  by (auto simp: file_names_def dir_names_def files_of_def)

lemma names_ok_snoc:
  "names_ok (hs @ [h]) \<longleftrightarrow>
     names_ok hs \<and> supported_type h \<and> asset_name (entry_name h) \<and>
     entry_name h \<notin> file_names hs \<and> entry_name h \<notin> dir_names hs \<and>
     ancestors (entry_name h) \<inter> file_names hs = {} \<and>
     (\<not> entry_is_dir h \<longrightarrow> entry_name h \<notin> implied_dirs hs)"
proof -
  have "asset_name (entry_name h) \<Longrightarrow> entry_name h \<notin> ancestors (entry_name h)"
    using not_own_ancestor by (simp add: asset_name_def)
  moreover have "entry_name h \<in> entry_name ` set hs \<longleftrightarrow>
      entry_name h \<in> file_names hs \<or> entry_name h \<in> dir_names hs"
    by (simp add: entry_names)
  ultimately show ?thesis
    by (auto simp: names_ok_def)
qed

lemma names_ok_prefix: "names_ok (xs @ ys) \<Longrightarrow> names_ok xs"
  by (induction ys rule: rev_induct) (simp_all flip: append_assoc add: names_ok_snoc)

section \<open>Trees\<close>

lemma tree_of_below [simp]:
  "n \<noteq> [] \<Longrightarrow> tree_of D t0 Ds Fs (D @ n) =
     (if n \<in> Ds then Some DirN else map_option FileN (Fs n))"
  by (auto simp: tree_of_def)

lemma tree_of_empty: "staging_ok D t0 \<Longrightarrow> tree_of D t0 {} Map.empty = t0"
  unfolding tree_of_def staging_ok_def
  by (auto simp: fun_eq_iff) (metis append_take_drop_id drop_eq_Nil not_less)

lemma tree_of_base: "k \<le> length D \<Longrightarrow> tree_of D t0 Ds Fs (take k D) = t0 (take k D)"
  by (simp add: tree_of_def)

lemma mkdir_all_tree:
  assumes "staging_ok D t0" and "\<forall>k \<in> {1..length ns}. Fs (take k ns) = None"
  shows "mkdir_all (tree_of D t0 Ds Fs) [] (D @ ns) =
    (None, tree_of D t0 (Ds \<union> (\<lambda>k. take k ns) ` {1..length ns}) Fs)"
proof -
  let ?t = "tree_of D t0 Ds Fs" and ?Ns = "(\<lambda>k. take k ns) ` {1..length ns}"
  have base: "?t (take k D) = Some DirN" if "k \<in> {1..length D}" for k
    using that assms(1) by (simp add: tree_of_base staging_ok_def)
  have kind: "k \<le> length D \<and> take k (D @ ns) = take k D \<or>
      k - length D \<in> {1..length ns} \<and> take k (D @ ns) = D @ take (k - length D) ns"
    if "k \<in> {1..length (D @ ns)}" for k
    using that by auto
  have "\<forall>k \<in> {1..length (D @ ns)}. \<forall>d. ?t ([] @ take k (D @ ns)) \<noteq> Some (FileN d)"
  proof (intro ballI allI)
    fix k d assume k: "k \<in> {1..length (D @ ns)}"
    from kind [OF k] show "?t ([] @ take k (D @ ns)) \<noteq> Some (FileN d)"
    proof
      assume "k \<le> length D \<and> take k (D @ ns) = take k D"
      with k base [of k] show ?thesis by simp
    next
      assume a: "k - length D \<in> {1..length ns} \<and> take k (D @ ns) = D @ take (k - length D) ns"
      with assms(2) have "Fs (take (k - length D) ns) = None" by blast
      moreover have "take (k - length D) ns \<noteq> []" using a by auto
      ultimately show ?thesis using a by simp
    qed
  qed
  note mk = mkdir_all_eq [OF this]
  have "(if \<exists>k \<in> {1..length (D @ ns)}. q = take k (D @ ns) then Some DirN else ?t q) =
      tree_of D t0 (Ds \<union> ?Ns) Fs q" for q
  proof (cases "\<exists>k \<in> {1..length (D @ ns)}. q = take k (D @ ns)")
    case True
    then obtain k where k: "k \<in> {1..length (D @ ns)}" and q: "q = take k (D @ ns)" by blast
    from kind [OF k] have "tree_of D t0 (Ds \<union> ?Ns) Fs q = Some DirN"
    proof
      assume a: "k \<le> length D \<and> take k (D @ ns) = take k D"
      with k assms(1) have "t0 (take k D) = Some DirN" by (simp add: staging_ok_def)
      with a q show ?thesis by (simp add: tree_of_base)
    next
      assume a: "k - length D \<in> {1..length ns} \<and> take k (D @ ns) = D @ take (k - length D) ns"
      moreover have "take (k - length D) ns \<noteq> []" using a by auto
      ultimately show ?thesis using q by auto
    qed
    with True show ?thesis by simp
  next
    case False
    have "drop (length D) q \<notin> ?Ns" if "length D < length q" "take (length D) q = D"
    proof
      assume "drop (length D) q \<in> ?Ns"
      then obtain k where k: "k \<in> {1..length ns}" "drop (length D) q = take k ns" by blast
      with that(2) have "q = take (length D + k) (D @ ns)"
        by (metis append_take_drop_id take_add append_eq_conv_conj)
      moreover have "length D + k \<in> {1..length (D @ ns)}" using k(1) by simp
      ultimately show False using False by blast
    qed
    with False show ?thesis by (auto simp: tree_of_def)
  qed
  with mk show ?thesis by (simp add: fun_eq_iff)
qed

lemma tree_of_write:
  assumes "n \<noteq> []" and "n \<notin> Ds"
  shows "(tree_of D t0 Ds Fs)(D @ n \<mapsto> FileN c) = tree_of D t0 Ds (Fs(n \<mapsto> c))"
proof (rule ext)
  fix q
  show "((tree_of D t0 Ds Fs)(D @ n \<mapsto> FileN c)) q = tree_of D t0 Ds (Fs(n \<mapsto> c)) q"
  proof (cases "q = D @ n")
    case False
    have "take (length D) q = D \<Longrightarrow> drop (length D) q = n \<Longrightarrow> q = D @ n"
      by (metis append_take_drop_id)
    with False show ?thesis by (auto simp: tree_of_def)
  qed (use assms in simp)
qed

section \<open>The loop invariant\<close>

definition recorded_dirs :: "tar_entry list \<Rightarrow> string \<rightharpoonup> bool" where
  "recorded_dirs hs =
     (\<lambda>p. if p \<in> dir_names hs then Some True else if p \<in> implied_dirs hs then Some False else None)"

definition ex_inv :: "string list \<Rightarrow> tree \<Rightarrow> int \<Rightarrow> tar_entry list \<Rightarrow> 'b extraction \<Rightarrow> bool" where
  "ex_inv D t0 limit hs x \<longleftrightarrow>
     names_ok hs \<and> ex_files x = file_names hs \<and> ex_dirs x = recorded_dirs hs \<and>
     ex_total x = archive_size hs \<and> archive_size hs \<le> limit \<and> ex_entries x = length hs \<and>
     ex_tree x = archive_tree D t0 hs"

lemma ex_inv_start: "staging_ok D t0 \<Longrightarrow> 0 \<le> m \<Longrightarrow> ex_inv D t0 m [] (extraction_start t0 b)"
  by (simp add: ex_inv_def extraction_start_def recorded_dirs_def archive_tree_def
      archive_files_def tree_of_empty)

lemma archive_size_nonneg: "0 \<le> archive_size hs"
  unfolding archive_size_def by (rule sum_list_nonneg) auto

lemma archive_files_None: "archive_files hs n = None \<longleftrightarrow> n \<notin> segs ` file_names hs"
  by (auto simp: archive_files_def map_of_eq_None_iff file_names_def image_iff)

lemma archive_files_snoc:
  "entry_name h \<notin> file_names hs \<Longrightarrow>
     archive_files (hs @ [h]) =
       (if entry_is_dir h then archive_files hs
        else (archive_files hs)(segs (entry_name h) \<mapsto> ta_data h))"
  using archive_files_None [of hs "segs (entry_name h)"]
  by (auto simp: archive_files_def fun_eq_iff map_add_def segs_inj inj_image_mem_iff inj_def
      split: option.split)

lemma segs_ancestors:
  assumes "plain_name name"
  shows "segs ` ancestors name = (\<lambda>k. take k (segs name)) ` {1..<length (segs name)}"
proof -
  have "segs (seg_join (take k (segs name))) = take k (segs name)" if "k \<in> {1..<length (segs name)}" for k
  proof -
    have "list_all plain_seg (take k (segs name))"
      using segs_plain [OF assms] by (auto simp: list_all_iff dest: in_set_takeD)
    with that show ?thesis
      using plain_join [of "take k (segs name)"] by (auto simp: segs_def seg_join_def)
  qed
  then have "(\<lambda>k. segs (seg_join (take k (segs name)))) ` {1..<length (segs name)} =
      (\<lambda>k. take k (segs name)) ` {1..<length (segs name)}"
    by (rule image_cong [OF refl])
  then show ?thesis by (simp add: ancestors_def Let_def segs_def [symmetric] image_image)
qed

lemma takes_dir:
  assumes "plain_name name"
  shows "(\<lambda>k. take k (segs name)) ` {1..length (segs name)} = segs ` insert name (ancestors name)"
proof -
  have "{1..length (segs name)} = insert (length (segs name)) {1..<length (segs name)}"
    using segs_ne [of name] by (cases "segs name") auto
  then show ?thesis using segs_ancestors [OF assms] by simp
qed

lemma takes_parent:
  assumes "plain_name name"
  shows "(\<lambda>k. take k (butlast (segs name))) ` {1..length (butlast (segs name))} =
    segs ` ancestors name"
proof -
  have "{1..length (butlast (segs name))} = {1..<length (segs name)}"
    using segs_ne [of name] by (cases "segs name") auto
  moreover have "k \<in> {1..<length (segs name)} \<Longrightarrow> take k (butlast (segs name)) = take k (segs name)" for k
    by (auto simp: butlast_conv_take min_def)
  ultimately have "(\<lambda>k. take k (butlast (segs name))) ` {1..length (butlast (segs name))} =
      (\<lambda>k. take k (segs name)) ` {1..<length (segs name)}"
    by (intro image_cong) auto
  then show ?thesis using segs_ancestors [OF assms] by simp
qed

lemma no_files_on_path:
  assumes "(\<lambda>k. take k ns) ` {1..length ns} = segs ` A" and "A \<inter> file_names hs = {}"
  shows "\<forall>k \<in> {1..length ns}. archive_files hs (take k ns) = None"
proof
  fix k assume "k \<in> {1..length ns}"
  then have "take k ns \<in> segs ` A" using assms(1) by blast
  then show "archive_files hs (take k ns) = None"
    using assms(2) by (auto simp: archive_files_None segs_inj)
qed

lemma make_dirs_tree:
  assumes "staging_ok D t0" and "(\<lambda>k. take k ns) ` {1..length ns} = segs ` A"
    and "A \<inter> file_names hs = {}"
  shows "mkdir_all (archive_tree D t0 hs) [] (D @ ns) =
    (None, tree_of D t0 (segs ` (dir_names hs \<union> implied_dirs hs \<union> A)) (archive_files hs))"
  unfolding archive_tree_def mkdir_all_tree [OF assms(1) no_files_on_path [OF assms(2,3)]] assms(2)
  by (simp add: image_Un Un_assoc)

lemma recorded_dirs_snoc:
  "recorded_dirs (hs @ [h]) =
     (if entry_is_dir h
      then (with_parents (ancestors (entry_name h)) (recorded_dirs hs))(entry_name h \<mapsto> True)
      else with_parents (ancestors (entry_name h)) (recorded_dirs hs))"
  by (auto simp: recorded_dirs_def with_parents_def fun_eq_iff)

end
