(* ===== verification/Asset_Accept.thy ===== *)
theory Asset_Accept
  imports Asset_Archive "HOL-Library.Multiset"
begin

text \<open>
  Which uploads \<open>extractAssets\<close> accepts and what it then has written: the steps of the loop
  keep \<open>ex_inv\<close>, and on a disk that works, with a budget that grants, it accepts exactly the
  archives of \<open>archive_ok\<close>.
\<close>

definition env_ok :: "'b extract_env \<Rightarrow> tree \<Rightarrow> bool" where
  "env_ok env t0 \<longleftrightarrow> abs_dir (xe_dir env) \<and> staging_ok (components (xe_dir env)) t0 \<and>
     0 \<le> xe_max env \<and> xe_max env < 2 ^ 63 - 1"

text \<open>The state in which \<open>extract_dir\<close> or \<open>extract_file\<close> meets entry \<open>h\<close>.\<close>

definition at_entry :: "'b extract_env \<Rightarrow> tree \<Rightarrow> tar_entry list \<Rightarrow> tar_entry \<Rightarrow> 'b extraction \<Rightarrow> bool" where
  "at_entry env t0 hs h x \<longleftrightarrow>
     ex_files x = file_names hs \<and>
     ex_dirs x = with_parents (ancestors (entry_name h)) (recorded_dirs hs) \<and>
     ex_total x = archive_size hs \<and> archive_size hs \<le> xe_max env \<and>
     ex_tree x = archive_tree (components (xe_dir env)) t0 hs \<and>
     plain_name (entry_name h) \<and> ancestors (entry_name h) \<inter> file_names hs = {}"

lemma dir_known_iff:
  "with_parents (ancestors n) (recorded_dirs hs) n = Some True \<longleftrightarrow> n \<in> dir_names hs"
  "plain_name n \<Longrightarrow> with_parents (ancestors n) (recorded_dirs hs) n \<noteq> None \<longleftrightarrow>
     n \<in> dir_names hs \<or> n \<in> implied_dirs hs"
  using not_own_ancestor [of n] by (auto simp: with_parents_def recorded_dirs_def)

lemma extract_dir_step:
  assumes env: "env_ok env t0" and at: "at_entry env t0 hs h x" and dir: "entry_is_dir h"
  shows "extract_dir env (entry_name h) x =
    (if entry_name h \<in> file_names hs \<or> entry_name h \<in> dir_names hs
     then (Some (InvalidAssets (DuplicateDirectory (entry_name h))), x)
     else (map_option diskError (fa_mkdir (xe_fault env (ex_entries x))),
           x\<lparr>ex_dirs := recorded_dirs (hs @ [h]),
             ex_tree := if fa_mkdir (xe_fault env (ex_entries x)) = None
               then archive_tree (components (xe_dir env)) t0 (hs @ [h]) else ex_tree x\<rparr>))"
proof -
  let ?n = "entry_name h" and ?D = "components (xe_dir env)"
  from env at have d: "abs_dir (xe_dir env)" "staging_ok ?D t0" "plain_name ?n"
    by (auto simp: env_ok_def at_entry_def)
  have "mkdir_all (archive_tree ?D t0 hs) [] (?D @ segs ?n) = (None, archive_tree ?D t0 (hs @ [h]))"
    if "?n \<notin> file_names hs"
  proof -
    have "insert ?n (ancestors ?n) \<inter> file_names hs = {}" using that at by (simp add: at_entry_def)
    from make_dirs_tree [OF d(2) takes_dir [OF d(3)] this] show ?thesis
      using dir that by (simp add: archive_tree_def archive_files_snoc insert_commute Un_assoc Un_left_commute)
  qed
  moreover have "ex_files x = file_names hs" "ex_tree x = archive_tree ?D t0 hs"
    "ex_dirs x ?n = Some True \<longleftrightarrow> ?n \<in> dir_names hs"
    "(ex_dirs x)(?n \<mapsto> True) = recorded_dirs (hs @ [h])"
    using at dir by (simp_all add: at_entry_def dir_known_iff recorded_dirs_snoc)
  ultimately show ?thesis
    by (auto simp: extract_dir_def make_dirs_def components_target [OF d(1,3)] split: option.split)
qed

lemma file_targets:
  assumes env: "env_ok env t0" and at: "at_entry env t0 hs h x" and reg: "\<not> entry_is_dir h"
    and new: "entry_name h \<notin> file_names hs" "entry_name h \<notin> dir_names hs" "entry_name h \<notin> implied_dirs hs"
    and t: "t = tree_of (components (xe_dir env)) t0
      (segs ` (dir_names (hs @ [h]) \<union> implied_dirs (hs @ [h]))) (archive_files hs)"
    and p: "p = components (xe_dir env) @ segs (entry_name h)"
  shows "make_dirs fa (ex_tree x) (path_dir (join_path (xe_dir env) (entry_name h))) =
      (case fa_mkdir fa of Some e \<Rightarrow> (Some e, ex_tree x) | None \<Rightarrow> (None, t))"
    and "open_excl t p = None"
    and "t(p \<mapsto> FileN (ta_data h)) = archive_tree (components (xe_dir env)) t0 (hs @ [h])"
    and "components (join_path (xe_dir env) (entry_name h)) = p"
proof -
  let ?n = "entry_name h" and ?D = "components (xe_dir env)"
  from env at have d: "abs_dir (xe_dir env)" "staging_ok ?D t0" "plain_name ?n"
    and anc: "ancestors ?n \<inter> file_names hs = {}"
    by (auto simp: env_ok_def at_entry_def)
  have "mkdir_all (archive_tree ?D t0 hs) [] (?D @ butlast (segs ?n)) = (None, t)"
    using make_dirs_tree [OF d(2) takes_parent [OF d(3)] anc] reg by (simp add: t Un_assoc)
  then show "make_dirs fa (ex_tree x) (path_dir (join_path (xe_dir env) ?n)) =
      (case fa_mkdir fa of Some e \<Rightarrow> (Some e, ex_tree x) | None \<Rightarrow> (None, t))"
    using at by (auto simp: make_dirs_def at_entry_def components_parent [OF d(1,3)] split: option.split)
  show "components (join_path (xe_dir env) ?n) = p" using components_target [OF d(1,3)] by (simp add: p)
  have notdir: "segs ?n \<notin> segs ` (dir_names (hs @ [h]) \<union> implied_dirs (hs @ [h]))"
    using new reg not_own_ancestor [OF d(3)] by (auto simp: segs_inj)
  have parent: "t (butlast p) = Some DirN"
  proof (cases "butlast (segs ?n) = []")
    case True
    have "?D \<noteq> []" using abs_dir_components(3) [OF d(1)] .
    then have "t0 (take (length ?D) ?D) = Some DirN"
      using d(2) unfolding staging_ok_def by (metis atLeastAtMost_iff le_refl length_0_conv not_less_eq_eq le_zero_eq One_nat_def)
    then show ?thesis using True by (simp add: p t butlast_append tree_of_def)
  next
    case False
    have "butlast (segs ?n) \<in> segs ` ancestors ?n"
      unfolding takes_parent [OF d(3), symmetric] using False
      by (intro image_eqI [of _ _ "length (butlast (segs ?n))"])
        (auto simp: Suc_le_eq simp flip: length_greater_0_conv)
    then have "butlast (segs ?n) \<in> segs ` (dir_names (hs @ [h]) \<union> implied_dirs (hs @ [h]))"
      by auto
    with False show ?thesis unfolding p t by (simp add: butlast_append del: spec_snoc)
  qed
  have free: "t p = None"
    using notdir new(1) by (simp add: p t archive_files_None [THEN iffD2] inj_image_mem_iff
        inj_def segs_inj del: spec_snoc)
  show "open_excl t p = None" using parent free by (simp add: open_excl_def)
  show "t(p \<mapsto> FileN (ta_data h)) = archive_tree ?D t0 (hs @ [h])"
    unfolding p t using tree_of_write [OF segs_ne notdir] reg new(1)
    by (simp add: archive_tree_def archive_files_snoc)
qed

section \<open>One entry\<close>

lemma extract_file_Inr:
  assumes env: "env_ok env t0" and at: "at_entry env t0 hs h x" and reg: "\<not> entry_is_dir h"
    and run: "extract_file env h (entry_name h) x = (None, x')"
  shows "entry_name h \<notin> file_names hs" and "entry_name h \<notin> dir_names hs"
    and "entry_name h \<notin> implied_dirs hs" and "ta_err h = None"
    and "archive_size (hs @ [h]) \<le> xe_max env"
    and "ex_files x' = file_names (hs @ [h])" and "ex_dirs x' = recorded_dirs (hs @ [h])"
    and "ex_total x' = archive_size (hs @ [h])" and "ex_entries x' = ex_entries x"
    and "ex_tree x' = archive_tree (components (xe_dir env)) t0 (hs @ [h])"
proof -
  let ?n = "entry_name h" and ?room = "xe_max env - archive_size hs"
  have n: "plain_name ?n" and fs: "ex_files x = file_names hs" and tot: "ex_total x = archive_size hs"
    and dirs: "ex_dirs x = with_parents (ancestors ?n) (recorded_dirs hs)"
    and le: "archive_size hs \<le> xe_max env"
    using at by (auto simp: at_entry_def)
  have "\<not> (ex_dirs x ?n \<noteq> None \<or> ?n \<in> ex_files x)"
  proof
    assume "ex_dirs x ?n \<noteq> None \<or> ?n \<in> ex_files x"
    with run show False by (simp add: extract_file_def)
  qed
  then show new: "?n \<notin> file_names hs" "?n \<notin> dir_names hs" "?n \<notin> implied_dirs hs"
    using n by (auto simp: fs dirs dir_known_iff(2) simp del: not_None_eq)
  note tg = file_targets [OF env at reg new refl refl]
  let ?p = "components (xe_dir env) @ segs ?n"
  let ?t = "tree_of (components (xe_dir env)) t0
      (segs ` (dir_names (hs @ [h]) \<union> implied_dirs (hs @ [h]))) (archive_files hs)"
  have room: "0 \<le> ?room" "?room < 2 ^ 63 - 1"
    using le env archive_size_nonneg [of hs] by (auto simp: env_ok_def)
  from run new n obtain b n' t' where
    w: "writeAssetFile (xe_fault env (ex_entries x)) ?t ?p h ?room = (Inr n', t')"
    and x': "x' = x\<lparr>ex_files := insert ?n (ex_files x), ex_budget := b, ex_tree := t',
      ex_total := ex_total x + n'\<rparr>"
    using tg(1,4)
    by (auto simp: extract_file_def Let_def tot
        split: if_splits option.splits prod.splits sum.splits simp del: spec_snoc)
  note w' = writeAssetFile_Inr [OF w room]
  show "ta_err h = None" by (rule w'(4))
  show "archive_size (hs @ [h]) \<le> xe_max env" using w'(2,3) reg by simp
  show "ex_files x' = file_names (hs @ [h])" using reg by (simp add: x' fs)
  show "ex_dirs x' = recorded_dirs (hs @ [h])" using reg by (simp add: x' dirs recorded_dirs_snoc)
  show "ex_total x' = archive_size (hs @ [h])" using w'(2) reg by (simp add: x' tot)
  show "ex_entries x' = ex_entries x" by (simp add: x')
  show "ex_tree x' = archive_tree (components (xe_dir env)) t0 (hs @ [h])"
    using w'(5) tg(3) by (simp add: x' del: spec_snoc)
qed

lemma extract_file_accepts:
  assumes env: "env_ok env t0" and at: "at_entry env t0 hs h x" and reg: "\<not> entry_is_dir h"
    and new: "entry_name h \<notin> file_names hs" "entry_name h \<notin> dir_names hs" "entry_name h \<notin> implied_dirs hs"
    and fault: "xe_fault env (ex_entries x) = no_fault" and full: "ta_err h = None"
    and size: "ta_size h = int (length (ta_data h))" "archive_size (hs @ [h]) \<le> xe_max env"
    and grant: "fst (xe_reserve env (ta_size h) (ex_budget x)) = None"
  shows "\<exists>x'. extract_file env h (entry_name h) x = (None, x')"
proof -
  let ?n = "entry_name h" and ?room = "xe_max env - archive_size hs"
  have n: "plain_name ?n" and fs: "ex_files x = file_names hs" and tot: "ex_total x = archive_size hs"
    and dirs: "ex_dirs x = with_parents (ancestors ?n) (recorded_dirs hs)"
    using at by (auto simp: at_entry_def)
  obtain b where b: "xe_reserve env (ta_size h) (ex_budget x) = (None, b)"
    using grant by (cases "xe_reserve env (ta_size h) (ex_budget x)") auto
  have free: "ex_dirs x ?n = None" "?n \<notin> ex_files x"
    using dir_known_iff(2) [OF n, of hs] new by (auto simp: fs dirs)
  have le: "int (length (ta_data h)) \<le> ?room" "?room < 2 ^ 63 - 1"
    using size reg env archive_size_nonneg [of hs] by (auto simp: env_ok_def)
  note tg = file_targets [OF env at reg new refl refl]
  note w = writeAssetFile_ok [OF tg(2) le full]
  have "fa_mkdir (xe_fault env (ex_entries x)) = None" by (simp add: fault no_fault_def)
  with tg(1) have mk: "make_dirs (xe_fault env (ex_entries x)) (ex_tree x)
      (path_dir (join_path (xe_dir env) ?n)) = (None, tree_of (components (xe_dir env)) t0
      (segs ` (dir_names (hs @ [h]) \<union> implied_dirs (hs @ [h]))) (archive_files hs))"
    by (simp del: spec_snoc)
  have "\<not> ta_size h > xe_max env - ex_total x" using le(1) size(1) tot by simp
  then show ?thesis
    using free w
    by (simp add: extract_file_def Let_def b mk [unfolded fault] tg(4) fault tot del: spec_snoc)
qed

text \<open>What the loop establishes before it branches on the kind of entry.\<close>

lemma extract_entry_branch:
  assumes inv: "ex_inv (components (xe_dir env)) t0 (xe_max env) hs x0"
    and ok: "ex_entries x0 + 1 \<le> maxAssetEntries" "supported_type h" "asset_name (entry_name h)"
      "ancestors (entry_name h) \<inter> file_names hs = {}"
  defines "x \<equiv> x0\<lparr>ex_entries := ex_entries x0 + 1,
    ex_dirs := with_parents (ancestors (entry_name h)) (recorded_dirs hs)\<rparr>"
  shows "extract_entry env h x0 = Some (if entry_is_dir h then extract_dir env (entry_name h) x
      else extract_file env h (entry_name h) x)"
    and "at_entry env t0 hs h x"
proof -
  have n: "plain_name (entry_name h)" using ok(3) by (simp add: asset_name_def)
  show "at_entry env t0 hs h x"
    using inv n ok(4) by (simp add: at_entry_def x_def ex_inv_def)
  have "check_parents (ex_files x0) (entry_name h) (ex_dirs x0) =
      Some (Inr (with_parents (ancestors (entry_name h)) (recorded_dirs hs)))"
    using check_parents_plain(1) [OF n, of "ex_files x0" "ex_dirs x0"] inv ok(4) by (simp add: ex_inv_def)
  moreover have "entry_is_dir h \<or> ta_type h = TypeReg \<or> ta_type h = TypeRegA"
    using ok(2) by (auto simp: supported_type_def entry_is_dir_def)
  ultimately show "extract_entry env h x0 = Some (if entry_is_dir h
      then extract_dir env (entry_name h) x else extract_file env h (entry_name h) x)"
    using ok(1,3) by (auto simp: extract_entry_def checkAssetName_iff [THEN iffD2] x_def Let_def)
qed

lemma extract_entry_guards:
  assumes inv: "ex_inv (components (xe_dir env)) t0 (xe_max env) hs x0"
    and run: "extract_entry env h x0 = Some (None, x')"
  shows "ex_entries x0 + 1 \<le> maxAssetEntries" and "supported_type h" and "asset_name (entry_name h)"
    and "ancestors (entry_name h) \<inter> file_names hs = {}"
proof -
  show le: "ex_entries x0 + 1 \<le> maxAssetEntries"
    using run by (auto simp: extract_entry_def Let_def split: if_splits)
  show ty: "supported_type h"
    using run by (auto simp: extract_entry_def Let_def supported_type_def entry_is_dir_def split: if_splits)
  show nm: "asset_name (entry_name h)"
    using run by (auto simp: extract_entry_def Let_def checkAssetName_iff [symmetric]
        split: if_splits option.splits)
  show "ancestors (entry_name h) \<inter> file_names hs = {}"
  proof (rule ccontr)
    assume "ancestors (entry_name h) \<inter> file_names hs \<noteq> {}"
    then obtain p where "check_parents (ex_files x0) (entry_name h) (ex_dirs x0) = Some (Inl p)"
      using check_parents_plain(2) [of "entry_name h" "ex_files x0" "ex_dirs x0"] nm inv
      by (auto simp: ex_inv_def asset_name_def)
    with run show False
      by (auto simp: extract_entry_def Let_def split: if_splits option.splits)
  qed
qed

lemma extract_entry_keeps:
  assumes env: "env_ok env t0" and inv: "ex_inv (components (xe_dir env)) t0 (xe_max env) hs x0"
    and run: "extract_entry env h x0 = Some (None, x')"
  shows "ex_inv (components (xe_dir env)) t0 (xe_max env) (hs @ [h]) x'"
    and "length (hs @ [h]) \<le> maxAssetEntries" and "\<not> entry_is_dir h \<Longrightarrow> ta_err h = None"
proof -
  note g = extract_entry_guards [OF inv run]
  note br = extract_entry_branch [OF inv g]
  have base: "names_ok hs" "ex_entries x0 = length hs" "archive_size hs \<le> xe_max env"
    "ex_files x0 = file_names hs" "ex_total x0 = archive_size hs"
    using inv by (auto simp: ex_inv_def)
  show "length (hs @ [h]) \<le> maxAssetEntries" using g(1) base by simp
  have "ex_inv (components (xe_dir env)) t0 (xe_max env) (hs @ [h]) x' \<and>
      (\<not> entry_is_dir h \<longrightarrow> ta_err h = None)"
  proof (cases "entry_is_dir h")
    case True
    from run br(1) True extract_dir_step [OF env br(2) True]
    have "entry_name h \<notin> file_names hs" "entry_name h \<notin> dir_names hs"
      and "ex_tree x' = archive_tree (components (xe_dir env)) t0 (hs @ [h])"
      and "ex_dirs x' = recorded_dirs (hs @ [h])" and "ex_files x' = ex_files x0"
      and "ex_total x' = ex_total x0" and "ex_entries x' = ex_entries x0 + 1"
      by (auto split: if_splits simp del: spec_snoc)
    then show ?thesis
      using g base True by (simp add: ex_inv_def names_ok_snoc)
  next
    case False
    from run br(1) False have "extract_file env h (entry_name h) (x0\<lparr>ex_entries := ex_entries x0 + 1,
        ex_dirs := with_parents (ancestors (entry_name h)) (recorded_dirs hs)\<rparr>) = (None, x')"
      by simp
    note f = extract_file_Inr [OF env br(2) False this]
    show ?thesis
      unfolding ex_inv_def names_ok_snoc using f(1-10) g base False by (simp del: spec_snoc)
  qed
  then show "ex_inv (components (xe_dir env)) t0 (xe_max env) (hs @ [h]) x'"
    and "\<not> entry_is_dir h \<Longrightarrow> ta_err h = None" by auto
qed

lemma extract_entry_accepts:
  assumes env: "env_ok env t0" and inv: "ex_inv (components (xe_dir env)) t0 (xe_max env) hs x0"
    and names: "names_ok (hs @ [h])" and count: "length (hs @ [h]) \<le> maxAssetEntries"
    and fault: "\<And>i. xe_fault env i = no_fault" and grant: "\<And>n b. fst (xe_reserve env n b) = None"
    and full: "\<not> entry_is_dir h \<Longrightarrow> ta_err h = None \<and> ta_size h = int (length (ta_data h))"
    and size: "archive_size (hs @ [h]) \<le> xe_max env"
  shows "\<exists>x'. extract_entry env h x0 = Some (None, x')"
proof -
  have "ex_entries x0 = length hs" using inv by (simp add: ex_inv_def)
  with count names have g: "ex_entries x0 + 1 \<le> maxAssetEntries" "supported_type h"
    "asset_name (entry_name h)" "ancestors (entry_name h) \<inter> file_names hs = {}"
    and new: "entry_name h \<notin> file_names hs" "entry_name h \<notin> dir_names hs"
      "\<not> entry_is_dir h \<Longrightarrow> entry_name h \<notin> implied_dirs hs"
    by (auto simp: names_ok_snoc)
  note br = extract_entry_branch [OF inv g]
  show ?thesis
  proof (cases "entry_is_dir h")
    case True
    then show ?thesis
      using br(1) extract_dir_step [OF env br(2) True] new fault
      by (simp add: no_fault_def)
  next
    case False
    with br(1) extract_file_accepts [OF env br(2) False new(1,2) new(3) [OF False]] full size
      fault grant
    show ?thesis by simp
  qed
qed

section \<open>The whole stream\<close>

definition payload :: "tar_entry list \<Rightarrow> tar_entry list" where
  "payload hs = filter (\<lambda>h. ta_type h \<noteq> XGlobalHeader) hs"

lemma payload_simps [simp]:
  "payload [] = []"
  "payload (h # hs) = (if ta_type h = XGlobalHeader then payload hs else h # payload hs)"
  by (auto simp: payload_def)

lemma extract_loop_sound:
  assumes "env_ok env t0" and "ex_inv (components (xe_dir env)) t0 (xe_max env) hs x"
    and "length hs \<le> maxAssetEntries" and "extract_loop env rest e x = Some (Inr n, x')"
  shows "e = None \<and> n = ex_total x' \<and> length (hs @ payload rest) \<le> maxAssetEntries \<and>
    ex_inv (components (xe_dir env)) t0 (xe_max env) (hs @ payload rest) x' \<and>
    (\<forall>h \<in> set (files_of (payload rest)). ta_err h = None)"
  using assms
proof (induction env rest e x arbitrary: hs rule: extract_loop.induct)
  case (3 env h rest e x)
  show ?case
  proof (cases "ta_type h = XGlobalHeader")
    case False
    with "3.prems"(4) obtain y where y: "extract_entry env h x = Some (None, y)"
      and rest: "extract_loop env rest e y = Some (Inr n, x')"
      by (auto split: option.splits prod.splits)
    note keep = extract_entry_keeps [OF "3.prems"(1,2) y]
    from "3.IH"(2) [OF False y refl refl "3.prems"(1) keep(1,2) rest] keep(3) False
    show ?thesis by (auto simp: files_of_def)
  qed (use 3 in simp)
qed auto

lemma extract_loop_complete:
  assumes "env_ok env t0" and "ex_inv (components (xe_dir env)) t0 (xe_max env) hs x"
    and "\<And>i. xe_fault env i = no_fault" and "\<And>n b. fst (xe_reserve env n b) = None"
    and "names_ok (hs @ payload rest)" and "length (hs @ payload rest) \<le> maxAssetEntries"
    and "archive_size (hs @ payload rest) \<le> xe_max env"
    and "\<forall>h \<in> set (files_of (payload rest)). ta_err h = None \<and> ta_size h = int (length (ta_data h))"
  shows "\<exists>n x'. extract_loop env rest None x = Some (Inr n, x')"
  using assms
proof (induction rest arbitrary: hs x)
  case (Cons h rest)
  show ?case
  proof (cases "ta_type h = XGlobalHeader")
    case False
    have split: "hs @ payload (h # rest) = (hs @ [h]) @ payload rest" using False by simp
    have sz: "archive_size (hs @ [h]) \<le> archive_size ((hs @ [h]) @ payload rest)"
      using archive_size_nonneg [of "payload rest"] by (simp add: archive_size_def files_of_def)
    from Cons.prems(5-7) split sz have names: "names_ok (hs @ [h])"
      and count: "length (hs @ [h]) \<le> maxAssetEntries" and size: "archive_size (hs @ [h]) \<le> xe_max env"
      using names_ok_prefix [of "hs @ [h]" "payload rest"] by (auto simp del: spec_snoc)
    have full: "\<not> entry_is_dir h \<Longrightarrow> ta_err h = None \<and> ta_size h = int (length (ta_data h))"
      using Cons.prems(8) False by (simp add: files_of_def)
    from extract_entry_accepts [OF Cons.prems(1,2) names count Cons.prems(3,4) full size]
    obtain y where y: "extract_entry env h x = Some (None, y)" by blast
    note keep = extract_entry_keeps [OF Cons.prems(1,2) y]
    have "\<forall>h \<in> set (files_of (payload rest)). ta_err h = None \<and> ta_size h = int (length (ta_data h))"
      using Cons.prems(8) False by (simp add: files_of_def)
    from Cons.IH [OF Cons.prems(1) keep(1) Cons.prems(3,4) Cons.prems(5-7) [unfolded split] this]
    show ?thesis using y False by simp
  qed (use Cons in simp)
qed simp

text \<open>
  Contract section 9.2: what an upload has to be.  \<open>complete\<close> is the tar reader's promise
  that an entry whose data ends without an error has its declared size.
\<close>

definition archive_ok :: "int \<Rightarrow> tar_entry list \<Rightarrow> bool" where
  "archive_ok limit hs \<longleftrightarrow> names_ok hs \<and> length hs \<le> maxAssetEntries \<and> archive_size hs \<le> limit \<and>
     (\<forall>h \<in> set (files_of hs). ta_err h = None)"

definition complete_data :: "tar_entry list \<Rightarrow> bool" where
  "complete_data hs \<longleftrightarrow>
     (\<forall>h \<in> set hs. 0 \<le> ta_size h \<and> int (length (ta_data h)) \<le> ta_size h \<and>
        (ta_err h = None \<longrightarrow> ta_size h = int (length (ta_data h))))"

lemma extractAssets_success:
  assumes "env_ok env t0" and "extractAssets env hs e t0 b = Some (Inr n, x)"
  shows "e = None" and "archive_ok (xe_max env) (payload hs)" and "n = archive_size (payload hs)"
    and "ex_tree x = archive_tree (components (xe_dir env)) t0 (payload hs)"
proof -
  have "ex_inv (components (xe_dir env)) t0 (xe_max env) [] (extraction_start t0 b)"
    using assms(1) by (intro ex_inv_start) (auto simp: env_ok_def)
  from extract_loop_sound [OF assms(1) this _ assms(2) [unfolded extractAssets_def]]
  have s: "e = None" "n = ex_total x" "length (payload hs) \<le> maxAssetEntries"
    "ex_inv (components (xe_dir env)) t0 (xe_max env) (payload hs) x"
    "\<forall>h \<in> set (files_of (payload hs)). ta_err h = None" by auto
  then show "e = None" "archive_ok (xe_max env) (payload hs)" "n = archive_size (payload hs)"
    "ex_tree x = archive_tree (components (xe_dir env)) t0 (payload hs)"
    by (auto simp: archive_ok_def ex_inv_def)
qed

lemma extractAssets_accepts_iff:
  assumes "env_ok env t0" and "\<And>i. xe_fault env i = no_fault"
    and "\<And>n b. fst (xe_reserve env n b) = None" and "complete_data hs"
  shows "(\<exists>n x. extractAssets env hs e t0 b = Some (Inr n, x)) \<longleftrightarrow>
    e = None \<and> archive_ok (xe_max env) (payload hs)"
proof
  assume "\<exists>n x. extractAssets env hs e t0 b = Some (Inr n, x)"
  then show "e = None \<and> archive_ok (xe_max env) (payload hs)"
    using extractAssets_success [OF assms(1)] by blast
next
  assume ok: "e = None \<and> archive_ok (xe_max env) (payload hs)"
  have "ex_inv (components (xe_dir env)) t0 (xe_max env) [] (extraction_start t0 b)"
    using assms(1) by (intro ex_inv_start) (auto simp: env_ok_def)
  moreover have "\<forall>h \<in> set (files_of (payload hs)). ta_err h = None \<and> ta_size h = int (length (ta_data h))"
    using ok assms(4) by (auto simp: archive_ok_def complete_data_def files_of_def payload_def)
  ultimately show "\<exists>n x. extractAssets env hs e t0 b = Some (Inr n, x)"
    unfolding extractAssets_def
    using extract_loop_complete [OF assms(1) _ assms(2,3), of "[]" "extraction_start t0 b" hs] ok
    by (simp add: archive_ok_def)
qed

text \<open>The rule does not depend on the order of the entries.\<close>

lemma archive_ok_perm:
  assumes "mset hs = mset hs'"
  shows "archive_ok limit hs \<longleftrightarrow> archive_ok limit hs'"
proof -
  have "set hs = set hs'" and "length hs = length hs'"
    using assms by (metis set_mset_mset, metis size_mset)
  moreover have "mset (map f (filter P hs)) = mset (map f (filter P hs'))" for f :: "tar_entry \<Rightarrow> 'c" and P
    using assms by simp
  moreover have "archive_size hs = archive_size hs'"
    unfolding archive_size_def files_of_def using calculation(3)
    by (metis sum_mset_sum_list)
  moreover have "distinct (map entry_name hs) \<longleftrightarrow> distinct (map entry_name hs')"
    using assms by (metis mset_eq_imp_distinct_iff mset_map)
  ultimately show ?thesis
    by (simp add: archive_ok_def names_ok_def file_names_def implied_dirs_def files_of_def)
qed

end
