(* ===== verification/Asset_Budget.thy ===== *)
theory Asset_Budget
  imports Asset_Accept
begin

text \<open>
  The contract between \<open>extractAssets\<close> and its byte budget (\<open>reserve\<close> of
  \<open>internal/serve/cache.go\<close>): a successful call grants its bytes, a failed one grants
  nothing.  Under that contract extraction never has more bytes on disk than it was
  granted, whether it succeeds or fails.
\<close>

locale upload_budget =
  fixes reserve :: "int \<Rightarrow> 'b \<Rightarrow> upload_error option \<times> 'b"
    and granted :: "'b \<Rightarrow> int"
  assumes reserve_grants: "reserve n b = (None, b') \<Longrightarrow> granted b' = granted b + n"
    and reserve_refuses: "reserve n b = (Some e, b') \<Longrightarrow> granted b' = granted b"

section \<open>Bytes in a tree\<close>

definition node_bytes :: "node option \<Rightarrow> int" where
  "node_bytes nd = (case nd of Some (FileN c) \<Rightarrow> int (length c) | _ \<Rightarrow> 0)"

definition tree_bytes :: "tree \<Rightarrow> int" where
  "tree_bytes t = (\<Sum>p \<in> dom t. node_bytes (t p))"

lemma tree_bytes_new:
  assumes "finite (dom t)" and "t p = None"
  shows "tree_bytes (t(p \<mapsto> nd)) = tree_bytes t + node_bytes (Some nd)"
proof -
  have "(\<Sum>q \<in> dom t. node_bytes ((t(p \<mapsto> nd)) q)) = (\<Sum>q \<in> dom t. node_bytes (t q))"
    using assms(2) by (intro sum.cong) auto
  moreover have "p \<notin> dom t" using assms(2) by auto
  ultimately show ?thesis using assms(1) by (simp add: tree_bytes_def)
qed

lemma mkdir_all_bytes:
  "mkdir_all t pre ss = (r, t') \<Longrightarrow> finite (dom t) \<Longrightarrow> tree_bytes t' = tree_bytes t \<and> finite (dom t')"
  by (induction t pre ss rule: mkdir_all.induct)
    (auto simp: tree_bytes_new node_bytes_def split: option.splits node.splits)

lemma make_dirs_bytes:
  "make_dirs fa t path = (r, t') \<Longrightarrow> finite (dom t) \<Longrightarrow> tree_bytes t' = tree_bytes t \<and> finite (dom t')"
  using mkdir_all_bytes by (auto simp: make_dirs_def split: option.splits)

lemma writeAssetFile_tree:
  assumes "writeAssetFile fa t p h room = (r, t')"
  shows "t' = t \<or> (t p = None \<and> (\<exists>c. length c \<le> length (ta_data h) \<and> t' = t(p \<mapsto> FileN c)))"
proof -
  obtain data rd where lr: "limited_read (wrap64 (room + 1)) h = (data, rd)" by fastforce
  then have le: "length data \<le> length (ta_data h)" by (auto simp: limited_read_def Let_def)
  have "t' = t \<or> (t p = None \<and> (t' = t(p \<mapsto> FileN data) \<or> (\<exists>k. t' = t(p \<mapsto> FileN (take k data)))))"
    using assms lr
    by (auto simp: writeAssetFile_def Let_def open_excl_def split: option.splits if_splits)
  then show ?thesis
    using le by (metis le_trans length_take min.cobounded1)
qed

lemma writeAssetFile_bytes:
  assumes "writeAssetFile fa t p h room = (r, t')" and "finite (dom t)"
  shows "tree_bytes t' \<le> tree_bytes t + int (length (ta_data h)) \<and> finite (dom t')"
  using writeAssetFile_tree [OF assms(1)] assms(2) by (auto simp: tree_bytes_new node_bytes_def)

lemma writeAssetFile_size: "writeAssetFile fa t p h room = (Inr n, t') \<Longrightarrow> n \<le> int (length (ta_data h))"
  by (auto simp: writeAssetFile_def limited_read_def Let_def split: option.splits prod.splits if_splits)

section \<open>Bytes on disk and bytes granted\<close>

definition within :: "('b \<Rightarrow> int) \<Rightarrow> 'b extraction \<Rightarrow> 'b extraction \<Rightarrow> bool" where
  "within granted x x' \<longleftrightarrow> (finite (dom (ex_tree x)) \<longrightarrow>
     finite (dom (ex_tree x')) \<and>
     tree_bytes (ex_tree x') - tree_bytes (ex_tree x) \<le> granted (ex_budget x') - granted (ex_budget x))"

lemma within_refl: "within g x x"
  by (simp add: within_def)

lemma within_trans: "within g x y \<Longrightarrow> within g y z \<Longrightarrow> within g x z"
  by (auto simp: within_def)

lemma extract_entry_cases:
  assumes "extract_entry env h x = Some (e, x')"
  obtains "ex_tree x' = ex_tree x" "ex_budget x' = ex_budget x"
    | y where "ex_tree y = ex_tree x" "ex_budget y = ex_budget x"
        "extract_dir env (entry_name h) y = (e, x') \<or> extract_file env h (entry_name h) y = (e, x')"
proof (cases "checkAssetName (entry_name h)")
  case None
  obtain r where r: "check_parents (ex_files x) (entry_name h) (ex_dirs x) = Some r"
    using check_parents_returns [OF None] by fastforce
  show ?thesis
  proof (cases r)
    case (Inl p)
    with assms None r show ?thesis
      by (intro that(1)) (auto simp: extract_entry_def Let_def split: if_splits)
  next
    case (Inr dirs)
    let ?y = "x\<lparr>ex_entries := ex_entries x + 1, ex_dirs := dirs\<rparr>"
    from assms None r Inr have "x' = x\<lparr>ex_entries := ex_entries x + 1\<rparr> \<or>
        extract_dir env (entry_name h) ?y = (e, x') \<or> extract_file env h (entry_name h) ?y = (e, x')"
      by (auto simp: extract_entry_def Let_def split: if_splits)
    then show ?thesis using that(1) that(2) [of ?y] by auto
  qed
next
  case (Some a)
  with assms show ?thesis
    by (intro that(1)) (auto simp: extract_entry_def Let_def split: if_splits)
qed

context upload_budget
begin

lemma extract_dir_within: "extract_dir env name x = (e, x') \<Longrightarrow> within granted x x'"
  by (auto simp: extract_dir_def within_def Let_def dest: make_dirs_bytes
      split: if_splits prod.splits)

lemma extract_file_within:
  assumes "xe_reserve env = reserve" and "0 \<le> ta_size h" and "int (length (ta_data h)) \<le> ta_size h"
    and "extract_file env h name x = (e, x')"
  shows "within granted x x'"
proof (cases "ex_dirs x name \<noteq> None \<or> name \<in> ex_files x \<or> ta_size h > xe_max env - ex_total x")
  case True
  with assms(4) show ?thesis by (auto simp: extract_file_def within_def Let_def split: if_splits)
next
  case open': False
  obtain er b where res: "reserve (ta_size h) (ex_budget x) = (er, b)" by fastforce
  show ?thesis
  proof (cases er)
    case (Some err)
    with assms(1,4) open' res reserve_refuses [of _ _ err b] show ?thesis
      by (auto simp: extract_file_def within_def Let_def)
  next
    case None
    note g = reserve_grants [OF res [unfolded None]]
    let ?fa = "xe_fault env (ex_entries x)" and ?target = "join_path (xe_dir env) name"
    obtain mr t where mk: "make_dirs ?fa (ex_tree x) (path_dir ?target) = (mr, t)" by fastforce
    obtain wr t' where wr: "writeAssetFile ?fa t (components ?target) h (xe_max env - ex_total x) = (wr, t')"
      by fastforce
    have "ex_budget x' = b \<and> (ex_tree x' = t \<or> ex_tree x' = t')"
      using assms(1,4) open' res None mk wr
      by (auto simp: extract_file_def Let_def split: option.splits sum.splits)
    then show ?thesis
      using make_dirs_bytes [OF mk] writeAssetFile_bytes [OF wr] g assms(2,3)
      by (auto simp: within_def)
  qed
qed

lemma extract_entry_within:
  assumes "xe_reserve env = reserve" and "0 \<le> ta_size h" and "int (length (ta_data h)) \<le> ta_size h"
    and "extract_entry env h x = Some (e, x')"
  shows "within granted x x'"
proof -
  from assms(4) consider "ex_tree x' = ex_tree x" "ex_budget x' = ex_budget x"
    | y where "ex_tree y = ex_tree x" "ex_budget y = ex_budget x"
        "extract_dir env (entry_name h) y = (e, x') \<or> extract_file env h (entry_name h) y = (e, x')"
    by (rule extract_entry_cases)
  then show ?thesis
  proof cases
    case 2
    then have "within granted y x'"
      using extract_dir_within extract_file_within [OF assms(1-3)] by blast
    with 2 show ?thesis by (simp add: within_def)
  qed (simp add: within_def)
qed

lemma extract_loop_within:
  assumes "xe_reserve env = reserve" and "complete_data hs" and "extract_loop env hs e x = Some (r, x')"
  shows "within granted x x'"
  using assms
proof (induction env hs e x rule: extract_loop.induct)
  case (3 env h hs e x)
  from "3.prems"(2) have h: "0 \<le> ta_size h" "int (length (ta_data h)) \<le> ta_size h"
    and hs: "complete_data hs" by (auto simp: complete_data_def)
  show ?case
  proof (cases "ta_type h = XGlobalHeader")
    case True
    with 3 hs show ?thesis by simp
  next
    case False
    with "3.prems"(3) obtain er y where y: "extract_entry env h x = Some (er, y)"
      by (auto split: option.splits)
    note w = extract_entry_within [OF "3.prems"(1) h y]
    show ?thesis
    proof (cases er)
      case None
      with False y "3.prems"(3) have "extract_loop env hs e y = Some (r, x')" by simp
      from "3.IH"(2) [OF False y [unfolded None] refl refl "3.prems"(1) hs this] w
      show ?thesis by (rule within_trans [rotated])
    qed (use w False y "3.prems"(3) in simp)
  qed
qed (auto simp: within_refl)

text \<open>Bytes on disk never exceed bytes granted, on success and on every failure.\<close>

lemma extractAssets_within:
  assumes "xe_reserve env = reserve" and "complete_data hs" and "finite (dom t0)"
    and "extractAssets env hs e t0 b = Some (r, x)"
  shows "tree_bytes (ex_tree x) - tree_bytes t0 \<le> granted (ex_budget x) - granted b"
  using extract_loop_within [OF assms(1,2) assms(4) [unfolded extractAssets_def]] assms(3)
  by (simp add: within_def extraction_start_def)

end

section \<open>A byte budget of the largest int64\<close>

text \<open>
  \<open>room + 1\<close> is computed in \<open>int64\<close>.  With \<open>--cache-max-bytes\<close> at its largest value it
  wraps around, the limited reader yields nothing, and a file is stored empty without an
  error.
\<close>

lemma writeAssetFile_wraps:
  assumes "open_excl t p = None"
  shows "writeAssetFile no_fault t p h (2 ^ 63 - 1) = (Inr 0, t(p \<mapsto> FileN []))"
proof -
  have "wrap64 (2 ^ 63 - 1 + 1) = - (2 ^ 63)" by (simp add: wrap64_def)
  with assms show ?thesis
    by (simp add: writeAssetFile_def no_fault_def limited_read_def Let_def)
qed

end
