(* ===== verification/Asset_Cache.thy ===== *)
theory Asset_Cache
  imports Asset_Budget "HOL-Library.Product_Lexorder"
begin

text \<open>
  \<open>internal/serve/cache.go\<close>: the asset cache.  Entries are heap objects (a pointer is a
  number), because a lint keeps reading an entry that has left the map.  Each function
  below is one critical section of \<open>c.mu\<close>; \<open>remove\<close>, which takes the mutex once per
  entry, is a sequence of them.  Go's iteration order over the map is the argument \<open>ks\<close>.
  The byte counter is an \<open>int\<close> here: \<open>Cache_System.cache_used_bound\<close> shows how far it can
  go, which is well inside \<open>int64\<close>.
\<close>

record cache_entry =
  e_fingerprint :: string
  e_dir :: string
  e_size :: int
  e_lastUsed :: int
  e_readers :: int
  e_stale :: bool

record asset_cache =
  ac_dir :: string
  ac_max :: int
  ac_entries :: "string \<rightharpoonup> nat"
  ac_heap :: "nat \<rightharpoonup> cache_entry"
  ac_next :: nat                      \<comment> \<open>the next fresh pointer\<close>
  ac_used :: int

definition newAssetCache :: "string \<Rightarrow> int \<Rightarrow> asset_cache" where
  "newAssetCache dir maxBytes =
     \<lparr>ac_dir = dir, ac_max = maxBytes, ac_entries = Map.empty, ac_heap = Map.empty, ac_next = 0,
      ac_used = 0\<rparr>"

definition entry_at :: "asset_cache \<Rightarrow> nat \<Rightarrow> cache_entry" where
  "entry_at c i = the (ac_heap c i)"

definition size_of :: "asset_cache \<Rightarrow> nat \<Rightarrow> int" where
  "size_of c i = e_size (entry_at c i)"

definition set_entry :: "nat \<Rightarrow> cache_entry \<Rightarrow> asset_cache \<Rightarrow> asset_cache" where
  "set_entry i e c = c\<lparr>ac_heap := (ac_heap c)(i \<mapsto> e)\<rparr>"

section \<open>Readers\<close>

definition cache_acquire :: "string \<Rightarrow> string \<Rightarrow> int \<Rightarrow> asset_cache \<Rightarrow> nat option \<times> asset_cache" where
  "cache_acquire key fingerprint now c =
     (case ac_entries c key of
        None \<Rightarrow> (None, c)
      | Some i \<Rightarrow>
          (let e = entry_at c i
           in if e_fingerprint e \<noteq> fingerprint then (None, c)
              else (Some i, set_entry i (e\<lparr>e_readers := e_readers e + 1, e_lastUsed := now\<rparr>) c)))"

text \<open>The flag says whether the caller then has to remove the entry.\<close>

definition cache_release :: "nat \<Rightarrow> asset_cache \<Rightarrow> bool \<times> asset_cache" where
  "cache_release i c =
     (let e = (entry_at c i)\<lparr>e_readers := e_readers (entry_at c i) - 1\<rparr>
      in (e_stale e \<and> e_readers e = 0, set_entry i e c))"

definition cache_holds :: "string \<Rightarrow> string \<Rightarrow> asset_cache \<Rightarrow> bool" where
  "cache_holds key fingerprint c =
     (case ac_entries c key of None \<Rightarrow> False | Some i \<Rightarrow> e_fingerprint (entry_at c i) = fingerprint)"

section \<open>The budget\<close>

text \<open>The second half of one turn of \<open>remove\<close>, after the directory is gone.\<close>

definition subtract_size :: "nat \<Rightarrow> asset_cache \<Rightarrow> asset_cache" where
  "subtract_size i c = c\<lparr>ac_used := ac_used c - size_of c i\<rparr>"

definition remove_entries :: "nat list \<Rightarrow> asset_cache \<Rightarrow> asset_cache" where
  "remove_entries gone c = foldl (\<lambda>c i. subtract_size i c) c gone"

definition unreserve :: "int \<Rightarrow> asset_cache \<Rightarrow> asset_cache" where
  "unreserve n c = c\<lparr>ac_used := ac_used c - n\<rparr>"

definition retireLocked :: "string \<Rightarrow> asset_cache \<Rightarrow> nat \<times> asset_cache" where
  "retireLocked key c =
     (let i = the (ac_entries c key)
      in (i, set_entry i ((entry_at c i)\<lparr>e_stale := True\<rparr>)
               (c\<lparr>ac_entries := (ac_entries c)(key := None)\<rparr>)))"

text \<open>The entries no lint reads, least recently used first, \<open>key\<close>'s own last.\<close>

definition key_entry :: "asset_cache \<Rightarrow> string \<Rightarrow> cache_entry" where
  "key_entry c k = entry_at c (the (ac_entries c k))"

definition candidates :: "string list \<Rightarrow> string \<Rightarrow> asset_cache \<Rightarrow> string list" where
  "candidates ks key c =
     sort_key (\<lambda>k. (k = key, if k = key then 0 else e_lastUsed (key_entry c k)))
       (filter (\<lambda>k. e_readers (key_entry c k) = 0) ks)"

text \<open>The loop that counts how many of them have to go.\<close>

fun evict_loop ::
  "(string \<Rightarrow> int) \<Rightarrow> int \<Rightarrow> int \<Rightarrow> int \<Rightarrow> int \<Rightarrow> string list \<Rightarrow> int \<times> string list" where
  "evict_loop sz used n limit freed [] = (freed, [])"
| "evict_loop sz used n limit freed (k # ks) =
     (if used - freed + n > limit
      then (case evict_loop sz used n limit (freed + sz k) ks of (f, es) \<Rightarrow> (f, k # es))
      else (freed, []))"

fun retire_all :: "string list \<Rightarrow> asset_cache \<Rightarrow> nat list \<times> asset_cache" where
  "retire_all [] c = ([], c)"
| "retire_all (k # ks) c =
     (case retireLocked k c of (i, c1) \<Rightarrow>
        (case retire_all ks c1 of (is, c2) \<Rightarrow> (i # is, c2)))"

text \<open>
  \<open>reserve\<close> up to the call of \<open>remove\<close>: the entries to remove, or \<open>None\<close> for
  \<open>errCacheFull\<close>.
\<close>

definition cache_reserve ::
  "string list \<Rightarrow> string \<Rightarrow> int \<Rightarrow> asset_cache \<Rightarrow> nat list option \<times> asset_cache" where
  "cache_reserve ks key n c =
     (if ac_used c + n \<le> ac_max c then (Some [], c\<lparr>ac_used := ac_used c + n\<rparr>)
      else
        (case evict_loop (\<lambda>k. e_size (key_entry c k)) (ac_used c) n (ac_max c) 0
                (candidates ks key c) of
           (freed, evict) \<Rightarrow>
             if ac_used c - freed + n > ac_max c then (None, c)
             else (case retire_all evict c of
                 (gone, c1) \<Rightarrow> (Some gone, c1\<lparr>ac_used := ac_used c1 + n\<rparr>))))"

section \<open>Installing a set\<close>

definition cache_install ::
  "string \<Rightarrow> string \<Rightarrow> string \<Rightarrow> int \<Rightarrow> int \<Rightarrow> int \<Rightarrow> asset_cache \<Rightarrow> nat list \<times> asset_cache" where
  "cache_install key fingerprint final now sz reserved c =
     (let (gone, c1) = (if ac_entries c key \<noteq> None
            then (case retireLocked key c of (i, c1) \<Rightarrow>
                    (if e_readers (entry_at c1 i) = 0 then [i] else [], c1))
            else ([], c));
          i = ac_next c1;
          e = \<lparr>e_fingerprint = fingerprint, e_dir = final, e_size = sz, e_lastUsed = now,
               e_readers = 0, e_stale = False\<rparr>
      in (gone, c1\<lparr>ac_heap := (ac_heap c1)(i \<mapsto> e), ac_next := i + 1,
                   ac_entries := (ac_entries c1)(key \<mapsto> i),
                   ac_used := ac_used c1 + (sz - reserved)\<rparr>))"

section \<open>One upload, run on its own\<close>

text \<open>
  The callback \<open>put\<close> passes to \<open>extractAssets\<close>, over the cache and the bytes reserved so
  far; \<open>order\<close> is the iteration order of the map.
\<close>

definition put_reserve ::
  "(asset_cache \<Rightarrow> string list) \<Rightarrow> string \<Rightarrow> int \<Rightarrow> asset_cache \<times> int \<Rightarrow>
     upload_error option \<times> (asset_cache \<times> int)" where
  "put_reserve order key n cr =
     (case cr of (c, reserved) \<Rightarrow>
        (case cache_reserve (order c) key n c of
           (None, c') \<Rightarrow> (Some CacheFull, (c', reserved))
         | (Some gone, c') \<Rightarrow> (None, (remove_entries gone c', reserved + n))))"

interpretation put_budget: upload_budget "put_reserve order key" snd
  by unfold_locales (auto simp: put_reserve_def split: prod.splits option.splits)

record put_env =
  pe_order :: "asset_cache \<Rightarrow> string list"
  pe_mkdtemp :: "fs_error + string"        \<comment> \<open>the staging directory\<close>
  pe_tree :: tree                          \<comment> \<open>the file system once it exists\<close>
  pe_fault :: "nat \<Rightarrow> fault"
  pe_rename :: "fs_error option"
  pe_final :: string
  pe_now :: int

definition put_extract ::
  "put_env \<Rightarrow> string \<Rightarrow> string \<Rightarrow> tar_entry list \<Rightarrow> read_err option \<Rightarrow> asset_cache \<Rightarrow>
     ((upload_error + int) \<times> (asset_cache \<times> int) extraction) option" where
  "put_extract pe key staging hs e c =
     extractAssets
       \<lparr>xe_dir = staging, xe_max = ac_max c, xe_reserve = put_reserve (pe_order pe) key,
        xe_fault = pe_fault pe\<rparr> hs e (pe_tree pe) (c, 0)"

definition cache_put ::
  "put_env \<Rightarrow> string \<Rightarrow> string \<Rightarrow> tar_entry list \<Rightarrow> read_err option \<Rightarrow> asset_cache \<Rightarrow>
     (upload_error option \<times> asset_cache) option" where
  "cache_put pe key fingerprint hs e c =
     (if cache_holds key fingerprint c then Some (None, c)
      else (case pe_mkdtemp pe of
          Inl err \<Rightarrow> Some (Some (diskError err), c)
        | Inr staging \<Rightarrow>
            (case put_extract pe key staging hs e c of
               None \<Rightarrow> None
             | Some (r, x) \<Rightarrow>
                 (case ex_budget x of (c', reserved) \<Rightarrow>
                    (case r of
                       Inl err \<Rightarrow> Some (Some err, unreserve reserved c')
                     | Inr sz \<Rightarrow>
                         (case pe_rename pe of
                            Some err \<Rightarrow> Some (Some (diskError err), unreserve reserved c')
                          | None \<Rightarrow>
                              (case cache_install key fingerprint (pe_final pe) (pe_now pe) sz
                                      reserved c' of
                                 (gone, c2) \<Rightarrow> Some (None, remove_entries gone c2))))))))"

section \<open>What an eviction takes\<close>

lemma evict_loop_prefix:
  "evict_loop sz used n limit freed ks = (f, es) \<Longrightarrow>
     \<exists>rest. ks = es @ rest \<and> f = freed + sum_list (map sz es) \<and> (used - f + n > limit \<longrightarrow> rest = [])"
  by (induction sz used n limit freed ks arbitrary: f es rule: evict_loop.induct)
    (auto split: if_splits prod.splits)

text \<open>No entry is evicted that was not needed.\<close>

lemma evict_loop_minimal:
  "evict_loop sz used n limit freed ks = (f, es) \<Longrightarrow> es' @ k # es'' = es \<Longrightarrow>
     used - (freed + sum_list (map sz es')) + n > limit"
proof (induction sz used n limit freed ks arbitrary: f es es' rule: evict_loop.induct)
  case (2 sz used n limit freed k0 ks)
  have "es \<noteq> []" using "2.prems"(2) by auto
  with "2.prems"(1) obtain es1 where es: "used - freed + n > limit" "es = k0 # es1"
    and rec: "evict_loop sz used n limit (freed + sz k0) ks = (f, es1)"
    by (auto split: if_splits prod.splits)
  show ?case
  proof (cases es')
    case (Cons a as)
    with "2.prems"(2) es have "a = k0" "as @ k # es'' = es1" by auto
    from "2.IH" [OF es(1) rec this(2)] Cons \<open>a = k0\<close> show ?thesis by simp
  qed (use es in simp)
qed simp

lemma candidates_set [simp]:
  "set (candidates ks key c) = {k \<in> set ks. e_readers (key_entry c k) = 0}"
  by (auto simp: candidates_def)

lemma candidates_distinct: "distinct ks \<Longrightarrow> distinct (candidates ks key c)"
  by (simp add: candidates_def)

text \<open>The order of the candidates: older first, the uploaded key's own entry last.\<close>

lemma candidates_order:
  "sorted_wrt (\<lambda>a b. b = key \<or> (a \<noteq> key \<and> e_lastUsed (key_entry c a) \<le> e_lastUsed (key_entry c b)))
     (candidates ks key c)"
proof -
  let ?f = "\<lambda>k. (k = key, if k = key then 0 else e_lastUsed (key_entry c k))"
  have "sorted (map ?f (candidates ks key c))" by (simp add: candidates_def)
  then have "sorted_wrt (\<lambda>a b. ?f a \<le> ?f b) (candidates ks key c)" by (simp add: sorted_wrt_map)
  then show ?thesis
    by (rule sorted_wrt_mono_rel [rotated]) (auto simp: less_eq_prod_def split: if_splits)
qed

section \<open>Retiring entries\<close>

definition ptr :: "asset_cache \<Rightarrow> string \<Rightarrow> nat" where
  "ptr c k = the (ac_entries c k)"

lemma retireLocked_eq:
  "retireLocked k c = (ptr c k, c\<lparr>ac_entries := (ac_entries c)(k := None),
     ac_heap := (ac_heap c)(ptr c k \<mapsto> (entry_at c (ptr c k))\<lparr>e_stale := True\<rparr>)\<rparr>)"
  by (simp add: retireLocked_def set_entry_def ptr_def Let_def)

lemma retire_all_eq:
  "distinct ks \<Longrightarrow> retire_all ks c = (map (ptr c) ks,
     c\<lparr>ac_entries := (\<lambda>k. if k \<in> set ks then None else ac_entries c k),
       ac_heap := (\<lambda>i. if i \<in> ptr c ` set ks then Some ((entry_at c i)\<lparr>e_stale := True\<rparr>)
         else ac_heap c i)\<rparr>)"
proof (induction ks arbitrary: c)
  case (Cons k ks)
  let ?c = "snd (retireLocked k c)"
  have p: "map (ptr ?c) ks = map (ptr c) ks" "ptr ?c ` set ks = ptr c ` set ks"
    using Cons.prems by (auto simp: retireLocked_eq ptr_def)
  have "retire_all ks ?c = (map (ptr c) ks,
      ?c\<lparr>ac_entries := (\<lambda>k. if k \<in> set ks then None else ac_entries ?c k),
        ac_heap := (\<lambda>i. if i \<in> ptr c ` set ks then Some ((entry_at ?c i)\<lparr>e_stale := True\<rparr>)
          else ac_heap ?c i)\<rparr>)"
    using Cons.IH [of ?c] Cons.prems unfolding p by simp
  then show ?case
    by (auto simp: retireLocked_eq fun_eq_iff entry_at_def image_iff)
qed simp

text \<open>
  What \<open>reserve\<close> does when it succeeds: it retires a list of idle keys, enough of them, and
  counts the \<open>n\<close> bytes.
\<close>

definition idle_keys :: "asset_cache \<Rightarrow> string set" where
  "idle_keys c = {k \<in> dom (ac_entries c). e_readers (key_entry c k) = 0}"

lemma cache_reserve_Some:
  assumes "distinct ks" and "set ks = dom (ac_entries c)" and "cache_reserve ks key n c = (Some gone, c')"
  obtains evict where "gone = map (ptr c) evict" and "distinct evict" and "set evict \<subseteq> idle_keys c"
    and "ac_used c - sum_list (map (size_of c) gone) + n \<le> ac_max c"
    and "c' = c\<lparr>ac_entries := (\<lambda>k. if k \<in> set evict then None else ac_entries c k),
       ac_heap := (\<lambda>i. if i \<in> ptr c ` set evict then Some ((entry_at c i)\<lparr>e_stale := True\<rparr>)
         else ac_heap c i), ac_used := ac_used c + n\<rparr>"
    and "\<exists>rest. candidates ks key c = evict @ rest"
proof (cases "ac_used c + n \<le> ac_max c")
  case True
  with assms(3) show ?thesis
    by (intro that [of "[]"]) (auto simp: cache_reserve_def)
next
  case False
  obtain freed evict where ev: "evict_loop (\<lambda>k. e_size (key_entry c k)) (ac_used c) n (ac_max c) 0
      (candidates ks key c) = (freed, evict)" by fastforce
  from evict_loop_prefix [OF this] obtain rest where cand: "candidates ks key c = evict @ rest"
    and freed: "freed = sum_list (map (\<lambda>k. e_size (key_entry c k)) evict)" by auto
  have d: "distinct evict" using candidates_distinct [OF assms(1), of key c] cand by simp
  have sub: "set evict \<subseteq> idle_keys c"
    using candidates_set [of ks key c] cand assms(2) by (auto simp: idle_keys_def)
  have "map (size_of c) (map (ptr c) evict) = map (\<lambda>k. e_size (key_entry c k)) evict"
    by (simp add: size_of_def key_entry_def ptr_def)
  then have fr: "freed = sum_list (map (size_of c) (map (ptr c) evict))" by (simp only: freed)
  from assms(3) False ev have le: "ac_used c - freed + n \<le> ac_max c"
    by (auto simp: cache_reserve_def split: if_splits prod.splits)
  with assms(3) False ev have "gone = map (ptr c) evict"
    and "c' = c\<lparr>ac_entries := (\<lambda>k. if k \<in> set evict then None else ac_entries c k),
       ac_heap := (\<lambda>i. if i \<in> ptr c ` set evict then Some ((entry_at c i)\<lparr>e_stale := True\<rparr>)
         else ac_heap c i), ac_used := ac_used c + n\<rparr>"
    by (auto simp: cache_reserve_def retire_all_eq [OF d])
  with d sub le fr cand show ?thesis by (intro that) auto
qed

lemma cache_reserve_None:
  assumes "set ks = dom (ac_entries c)" and "distinct ks"
    and "\<And>k. k \<in> idle_keys c \<Longrightarrow> 0 \<le> e_size (key_entry c k)"
  shows "fst (cache_reserve ks key n c) = None \<longleftrightarrow>
    ac_used c + n > ac_max c \<and>
    ac_used c - (\<Sum>k \<in> idle_keys c. e_size (key_entry c k)) + n > ac_max c"
proof -
  let ?sz = "\<lambda>k. e_size (key_entry c k)"
  obtain freed evict where ev: "evict_loop ?sz (ac_used c) n (ac_max c) 0 (candidates ks key c) = (freed, evict)"
    by fastforce
  from evict_loop_prefix [OF this] obtain rest where cand: "candidates ks key c = evict @ rest"
    and freed: "freed = sum_list (map ?sz evict)"
    and all: "ac_used c - freed + n > ac_max c \<longrightarrow> rest = []" by auto
  have dc: "distinct (candidates ks key c)" by (rule candidates_distinct [OF assms(2)])
  have tot: "(\<Sum>k \<in> idle_keys c. ?sz k) = sum_list (map ?sz (candidates ks key c))"
  proof -
    have "idle_keys c = set (candidates ks key c)" using assms(1) by (simp add: idle_keys_def)
    then show ?thesis using sum.distinct_set_conv_list [OF dc, of ?sz] by simp
  qed
  have "0 \<le> sum_list (map ?sz rest)"
  proof (rule sum_list_nonneg)
    fix x assume "x \<in> set (map ?sz rest)"
    then obtain k where "k \<in> set (candidates ks key c)" "x = ?sz k" using cand by auto
    then show "0 \<le> x" using assms(1,3) by (auto simp: idle_keys_def)
  qed
  then show ?thesis
    using ev all cand freed tot
    by (auto simp: cache_reserve_def split: prod.splits)
qed

end
