(* ===== verification/Lint_Pool.thy ===== *)
theory Lint_Pool
  imports Lint_Prelude
begin

text \<open>
  \<open>internal/serve/pool.go\<close>: lint admission.  \<open>slots\<close> is a buffered channel of capacity
  \<open>workers\<close>, modelled by how many values it holds; a send to a full channel blocks, which
  is the value \<open>None\<close>.  \<open>acquire\<close> and \<open>release\<close> are two atomic steps each, as in the code:
  the channel operation and the mutex-protected table of holds.
\<close>

record pool =
  po_workers :: int             \<comment> \<open>capacity of \<open>slots\<close>\<close>
  po_slots :: int               \<comment> \<open>values in \<open>slots\<close>\<close>
  po_limit :: int
  po_admitted :: int
  po_nextID :: nat
  po_holds :: "(nat \<times> int) list"

definition newPool :: "int \<Rightarrow> int \<Rightarrow> pool" where
  "newPool workers queue =
     \<lparr>po_workers = workers, po_slots = 0, po_limit = workers + queue, po_admitted = 0,
      po_nextID = 0, po_holds = []\<rparr>"

definition admit :: "pool \<Rightarrow> pool \<times> bool" where
  "admit p =
     (if po_admitted p \<ge> po_limit p then (p, False)
      else (p\<lparr>po_admitted := po_admitted p + 1\<rparr>, True))"

definition pool_leave :: "pool \<Rightarrow> pool" where
  "pool_leave p = p\<lparr>po_admitted := po_admitted p - 1\<rparr>"

definition slot_send :: "pool \<Rightarrow> pool option" where
  "slot_send p =
     (if po_slots p \<ge> po_workers p then None else Some (p\<lparr>po_slots := po_slots p + 1\<rparr>))"

definition slot_receive :: "pool \<Rightarrow> pool" where
  "slot_receive p = p\<lparr>po_slots := po_slots p - 1\<rparr>"

definition hold_enter :: "int \<Rightarrow> pool \<Rightarrow> nat \<times> pool" where
  "hold_enter now p =
     (let i = po_nextID p + 1
      in (i, p\<lparr>po_nextID := i,
               po_holds := (i, now) # filter (\<lambda>h. fst h \<noteq> i) (po_holds p)\<rparr>))"

definition hold_delete :: "nat \<Rightarrow> pool \<Rightarrow> pool" where
  "hold_delete i p = p\<lparr>po_holds := filter (\<lambda>h. fst h \<noteq> i) (po_holds p)\<rparr>"

definition longestHold :: "int \<Rightarrow> pool \<Rightarrow> int" where
  "longestHold now p = longest_since now (po_holds p)"

section \<open>The counting limits\<close>

definition admit_opt :: "pool \<Rightarrow> pool option" where
  "admit_opt p = (case admit p of (q, ok) \<Rightarrow> if ok then Some q else None)"

interpretation admission: bounded_counter admit_opt pool_leave po_admitted po_limit
  by unfold_locales (auto simp: admit_opt_def admit_def pool_leave_def split: if_splits)

interpretation slots: bounded_counter slot_send slot_receive po_slots po_workers
  by unfold_locales (auto simp: slot_send_def slot_receive_def split: if_splits)

definition holds_fresh :: "pool \<Rightarrow> bool" where
  "holds_fresh p \<longleftrightarrow> (\<forall>h \<in> set (po_holds p). fst h \<le> po_nextID p) \<and> distinct (map fst (po_holds p))"

interpretation holds: hold_table hold_enter hold_delete po_holds holds_fresh longestHold
proof unfold_locales
  show "po_holds t = (i, now) # po_holds s"
    if "holds_fresh s" and "hold_enter now s = (i, t)" for now s i t
    using that by (fastforce simp: hold_enter_def Let_def holds_fresh_def filter_id_conv)
qed (force simp: hold_enter_def hold_delete_def Let_def holds_fresh_def longestHold_def
    distinct_map_filter_fst)+

section \<open>Concurrent lints\<close>

text \<open>
  Each lint request is a thread (\<open>handleLint\<close>); a step is one atomic action of one thread.
  The worker slot is taken after admission, its hold is entered after that, and the
  deferred \<open>release\<close> and \<open>leave\<close> undo them in the opposite order.
\<close>

datatype lint_pc =
    Admitted            \<comment> \<open>admitted, waiting for a slot\<close>
  | Slotted             \<comment> \<open>slot taken, hold not yet entered\<close>
  | Running nat         \<comment> \<open>its hold id\<close>
  | Unheld              \<comment> \<open>hold deleted, slot not yet freed\<close>
  | Freed               \<comment> \<open>slot freed or never taken, about to leave\<close>
  | Gone

record pool_sys =
  ps_pool :: pool
  ps_pcs :: "lint_pc list"

inductive pool_step :: "pool_sys \<Rightarrow> pool_sys \<Rightarrow> bool" where
  ps_admit: "admit (ps_pool s) = (p, True) \<Longrightarrow>
    pool_step s (s\<lparr>ps_pool := p, ps_pcs := ps_pcs s @ [Admitted]\<rparr>)"
| ps_refuse: "admit (ps_pool s) = (p, False) \<Longrightarrow> pool_step s (s\<lparr>ps_pool := p\<rparr>)"
| ps_slot: "i < length (ps_pcs s) \<Longrightarrow> ps_pcs s ! i = Admitted \<Longrightarrow> slot_send (ps_pool s) = Some p \<Longrightarrow>
    pool_step s (s\<lparr>ps_pool := p, ps_pcs := (ps_pcs s)[i := Slotted]\<rparr>)"
| ps_cancel: "i < length (ps_pcs s) \<Longrightarrow> ps_pcs s ! i = Admitted \<Longrightarrow>
    pool_step s (s\<lparr>ps_pcs := (ps_pcs s)[i := Freed]\<rparr>)"
| ps_hold: "i < length (ps_pcs s) \<Longrightarrow> ps_pcs s ! i = Slotted \<Longrightarrow> hold_enter now (ps_pool s) = (h, p) \<Longrightarrow>
    pool_step s (s\<lparr>ps_pool := p, ps_pcs := (ps_pcs s)[i := Running h]\<rparr>)"
| ps_unhold: "i < length (ps_pcs s) \<Longrightarrow> ps_pcs s ! i = Running h \<Longrightarrow>
    pool_step s (s\<lparr>ps_pool := hold_delete h (ps_pool s), ps_pcs := (ps_pcs s)[i := Unheld]\<rparr>)"
| ps_free: "i < length (ps_pcs s) \<Longrightarrow> ps_pcs s ! i = Unheld \<Longrightarrow>
    pool_step s (s\<lparr>ps_pool := slot_receive (ps_pool s), ps_pcs := (ps_pcs s)[i := Freed]\<rparr>)"
| ps_leave: "i < length (ps_pcs s) \<Longrightarrow> ps_pcs s ! i = Freed \<Longrightarrow>
    pool_step s (s\<lparr>ps_pool := pool_leave (ps_pool s), ps_pcs := (ps_pcs s)[i := Gone]\<rparr>)"

inductive_cases pool_stepE: "pool_step s t"

definition has_slot :: "lint_pc \<Rightarrow> bool" where
  "has_slot pc \<longleftrightarrow> pc \<noteq> Admitted \<and> pc \<noteq> Freed \<and> pc \<noteq> Gone"

definition is_running :: "lint_pc \<Rightarrow> bool" where
  "is_running pc \<longleftrightarrow> (\<exists>h. pc = Running h)"

text \<open>The counters are exact and within their limits.\<close>

definition pool_inv :: "int \<Rightarrow> int \<Rightarrow> pool_sys \<Rightarrow> bool" where
  "pool_inv workers queue s \<longleftrightarrow>
     po_workers (ps_pool s) = workers \<and> po_limit (ps_pool s) = workers + queue \<and>
     po_admitted (ps_pool s) = tally (\<lambda>pc. pc \<noteq> Gone) (ps_pcs s) \<and>
     po_slots (ps_pool s) = tally has_slot (ps_pcs s) \<and>
     po_admitted (ps_pool s) \<le> workers + queue \<and> po_slots (ps_pool s) \<le> workers"

lemmas pool_ops_defs = admit_def pool_leave_def slot_send_def slot_receive_def hold_enter_def
  hold_delete_def Let_def

lemma pool_inv_step: "pool_inv w q s \<Longrightarrow> pool_step s t \<Longrightarrow> pool_inv w q t"
  by (erule pool_stepE)
    (auto simp: pool_inv_def pool_ops_defs tally_update has_slot_def split: if_splits)

definition pool_start :: "int \<Rightarrow> int \<Rightarrow> pool_sys \<Rightarrow> bool" where
  "pool_start w q s \<longleftrightarrow> 0 \<le> w \<and> 0 \<le> q \<and> s = \<lparr>ps_pool = newPool w q, ps_pcs = []\<rparr>"

lemma pool_inv_start: "pool_start w q s \<Longrightarrow> pool_inv w q s"
  by (auto simp: pool_start_def newPool_def pool_inv_def)

interpretation lints: transition_system "pool_start w q" pool_step "pool_inv w q"
  by unfold_locales (auto intro: pool_inv_start pool_inv_step)

text \<open>When every lint has left, the pool is as it was made.\<close>

lemma pool_drained:
  assumes "pool_start w q s" and "reaches pool_step s t" and "set (ps_pcs t) \<subseteq> {Gone}"
  shows "po_admitted (ps_pool t) = 0" and "po_slots (ps_pool t) = 0"
proof -
  have "pool_inv w q t" using lints.inv_reachable assms(1,2) by blast
  moreover have "filter (\<lambda>pc. pc \<noteq> Gone) (ps_pcs t) = []" "filter has_slot (ps_pcs t) = []"
    using assms(3) by (auto simp: filter_empty_conv has_slot_def)
  ultimately show "po_admitted (ps_pool t) = 0" and "po_slots (ps_pool t) = 0"
    by (auto simp: pool_inv_def tally_def)
qed

end
