(* ===== verification/Readiness.thy ===== *)
theory Readiness
  imports Lint_Prelude
begin

text \<open>
  \<open>internal/serve/readiness.go\<close>: startup and terminal failure.  Every method holds the
  mutex for its whole body, so each is one atomic step of the tracker.
\<close>

definition componentWorkers :: string where "componentWorkers = ''workers''"
definition componentJavac :: string where "componentJavac = ''javac''"
definition componentGoWarmup :: string where "componentGoWarmup = ''go-warmup''"

record readiness =
  rd_pending :: "string list"
  rd_ready :: bool
  rd_failed :: string

definition newReadiness :: "string list \<Rightarrow> readiness" where
  "newReadiness components = \<lparr>rd_pending = components, rd_ready = False, rd_failed = []\<rparr>"

definition rd_done :: "string \<Rightarrow> readiness \<Rightarrow> readiness" where
  "rd_done component r =
     (let r' = r\<lparr>rd_pending := filter (\<lambda>c. c \<noteq> component) (rd_pending r)\<rparr>
      in if rd_pending r' = [] then r'\<lparr>rd_ready := True\<rparr> else r')"

definition rd_fail :: "string \<Rightarrow> readiness \<Rightarrow> readiness" where
  "rd_fail reason r = (if rd_failed r = [] then r\<lparr>rd_failed := reason\<rparr> else r)"

definition isReady :: "readiness \<Rightarrow> bool" where
  "isReady r = rd_ready r"

definition snapshot :: "readiness \<Rightarrow> string \<times> string list \<times> string" where
  "snapshot r =
     (if rd_failed r \<noteq> [] then (''failed'', [], rd_failed r)
      else if rd_ready r then (''ready'', [], [])
      else (''starting'', rd_pending r, []))"

inductive rd_step :: "readiness \<Rightarrow> readiness \<Rightarrow> bool" where
  step_done: "rd_step r (rd_done c r)"
| step_fail: "reason \<noteq> [] \<Longrightarrow> rd_step r (rd_fail reason r)"

inductive_cases rd_stepE: "rd_step r r'"

section \<open>Ready and failed are permanent\<close>

lemma rd_ready_mono: "reaches rd_step r r' \<Longrightarrow> isReady r \<Longrightarrow> isReady r'"
  by (induction rule: reaches.induct)
    (auto elim!: rd_stepE simp: isReady_def rd_done_def rd_fail_def Let_def)

lemma rd_failed_mono: "reaches rd_step r r' \<Longrightarrow> rd_failed r \<noteq> [] \<Longrightarrow> rd_failed r' = rd_failed r"
  by (induction rule: reaches.induct)
    (auto elim!: rd_stepE simp: rd_done_def rd_fail_def Let_def)

text \<open>The tracker is ready exactly when nothing is pending.\<close>

definition rd_inv :: "readiness \<Rightarrow> bool" where
  "rd_inv r \<longleftrightarrow> (rd_ready r \<longleftrightarrow> rd_pending r = [])"

lemma rd_inv_done [step_inv]: "rd_inv r \<Longrightarrow> rd_inv (rd_done c r)"
  by (auto simp: rd_inv_def rd_done_def Let_def)

lemma rd_inv_fail [step_inv]: "rd_inv r \<Longrightarrow> rd_inv (rd_fail s r)"
  by (simp add: rd_inv_def rd_fail_def)

lemma rd_inv_step: "rd_inv r \<Longrightarrow> rd_step r r' \<Longrightarrow> rd_inv r'"
  by (erule rd_stepE) (auto intro: step_inv)

lemma rd_inv_new: "cs \<noteq> [] \<Longrightarrow> rd_inv (newReadiness cs)"
  by (simp add: rd_inv_def newReadiness_def)

interpretation rd: transition_system
  "\<lambda>r. \<exists>cs. cs \<noteq> [] \<and> r = newReadiness cs" rd_step rd_inv
  by unfold_locales (auto intro: rd_inv_new rd_inv_step)

text \<open>After a run of \<open>done\<close> calls, in any order and with any repetitions.\<close>

definition rd_done_all :: "string list \<Rightarrow> readiness \<Rightarrow> readiness" where
  "rd_done_all ds r = foldl (\<lambda>r c. rd_done c r) r ds"

lemma rd_done_all_reaches: "reaches rd_step r (rd_done_all ds r)"
proof -
  have "reaches rd_step r r' \<Longrightarrow> reaches rd_step r (foldl (\<lambda>r c. rd_done c r) r' ds)" for r'
    by (induction ds arbitrary: r') (auto intro: reaches_step step_done)
  then show ?thesis by (simp add: rd_done_all_def reaches_refl)
qed

lemma rd_done_pending [simp]: "rd_pending (rd_done c r) = filter (\<lambda>x. x \<noteq> c) (rd_pending r)"
  by (simp add: rd_done_def Let_def)

lemma rd_done_all_pending:
  "rd_pending (rd_done_all ds r) = filter (\<lambda>c. c \<notin> set ds) (rd_pending r)"
  unfolding rd_done_all_def
  by (induction ds arbitrary: r) (auto simp: conj_commute)

lemma rd_done_all_failed: "rd_failed (rd_done_all ds r) = rd_failed r"
  unfolding rd_done_all_def by (induction ds arbitrary: r) (auto simp: rd_done_def Let_def)

lemma rd_ready_iff:
  assumes "cs \<noteq> []"
  shows "isReady (rd_done_all ds (newReadiness cs)) \<longleftrightarrow> set cs \<subseteq> set ds"
proof -
  have "rd_inv (rd_done_all ds (newReadiness cs))"
    by (rule rd.inv_reachable [OF _ rd_done_all_reaches]) (use assms in blast)
  then show ?thesis
    by (auto simp: rd_inv_def isReady_def rd_done_all_pending newReadiness_def filter_empty_conv)
qed

end
