(* ===== verification/Redaction.thy ===== *)
theory Redaction
  imports Json_Text Serve_Config
begin

text \<open>
  \<open>internal/serve/server.go\<close>: the shared token (\<open>readToken\<close>, \<open>tokenOK\<close>) and its removal
  from everything the server writes (\<open>redact\<close>).  \<open>readToken\<close> also
  takes the JSON-escaped form of the token, where that differs.
\<close>

definition redacted_mark :: string where
  "redacted_mark = ''[redacted]''"

text \<open>\<open>bytes.ReplaceAll\<close> for a non-empty \<open>t\<close>: occurrences from the left, not overlapping.\<close>

function replace_all :: "string \<Rightarrow> string \<Rightarrow> string \<Rightarrow> string" where
  "replace_all t r [] = []"
| "replace_all t r (c # s) =
     (if t \<noteq> [] \<and> has_prefix (c # s) t then r @ replace_all t r (drop (length t) (c # s))
      else c # replace_all t r s)"
  by pat_completeness auto
termination
  by (relation "measure (\<lambda>(t, r, s). length s)") (auto simp: neq_Nil_conv)

definition redact :: "string list \<Rightarrow> string \<Rightarrow> string" where
  "redact redacts b = foldl (\<lambda>b t. replace_all t redacted_mark b) b redacts"

section \<open>Reading the token\<close>

datatype token_error = TokenUnreadable | TokenShort

definition token_space :: "char set" where
  "token_space = {CHR '' '', CHR 0x09, CHR 0x0D, CHR 0x0A, CHR 0x0B, CHR 0x0C}"

text \<open>The JSON literal of a string, as \<open>Encode\<close> writes it with its newline.\<close>

definition encode_string :: "string \<Rightarrow> string" where
  "encode_string s = marshal (JStr s)"

definition readToken :: "string option \<Rightarrow> token_error + (string \<times> string list)" where
  "readToken content =
     (case content of
        None \<Rightarrow> Inl TokenUnreadable
      | Some b \<Rightarrow>
          (let token = trim_right token_space b
           in if length token < minTokenBytes then Inl TokenShort
              else (let esc = trim_suffix (trim_space (encode_string token)) [CHR 0x22]
                    in if length esc > 1 \<and> tl esc \<noteq> token then Inr (token, [token, tl esc])
                       else Inr (token, [token]))))"

definition tokenOK :: "string \<Rightarrow> string \<Rightarrow> bool" where
  "tokenOK token got \<longleftrightarrow> length token > 0 \<and> got = token"

lemma readToken_Inr:
  assumes "readToken content = Inr (token, redacts)"
  shows "minTokenBytes \<le> length token" and "token \<in> set redacts" and "[] \<notin> set redacts"
proof -
  from assms obtain b where b: "content = Some b" by (cases content) (auto simp: readToken_def)
  define tok esc where "tok = trim_right token_space b"
    and "esc = trim_suffix (trim_space (encode_string tok)) [CHR 0x22]"
  have r: "\<not> length tok < minTokenBytes" "token = tok"
    "redacts = (if length esc > 1 \<and> tl esc \<noteq> tok then [tok, tl esc] else [tok])"
    using assms unfolding b readToken_def Let_def option.case tok_def [symmetric] esc_def [symmetric]
    by (auto split: if_splits)
  have "length esc > 1 \<Longrightarrow> tl esc \<noteq> []" by (cases esc) auto
  then show "minTokenBytes \<le> length token" "token \<in> set redacts" "[] \<notin> set redacts"
    using r by (auto simp: minTokenBytes_def)
qed

section \<open>Nothing secret is left\<close>

text \<open>
  A secret that holds no square bracket and is longer than the mark cannot be put together
  from the mark and what surrounds it.
\<close>

definition bracket_free :: "string \<Rightarrow> bool" where
  "bracket_free t \<longleftrightarrow> CHR ''['' \<notin> set t \<and> CHR '']'' \<notin> set t"

lemma replace_all_prefix:
  "CHR ''['' \<notin> set u \<Longrightarrow> prefix u (replace_all t redacted_mark s) \<Longrightarrow> prefix u s"
proof (induction t "redacted_mark" s arbitrary: u rule: replace_all.induct)
  case (2 t c s)
  show ?case
  proof (cases "t \<noteq> [] \<and> has_prefix (c # s) t")
    case True
    with "2.prems" have "prefix u (redacted_mark @ replace_all t redacted_mark (drop (length t) (c # s)))"
      by simp
    then have "u = []" using "2.prems"(1) by (cases u) (auto simp: redacted_mark_def)
    then show ?thesis by simp
  next
    case False
    with "2.prems" have p: "prefix u (c # replace_all t redacted_mark s)" by auto
    show ?thesis
    proof (cases u)
      case (Cons d v)
      with p have "d = c" "prefix v (replace_all t redacted_mark s)" by auto
      with "2.hyps"(2) [OF False, of v] "2.prems"(1) Cons show ?thesis by auto
    qed simp
  qed
qed simp

lemma sublist_mark:
  assumes "sublist u (redacted_mark @ s)" and "CHR '']'' \<notin> set u" and "length redacted_mark < length u"
  shows "sublist u s"
proof -
  from assms(1) obtain p q where eq: "redacted_mark @ s = p @ u @ q" by (auto simp: sublist_def)
  show ?thesis
  proof (cases "length redacted_mark \<le> length p")
    case True
    have "s = drop (length redacted_mark) (redacted_mark @ s)" by simp
    also have "\<dots> = drop (length redacted_mark) p @ u @ q" using True by (simp add: eq)
    finally show ?thesis unfolding sublist_def by blast
  next
    case False
    have "(redacted_mark @ s) ! 9 = CHR '']''" by (simp add: redacted_mark_def)
    moreover have "length p \<le> 9" "9 < length p + length u"
      using False assms(3) by (auto simp: redacted_mark_def)
    then have "(p @ u @ q) ! 9 \<in> set u" by (simp add: nth_append) arith
    ultimately show ?thesis using assms(2) eq by simp
  qed
qed

lemma replace_all_keeps:
  assumes "bracket_free u" and "length redacted_mark < length u"
    and "sublist u (replace_all t redacted_mark s)"
  shows "sublist u s"
  using assms(3)
proof (induction t "redacted_mark" s rule: replace_all.induct)
  case (2 t c s)
  note b = assms(1) [unfolded bracket_free_def]
  show ?case
  proof (cases "t \<noteq> [] \<and> has_prefix (c # s) t")
    case True
    with "2.prems" have "sublist u (redacted_mark @ replace_all t redacted_mark (drop (length t) (c # s)))"
      by simp
    from sublist_mark [OF this] b assms(2) "2.hyps"(1) [OF True]
    have "sublist u (drop (length t) (c # s))" by auto
    then show ?thesis by (metis sublist_drop sublist_order.order_trans)
  next
    case False
    with "2.prems" have "sublist u (c # replace_all t redacted_mark s)" by auto
    then consider "prefix u (c # replace_all t redacted_mark s)" | "sublist u (replace_all t redacted_mark s)"
      by (auto simp: sublist_Cons_right)
    then show ?thesis
    proof cases
      case 1
      then have "prefix u (replace_all t redacted_mark (c # s))" using False by auto
      then have "prefix u (c # s)" using replace_all_prefix b by blast
      then show ?thesis by (rule prefix_imp_sublist)
    next
      case 2
      from "2.hyps"(2) [OF False this] show ?thesis by (auto simp: sublist_Cons_right)
    qed
  qed
qed (simp)

lemma replace_all_removes:
  assumes "bracket_free t" and "length redacted_mark < length t"
  shows "\<not> sublist t (replace_all t redacted_mark s)"
  using assms
proof (induction t "redacted_mark" s rule: replace_all.induct)
  case (1 t)
  then show ?case by auto
next
  case (2 t c s)
  note b = "2.prems"(1) [unfolded bracket_free_def]
  show ?case
  proof (cases "t \<noteq> [] \<and> has_prefix (c # s) t")
    case True
    from "2.hyps"(1) [OF True "2.prems"] sublist_mark b "2.prems"(2) True show ?thesis by auto
  next
    case False
    have "t \<noteq> []" using "2.prems"(2) by auto
    with False have "\<not> prefix t (c # s)" by (simp add: has_prefix_iff)
    then have "\<not> prefix t (replace_all t redacted_mark (c # s))" using replace_all_prefix b by blast
    with "2.hyps"(2) [OF False "2.prems"] False show ?thesis by (auto simp: sublist_Cons_right)
  qed
qed

lemma redact_removes:
  assumes "t \<in> set redacts" and "bracket_free t" and "length redacted_mark < length t"
  shows "\<not> sublist t (redact redacts b)"
  using assms(1)
proof (induction redacts rule: rev_induct)
  case (snoc r rs)
  have eq: "redact (rs @ [r]) b = replace_all r redacted_mark (redact rs b)" by (simp add: redact_def)
  show ?case
  proof (cases "t = r")
    case True
    then show ?thesis using replace_all_removes [OF assms(2,3)] by (simp add: eq)
  next
    case False
    with snoc have "\<not> sublist t (redact rs b)" by auto
    then show ?thesis unfolding eq using replace_all_keeps [OF assms(2,3)] by blast
  qed
qed simp

text \<open>Text without the secret is left alone.\<close>

lemma replace_all_id: "\<not> sublist t s \<Longrightarrow> replace_all t r s = s"
proof (induction t r s rule: replace_all.induct)
  case (2 t r c s)
  then have "\<not> has_prefix (c # s) t" by (auto simp: has_prefix_iff)
  with 2 show ?case by (auto simp: sublist_Cons_right)
qed simp

lemma redact_id: "\<forall>t \<in> set redacts. \<not> sublist t b \<Longrightarrow> redact redacts b = b"
  by (induction redacts rule: rev_induct) (auto simp: redact_def replace_all_id)

text \<open>The brackets matter: a secret that starts with one is rebuilt from the mark.\<close>

lemma redact_rebuilds:
  "sublist (CHR '']'' # u) (redact [CHR '']'' # u] (CHR '']'' # u @ u))"
proof -
  have "replace_all (CHR '']'' # u) redacted_mark (CHR '']'' # u @ u) =
      redacted_mark @ replace_all (CHR '']'' # u) redacted_mark u"
    by (simp add: has_prefix_iff)
  moreover have "replace_all (CHR '']'' # u) redacted_mark u = u"
    by (rule replace_all_id) (auto dest: sublist_length_le)
  ultimately have "redact [CHR '']'' # u] (CHR '']'' # u @ u) = redacted_mark @ u"
    unfolding redact_def by (simp del: replace_all.simps)
  also have "\<dots> = butlast redacted_mark @ (CHR '']'' # u) @ []"
    by (simp add: redacted_mark_def)
  finally show ?thesis unfolding sublist_def by blast
qed

end
