(* ===== verification/Lint_Handler.thy ===== *)
theory Lint_Handler
  imports Lint_Request Asset_Cache Lint_Pool Readiness Redaction Tool_Run Report_Json
begin

text \<open>
  \<open>internal/serve/lint.go\<close>: the lint endpoint from the body to the response (\<open>handleLint\<close>,
  \<open>lint\<close>, \<open>lintFailed\<close>), run by one request.  The record \<open>lint_io\<close> holds what its surroundings
  answer: the connection, the clock, the file system, the tool and the javac worker.  The
  pool and the cache are the state; an abandoned request is \<open>NoAnswer\<close>.
\<close>

section \<open>Surroundings\<close>

text \<open>What \<open>Checker.Check\<close> returns (\<open>internal/javacworker\<close>).\<close>

datatype check_error =
    ErrTimeout | ErrRestarted | ErrFailed | ErrClosed | ErrNoFiles | CheckCtx ctx_error

record check_output =
  co_stdout :: string
  co_stderr :: string
  co_code :: int

record check_request =
  cq_release :: string
  cq_dir :: string
  cq_files :: "string list"

record lint_server =
  ls_linters :: "string \<rightharpoonup> linter"
  ls_toolOf :: "string \<Rightarrow> string"
  ls_redacts :: "string list"
  ls_checker :: bool                             \<comment> \<open>\<open>s.checker != nil\<close>\<close>

record lint_io =
  li_body :: "body_error + string"
  li_gone_reading :: bool                        \<comment> \<open>\<open>r.Context().Err() != nil\<close>\<close>
  li_queue :: "ctx_error option"                 \<comment> \<open>ctx ended before a slot was taken\<close>
  li_workspace :: "fs_error + string"
  li_copy :: "fs_error option"
  li_write :: "fs_error option"
  li_ctx :: "ctx_error option"                   \<comment> \<open>before the tool is started\<close>
  li_tool :: "linter \<Rightarrow> string list \<Rightarrow> run_options \<Rightarrow> tool_exit"
  li_check :: "check_request \<Rightarrow> check_error + check_output"
  li_ctx_after :: "ctx_error option"             \<comment> \<open>once the lint is over\<close>
  li_gone_after :: bool
  li_now :: int

datatype lint_failure =
    Refused lint_error
  | CtxEnded ctx_error
  | CheckFailed check_error
  | NoRelease string
  | ToolFailure run_failure

datatype lint_answer =
    NoAnswer
  | AnswerError lint_error
  | AnswerReport string

section \<open>The lint itself\<close>

definition setupFailed :: lint_error where
  "setupFailed = lint_error 500 ''workspace_setup_failed''"

text \<open>The asset set is copied under a reader count, released before the tool runs.\<close>

definition lint_assets ::
  "lint_io \<Rightarrow> lint_job \<Rightarrow> asset_cache \<Rightarrow> lint_failure option \<times> asset_cache" where
  "lint_assets io job c =
     (if jb_fingerprint job = [] then (None, c)
      else (case cache_acquire (jb_cacheKey job) (jb_fingerprint job) (li_now io) c of
          (None, c1) \<Rightarrow> (Some (Refused (lint_error 409 ''assets_required'')), c1)
        | (Some i, c1) \<Rightarrow>
            (case cache_release i c1 of
               (rm, c2) \<Rightarrow>
                 (map_option (\<lambda>_. Refused setupFailed) (li_copy io),
                  if rm then remove_entries [i] c2 else c2))))"

definition lint_javac ::
  "lint_server \<Rightarrow> lint_io \<Rightarrow> lint_job \<Rightarrow> string \<Rightarrow> lint_failure + report" where
  "lint_javac sv io job ws =
     (if \<not> ls_checker sv then Inl (CheckFailed ErrFailed)
      else (case l_release (jb_linter job) of
          None \<Rightarrow> Inl (NoRelease (l_language (jb_linter job)))
        | Some rel \<Rightarrow>
            (case li_check io \<lparr>cq_release = rel, cq_dir = ws, cq_files = [join_path ws (jb_filename job)]\<rparr> of
               Inl e \<Rightarrow> Inl (CheckFailed e)
             | Inr out \<Rightarrow>
                 (case l_parse (jb_linter job) (redact (ls_redacts sv) (co_stdout out))
                         (redact (ls_redacts sv) (co_stderr out)) (co_code out) of
                    Inl e \<Rightarrow> Inl (ToolFailure (ParseFailure e))
                  | Inr r \<Rightarrow> Inr (normalize_findings [jb_filename job] r)))))"

definition lint_options :: "lint_server \<Rightarrow> linter \<Rightarrow> string \<Rightarrow> run_options" where
  "lint_options sv l ws =
     \<lparr>o_dir = ws, o_env = Some (ScrubbedEnv l), o_max_output = 0,
      o_redact = Some (redact (ls_redacts sv))\<rparr>"

definition lint_tool ::
  "lint_server \<Rightarrow> lint_io \<Rightarrow> lint_job \<Rightarrow> string \<Rightarrow> lint_failure + report" where
  "lint_tool sv io job ws =
     (let l = jb_linter job; opts = lint_options sv l ws
      in case run_context l [jb_filename job] opts (li_tool io l [jb_filename job] opts) of
           Inl (CtxFailure e) \<Rightarrow> Inl (CtxEnded e)
         | Inl e \<Rightarrow> Inl (ToolFailure e)
         | Inr r \<Rightarrow> Inr r)"

definition lint ::
  "lint_server \<Rightarrow> lint_io \<Rightarrow> lint_job \<Rightarrow> asset_cache \<Rightarrow> (lint_failure + report) \<times> asset_cache" where
  "lint sv io job c =
     (case li_workspace io of
        Inl e \<Rightarrow> (Inl (Refused setupFailed), c)
      | Inr ws \<Rightarrow>
          (case lint_assets io job c of
             (Some e, c') \<Rightarrow> (Inl e, c')
           | (None, c') \<Rightarrow>
               (if li_write io \<noteq> None then Inl (Refused setupFailed)
                else (case li_ctx io of
                    Some e \<Rightarrow> Inl (CtxEnded e)
                  | None \<Rightarrow>
                      if ls_toolOf sv (l_language (jb_linter job)) = jc_ToolID
                      then lint_javac sv io job ws else lint_tool sv io job ws), c')))"

section \<open>The endpoint\<close>

definition lintFailed :: "bool \<Rightarrow> ctx_error option \<Rightarrow> lint_failure \<Rightarrow> lint_answer" where
  "lintFailed gone ctx err =
     (if gone then NoAnswer
      else AnswerError
        (case err of
           Refused e \<Rightarrow> e
         | _ \<Rightarrow>
             if err = CheckFailed ErrTimeout \<or> ctx = Some DeadlineExceeded
             then lint_error 504 ''timeout''
             else (case err of
                 CheckFailed e \<Rightarrow>
                   if e = ErrRestarted \<or> e = ErrFailed \<or> e = ErrClosed
                   then lint_error 503 ''linter_not_ready''
                   else lint_error 500 ''linter_execution_failed''
               | _ \<Rightarrow> lint_error 500 ''linter_execution_failed'')))"

text \<open>A report holds strings and integers only, which always encode.\<close>

definition answer_report :: "lint_server \<Rightarrow> lint_job \<Rightarrow> report \<Rightarrow> lint_answer" where
  "answer_report sv job r =
     (let out = marshal (report_json (capReport (jb_maxFindings job) r))
      in if length out > maxResponseBytes then AnswerError (lint_error 500 ''internal'')
         else AnswerReport (redact (ls_redacts sv) out))"

text \<open>\<open>None\<close> is a request that still waits for a slot.\<close>

definition handleLint ::
  "lint_server \<Rightarrow> lint_io \<Rightarrow> readiness \<Rightarrow> pool \<Rightarrow> asset_cache \<Rightarrow>
     (lint_answer \<times> pool \<times> asset_cache) option" where
  "handleLint sv io st p c =
     (case li_body io of
        Inl e \<Rightarrow>
          Some (if e = BodyDeadline then AnswerError (lint_error 504 ''timeout'')
                else if li_gone_reading io then NoAnswer
                else AnswerError (decodeError e), p, c)
      | Inr body \<Rightarrow>
          (case decodeLint (ls_linters sv) body of
             Inl e \<Rightarrow> Some (AnswerError e, p, c)
           | Inr job \<Rightarrow>
               if \<not> isReady st then Some (AnswerError (lint_error 503 ''linter_not_ready''), p, c)
               else (case admit p of
                   (p1, False) \<Rightarrow> Some (AnswerError (lint_error 503 ''busy''), p1, c)
                 | (p1, True) \<Rightarrow>
                     (case li_queue io of
                        Some e \<Rightarrow>
                          Some (lintFailed (li_gone_after io) (Some e) (CtxEnded e), pool_leave p1, c)
                      | None \<Rightarrow>
                          (case slot_send p1 of
                             None \<Rightarrow> None
                           | Some p2 \<Rightarrow>
                               (case hold_enter (li_now io) p2 of (h, p3) \<Rightarrow>
                                  (case lint sv io job c of (r, c') \<Rightarrow>
                                     Some (case r of
                                         Inl e \<Rightarrow> lintFailed (li_gone_after io) (li_ctx_after io) e
                                       | Inr rep \<Rightarrow> if li_gone_after io then NoAnswer
                                                     else answer_report sv job rep,
                                       pool_leave (slot_receive (hold_delete h p3)), c'))))))))"

section \<open>The pool is left as it was\<close>

lemma handleLint_pool:
  assumes "handleLint sv io st p c = Some (a, p', c')" and "holds_fresh p"
  shows "po_admitted p' = po_admitted p" and "po_slots p' = po_slots p" and "po_holds p' = po_holds p"
    and "po_limit p' = po_limit p" and "po_workers p' = po_workers p"
proof -
  have filt: "filter (\<lambda>h. fst h \<noteq> Suc (po_nextID p)) (po_holds p) = po_holds p"
    using assms(2) by (fastforce simp: holds_fresh_def filter_id_conv)
  show "po_admitted p' = po_admitted p" "po_slots p' = po_slots p" "po_holds p' = po_holds p"
    "po_limit p' = po_limit p" "po_workers p' = po_workers p"
    using assms(1)
    by (auto simp: handleLint_def admit_def slot_send_def hold_enter_def hold_delete_def
        slot_receive_def pool_leave_def Let_def filt
        split: sum.splits if_splits option.splits prod.splits)
qed

section \<open>The responses\<close>

definition lint_errors :: "lint_error list" where
  "lint_errors = request_errors @
     [lint_error 409 ''assets_required'', lint_error 500 ''workspace_setup_failed'',
      lint_error 500 ''linter_execution_failed'', lint_error 500 ''internal'',
      lint_error 503 ''linter_not_ready'', lint_error 503 ''busy'', lint_error 504 ''timeout'']"

lemma lint_error_codes:
  "(\<lambda>e. (le_status e, le_code e)) ` set lint_errors =
    {(400, ''bad_request''), (413, ''payload_too_large''), (422, ''unsupported_language''),
     (422, ''filename_invalid''), (409, ''assets_required''), (500, ''workspace_setup_failed''),
     (500, ''linter_execution_failed''), (500, ''internal''), (503, ''linter_not_ready''),
     (503, ''busy''), (504, ''timeout'')}"
  by (simp add: lint_errors_def request_errors_def lint_error_def badRequest_def)

lemma lint_assets_errors:
  "lint_assets io job c = (Some e, c') \<Longrightarrow>
     e = Refused (lint_error 409 ''assets_required'') \<or> e = Refused setupFailed"
  by (auto simp: lint_assets_def split: if_splits option.splits prod.splits)

lemma lint_refused:
  assumes "lint sv io job c = (Inl (Refused e), c')"
  shows "e \<in> set lint_errors"
proof -
  have sf: "setupFailed \<in> set lint_errors" and ar: "lint_error 409 ''assets_required'' \<in> set lint_errors"
    by (simp_all add: lint_errors_def setupFailed_def)
  have "lint_javac sv io job ws \<noteq> Inl (Refused e)" for ws
    by (auto simp: lint_javac_def split: if_splits option.splits sum.splits)
  moreover have "lint_tool sv io job ws \<noteq> Inl (Refused e)" for ws
    by (auto simp: lint_tool_def Let_def split: sum.splits run_failure.splits)
  ultimately show ?thesis
    using assms sf ar
    by (auto simp: lint_def split: sum.splits prod.splits option.splits if_splits
        dest!: lint_assets_errors)
qed

lemma lintFailed_errors:
  assumes "\<And>x. err = Refused x \<Longrightarrow> x \<in> set lint_errors" and "lintFailed gone ctx err = AnswerError e"
  shows "e \<in> set lint_errors"
  using assms by (auto simp: lintFailed_def lint_errors_def split: if_splits lint_failure.splits)

lemma handleLint_errors:
  assumes "handleLint sv io st p c = Some (AnswerError e, p', c')"
  shows "e \<in> set lint_errors"
proof (cases "li_body io")
  case (Inl b)
  with assms show ?thesis
    by (auto simp: handleLint_def decodeError_def badRequest_def lint_errors_def request_errors_def
        split: if_splits)
next
  case (Inr body)
  show ?thesis
  proof (cases "decodeLint (ls_linters sv) body")
    case e: (Inl x)
    with assms Inr have "e = x" by (simp add: handleLint_def)
    then show ?thesis using decodeLint_Inl [OF e] by (simp add: lint_errors_def)
  next
    case job: (Inr job)
    have busy: "lint_error 503 ''linter_not_ready'' \<in> set lint_errors"
      "lint_error 503 ''busy'' \<in> set lint_errors" by (simp_all add: lint_errors_def)
    from assms Inr job consider "e = lint_error 503 ''linter_not_ready''" | "e = lint_error 503 ''busy''"
      | q where "lintFailed (li_gone_after io) (Some q) (CtxEnded q) = AnswerError e"
      | x where "lint sv io job c = (Inl x, c')"
          "lintFailed (li_gone_after io) (li_ctx_after io) x = AnswerError e"
      | rep where "answer_report sv job rep = AnswerError e"
      by (auto simp: handleLint_def split: if_splits option.splits prod.splits sum.splits bool.splits)
    then show ?thesis
    proof cases
      case 3
      then show ?thesis by (rule lintFailed_errors [rotated]) simp
    next
      case 4
      then show ?thesis
        by (intro lintFailed_errors [OF _ 4(2)]) (use lint_refused 4(1) in blast)
    next
      case 5
      then show ?thesis
        by (auto simp: answer_report_def Let_def lint_errors_def split: if_splits)
    qed (use busy in auto)
  qed
qed

text \<open>A 200 response is the capped, marshalled, redacted report of an accepted job.\<close>

lemma handleLint_report:
  assumes "handleLint sv io st p c = Some (AnswerReport out, p', c')"
  obtains job rep doc where "job_ok (ls_linters sv) job" and "isReady st"
    and "lint sv io job c = (Inr rep, c')"
    and "doc = marshal (report_json (capReport (jb_maxFindings job) rep))"
    and "length doc \<le> maxResponseBytes" and "out = redact (ls_redacts sv) doc"
proof (cases "li_body io")
  case (Inl b)
  with assms show ?thesis by (auto simp: handleLint_def split: if_splits)
next
  case (Inr body)
  show ?thesis
  proof (cases "decodeLint (ls_linters sv) body")
    case (Inl e)
    with assms \<open>li_body io = Inr body\<close> show ?thesis by (simp add: handleLint_def)
  next
    case job: (Inr job)
    have nf: "lintFailed g x e \<noteq> AnswerReport out" for g x e by (simp add: lintFailed_def)
    from assms Inr job obtain rep where "isReady st" "lint sv io job c = (Inr rep, c')"
      "answer_report sv job rep = AnswerReport out"
      by (auto simp: handleLint_def nf split: if_splits option.splits prod.splits sum.splits bool.splits)
    then show ?thesis
      using decodeLint_Inr [OF job]
      by (auto simp: answer_report_def Let_def split: if_splits intro: that)
  qed
qed

section \<open>The cache is left as it was\<close>

lemma lint_assets_cache:
  assumes "\<And>k i. ac_entries c k = Some i \<Longrightarrow> \<exists>e. ac_heap c i = Some e \<and> \<not> e_stale e"
    and "lint_assets io job c = (r, c')"
  shows "ac_entries c' = ac_entries c" and "ac_used c' = ac_used c"
    and "e_readers (entry_at c' i) = e_readers (entry_at c i)"
    and "e_size (entry_at c' i) = e_size (entry_at c i)"
proof -
  have "ac_entries c' = ac_entries c \<and> ac_used c' = ac_used c \<and>
      e_readers (entry_at c' i) = e_readers (entry_at c i) \<and>
      e_size (entry_at c' i) = e_size (entry_at c i)"
  proof (cases "jb_fingerprint job = []")
    case False
    show ?thesis
    proof (cases "cache_acquire (jb_cacheKey job) (jb_fingerprint job) (li_now io) c")
      case (Pair mi c1)
      show ?thesis
      proof (cases mi)
        case None
        with Pair have "c1 = c"
          by (auto simp: cache_acquire_def Let_def split: option.splits if_splits)
        with assms(2) False Pair None show ?thesis by (auto simp: lint_assets_def)
      next
        case (Some j)
        with Pair obtain "ac_entries c (jb_cacheKey job) = Some j"
          and c1: "c1 = set_entry j ((entry_at c j)\<lparr>e_readers := e_readers (entry_at c j) + 1,
            e_lastUsed := li_now io\<rparr>) c"
          by (auto simp: cache_acquire_def Let_def split: option.splits if_splits)
        then have "\<not> e_stale (entry_at c j)" using assms(1) by (fastforce simp: entry_at_def)
        with assms(2) False Pair Some show ?thesis
          by (auto simp: lint_assets_def cache_release_def Let_def c1 set_entry_def entry_at_def)
      qed
    qed
  qed (use assms(2) in \<open>simp add: lint_assets_def\<close>)
  then show "ac_entries c' = ac_entries c" "ac_used c' = ac_used c"
    "e_readers (entry_at c' i) = e_readers (entry_at c i)"
    "e_size (entry_at c' i) = e_size (entry_at c i)" by auto
qed

section \<open>Reports meet the schema\<close>

context lint_driver
begin

lemma normalize_report:
  assumes "l_parse drv out err code = Inr r"
  shows "r_version (normalize_findings files r) = ReportVersion"
    and "r_language (normalize_findings files r) = l_language drv"
    and "list_all findings_good (findings_of (normalize_findings files r))"
proof -
  from parse_findings [OF assms] obtain fs where "r_findings r = Some fs" "list_all findings_good fs"
    by auto
  then show "list_all findings_good (findings_of (normalize_findings files r))"
    by (auto simp: normalize_findings_def findings_of_def list_all_iff good_path)
qed (use parse_header [OF assms] in \<open>simp_all add: normalize_findings_def\<close>)

lemma lint_report:
  assumes "jb_linter job = drv" and "lint sv io job c = (Inr r, c')"
  shows "r_version r = ReportVersion" and "r_language r = l_language drv"
    and "list_all findings_good (findings_of r)"
proof -
  from assms(2) obtain ws where "lint_javac sv io job ws = Inr r \<or> lint_tool sv io job ws = Inr r"
    by (auto simp: lint_def split: sum.splits prod.splits option.splits if_splits)
  then consider out err code r0 where "l_parse drv out err code = Inr r0"
      "r = normalize_findings [jb_filename job] r0"
    | opts te where "run_context drv [jb_filename job] opts te = Inr r"
    using assms(1)
    by (auto simp: lint_javac_def lint_tool_def Let_def
        split: if_splits option.splits sum.splits run_failure.splits)
  then have "r_version r = ReportVersion \<and> r_language r = l_language drv \<and>
      list_all findings_good (findings_of r)"
  proof cases
    case 1
    then show ?thesis using normalize_report by simp
  next
    case 2
    then show ?thesis using run_context_report by blast
  qed
  then show "r_version r = ReportVersion" "r_language r = l_language drv"
    "list_all findings_good (findings_of r)" by auto
qed

end

end
