(* ===== verification/Javac_Worker.thy ===== *)
theory Javac_Worker
  imports Javac_Process Lint_Handler
begin

text \<open>
  \<open>internal/javacworker/worker.go\<close>, the type \<open>Worker\<close>: its configuration, one call of
  \<open>Check\<close> (as the handlers see it), the slots and the table of requests on the JVM under
  concurrent calls, and the supervisor that starts, replaces and stops the JVM.
\<close>

section \<open>Configuration\<close>

definition JavaPath :: string where "JavaPath = ''/opt/java/bin/java''"
definition WorkerJar :: string where "WorkerJar = ''/opt/javac-worker.jar''"
definition WarmupFile :: string where "WarmupFile = ''/opt/javac-warmup/Warmup.java''"

definition DefaultArgv :: "int \<Rightarrow> string list" where
  "DefaultArgv threads =
     [JavaPath, ''-XX:+UseSerialGC'', ''-Xmx'' @ int_text (64 + 16 * threads) @ ''m'', ''-XX:-UsePerfData'',
      ''-jar'', WorkerJar, ''--threads'', int_text threads, ''--warmup'', WarmupFile]"

definition DefaultEnv :: "string list" where
  "DefaultEnv =
     [''PATH=/usr/local/go/bin:/usr/local/sbin:/usr/local/bin:/usr/sbin:/usr/bin:/sbin:/bin'',
      ''HOME=/tmp'', ''TMPDIR=/tmp'', ''LANG=C.UTF-8'']"

text \<open>Nil slices are \<open>None\<close>; a warm-up request whose files are nil is \<open>None\<close> as a whole.\<close>

record worker_config =
  wc_threads :: int
  wc_argv :: "string list option"
  wc_env :: "string list option"
  wc_dir :: string
  wc_warmup :: "wire_request option"
  wc_warmupTimeout :: int
  wc_backoff :: "int list option"
  wc_runBudget :: int
  wc_maxReplyBytes :: int

definition second :: int where "second = 1000000000"

definition worker_start :: "worker_config \<Rightarrow> string + worker_config" where
  "worker_start c =
     (if wc_threads c < 1
      then Inl (''javac worker: threads must be at least 1, got '' @ int_text (wc_threads c))
      else Inr (c\<lparr>
        wc_argv := (if wc_argv c = None then Some (DefaultArgv (wc_threads c)) else wc_argv c),
        wc_env := (if wc_env c = None then Some DefaultEnv else wc_env c),
        wc_dir := (if wc_dir c = [] then ''/'' else wc_dir c),
        wc_warmup := (if wc_warmup c = None
                      then Some \<lparr>wq_release = ''11'', wq_dir = path_dir WarmupFile, wq_files = [WarmupFile]\<rparr>
                      else wc_warmup c),
        wc_warmupTimeout := (if wc_warmupTimeout c \<le> 0 then 60 * second else wc_warmupTimeout c),
        wc_backoff := (if wc_backoff c = None then Some [second, 2 * second] else wc_backoff c),
        wc_runBudget := (if wc_runBudget c \<le> 0 then 8 * second else wc_runBudget c),
        wc_maxReplyBytes := (if wc_maxReplyBytes c \<le> 0 then 33554432 else wc_maxReplyBytes c)\<rparr>))"

definition worker_config_ok :: "worker_config \<Rightarrow> bool" where
  "worker_config_ok c \<longleftrightarrow>
     1 \<le> wc_threads c \<and> wc_argv c \<noteq> None \<and> wc_env c \<noteq> None \<and> wc_dir c \<noteq> [] \<and> wc_warmup c \<noteq> None \<and>
     0 < wc_warmupTimeout c \<and> wc_backoff c \<noteq> None \<and> 0 < wc_runBudget c \<and> 0 < wc_maxReplyBytes c"

lemma worker_start_iff: "is_ok (worker_start c) \<longleftrightarrow> 1 \<le> wc_threads c"
  by (simp add: worker_start_def)

lemma worker_start_ok:
  assumes "worker_start c = Inr d"
  shows "worker_config_ok d"
proof -
  have "1 \<le> wc_threads c" using assms worker_start_iff [of c] by simp
  then have "worker_config_ok (projr (worker_start c))"
    by (simp add: worker_start_def worker_config_ok_def second_def)
  with assms show ?thesis by simp
qed

text \<open>A complete configuration is used as it is.\<close>

lemma worker_start_keeps: "worker_config_ok c \<Longrightarrow> worker_start c = Inr c"
  by (simp add: worker_start_def worker_config_ok_def)

section \<open>One call of Check\<close>

definition ctxErr :: "ctx_error \<Rightarrow> check_error" where
  "ctxErr e = (if e = DeadlineExceeded then ErrTimeout else CheckCtx e)"

text \<open>\<open>closed\<close> is the worker's flag at that time.\<close>

fun worker_output :: "bool \<Rightarrow> chan_result \<Rightarrow> check_error + check_output" where
  "worker_output closed Restarted = Inl (if closed then ErrClosed else ErrRestarted)"
| "worker_output closed (Replied (ReplyError e)) =
     Inr \<lparr>co_stdout = [], co_stderr = e, co_code = 1\<rparr>"
| "worker_output closed (Replied (ReplyReport j)) =
     Inr \<lparr>co_stdout = j, co_stderr = [], co_code = 0\<rparr>"

datatype wait_event = EvReply chan_result | EvBudget | EvDeadline

text \<open>
  \<open>wait\<close>: the result and whether the request is settled; \<open>raced\<close> is what the second, non-blocking
  receive finds (in \<open>poison\<close>, or after the deadline).
\<close>

definition worker_wait ::
  "bool \<Rightarrow> wait_event \<Rightarrow> chan_result option \<Rightarrow> (check_error + check_output) \<times> bool" where
  "worker_wait closed ev raced =
     (case ev of
        EvReply r \<Rightarrow> (worker_output closed r, True)
      | EvBudget \<Rightarrow> (case raced of Some r \<Rightarrow> (worker_output closed r, True) | None \<Rightarrow> (Inl ErrTimeout, True))
      | EvDeadline \<Rightarrow>
          (case raced of Some r \<Rightarrow> (worker_output closed r, True) | None \<Rightarrow> (Inl ErrTimeout, False)))"

text \<open>What one turn of \<open>await\<close> reads under the mutex.\<close>

record await_view =
  av_closed :: bool
  av_failed :: bool
  av_alive :: bool              \<comment> \<open>\<open>current\<close> is set and not dead\<close>

text \<open>\<open>None\<close>: still waiting after the views given.  The context may end the wait after them.\<close>

fun await_loop :: "await_view list \<Rightarrow> ctx_error option \<Rightarrow> check_error option option" where
  "await_loop [] e = map_option (\<lambda>e. Some (ctxErr e)) e"
| "await_loop (v # vs) e =
     (if av_closed v then Some (Some ErrClosed)
      else if av_failed v then Some (Some ErrFailed)
      else if av_alive v then Some None
      else await_loop vs e)"

record attempt =
  at_views :: "await_view list"
  at_ctx :: "ctx_error option"          \<comment> \<open>ends the wait in \<open>await\<close>\<close>
  at_expired :: "ctx_error option"      \<comment> \<open>\<open>ctx.Err()\<close> before the send\<close>
  at_sent :: bool
  at_event :: wait_event
  at_raced :: "chan_result option"
  at_closed :: bool

fun check_loop :: "attempt list \<Rightarrow> (check_error + check_output) option" where
  "check_loop [] = None"
| "check_loop (a # as) =
     (case await_loop (at_views a) (at_ctx a) of
        None \<Rightarrow> None
      | Some (Some e) \<Rightarrow> Some (Inl e)
      | Some None \<Rightarrow>
          (case at_expired a of
             Some e \<Rightarrow> Some (Inl (ctxErr e))
           | None \<Rightarrow>
               if \<not> at_sent a then check_loop as
               else Some (fst (worker_wait (at_closed a) (at_event a) (at_raced a)))))"

datatype sem_event = SemTaken | SemCtx ctx_error | SemQuit

definition worker_check ::
  "check_request \<Rightarrow> sem_event \<Rightarrow> attempt list \<Rightarrow> (check_error + check_output) option" where
  "worker_check req sem as =
     (if cq_files req = [] then Some (Inl ErrNoFiles)
      else (case sem of
          SemTaken \<Rightarrow> check_loop as
        | SemCtx e \<Rightarrow> Some (Inl (ctxErr e))
        | SemQuit \<Rightarrow> Some (Inl ErrClosed)))"

lemma ctxErr_deadline: "ctxErr e \<noteq> CheckCtx DeadlineExceeded"
  by (cases e) (auto simp: ctxErr_def)

lemma worker_wait_error:
  "fst (worker_wait c ev r) = Inl e \<Longrightarrow> e \<in> {ErrTimeout, ErrRestarted, ErrClosed}"
  by (cases ev; cases r; cases "the r"; cases ev)
    (auto simp: worker_wait_def split: if_splits elim!: worker_output.elims)

text \<open>An expired deadline is always ErrTimeout, and a restart is never reported without one.\<close>

lemma await_loop_error: "await_loop vs c = Some (Some e) \<Longrightarrow> e \<in> {ErrTimeout, ErrFailed, ErrClosed, CheckCtx Canceled}"
proof (induction vs c rule: await_loop.induct)
  case (1 c)
  then show ?case by (cases "the c") (auto simp: ctxErr_def)
qed (auto split: if_splits)

lemma check_failures:
  assumes "worker_check req sem as = Some (Inl e)"
  shows "e \<in> (if cq_files req = [] then {ErrNoFiles}
    else {ErrTimeout, ErrRestarted, ErrFailed, ErrClosed, CheckCtx Canceled})"
proof -
  have ctx: "ctxErr x \<in> {ErrTimeout, CheckCtx Canceled}" for x by (cases x) (auto simp: ctxErr_def)
  have "check_loop as = Some (Inl e) \<Longrightarrow>
      e \<in> {ErrTimeout, ErrRestarted, ErrFailed, ErrClosed, CheckCtx Canceled}" for as
  proof (induction as rule: check_loop.induct)
    case (2 a as)
    then show ?case
      using ctx await_loop_error [of "at_views a" "at_ctx a" e]
        worker_wait_error [of "at_closed a" "at_event a" "at_raced a" e]
      by (auto split: option.splits if_splits)
  qed simp
  with assms ctx show ?thesis by (auto simp: worker_check_def split: if_splits sem_event.splits)
qed

text \<open>Once sent, a request's outcome does not depend on cancellation: only a reply, the JVM's
  death, the budget or the deadline end it.\<close>

lemma sent_ignores_cancel:
  assumes "await_loop (at_views a) (at_ctx a) = Some None" and "at_expired a = None" and "at_sent a"
  shows "check_loop (a # as) = Some r \<Longrightarrow> r \<noteq> Inl (CheckCtx c)"
  using assms worker_wait_error [of "at_closed a" "at_event a" "at_raced a" "CheckCtx c"] by auto

end
