(* ===== verification/End_To_End.thy ===== *)
theory End_To_End
  imports Cobe_Cli Javac_Worker
begin

text \<open>
  What leaves the program as text, from one end to the other: the answer of a lint
  (\<open>lint_answer_document\<close>), a report on its way from the resident JVM to the driver
  (\<open>resident_reply\<close>), a request on its way to the JVM (\<open>request_read_back\<close>) and the documents of
  the command line (\<open>cli_report_document\<close>, \<open>manifest_document\<close>).
\<close>

section \<open>The answer of a lint\<close>

context lint_driver
begin

lemma lint_report:
  assumes "lint sv io job c = (Inr rep, c')" and "jb_linter job = drv"
  shows "r_version rep = ReportVersion" and "r_language rep = l_language drv"
    and "\<exists>fs. r_findings rep = Some fs \<and> list_all findings_good fs"
proof -
  have parsed: "r_version rep = ReportVersion \<and> r_language rep = l_language drv \<and>
      (\<exists>fs. r_findings rep = Some fs \<and> list_all findings_good fs)"
    if p: "l_parse drv out err code = Inr r" and r: "rep = normalize_findings files r" for out err code r files
    using parse_header [OF p] parse_findings [OF p]
    by (auto simp: r normalize_findings_def list_all_iff good_path)
  have "r_version rep = ReportVersion \<and> r_language rep = l_language drv \<and>
      (\<exists>fs. r_findings rep = Some fs \<and> list_all findings_good fs)"
    using assms parsed run_context_report
    by (fastforce simp: lint_def lint_javac_def lint_tool_def Let_def findings_of_def
        split: sum.splits prod.splits option.splits if_splits run_failure.splits)
  then show "r_version rep = ReportVersion" "r_language rep = l_language drv"
    "\<exists>fs. r_findings rep = Some fs \<and> list_all findings_good fs" by blast+
qed

end

lemma capReport_typed:
  assumes "r_version r = ReportVersion" and "list_all severity_ok (findings_of r)"
  shows "report_typed (json_clean (report_json (capReport m r)))"
proof (rule report_json_typed)
  show "r_version (capReport m r) = ReportVersion" using assms(1) by (simp add: capReport_def Let_def)
  show "list_all severity_ok (map (\<lambda>f. f\<lparr>f_message := truncateUTF8 (f_message f) maxMessageBytes\<rparr>)
      (if int (length (findings_of r)) > m then take (nat m) (findings_of r) else findings_of r))"
    using assms(2) by (auto simp: list_all_iff severity_ok_def dest: in_set_takeD)
qed (simp add: capReport_def Let_def)

lemma lint_answer_document:
  assumes "handleLint sv io st p c = Some (AnswerReport out, p', c')"
    and "\<And>l. l \<in> ran (ls_linters sv) \<Longrightarrow> lint_driver l severity_ok"
  shows "\<exists>job rep doc. job_ok (ls_linters sv) job \<and> lint sv io job c = (Inr rep, c') \<and>
    out = redact (ls_redacts sv) doc \<and> length doc \<le> maxResponseBytes \<and>
    json_parse doc = Some (json_clean (report_json (capReport (jb_maxFindings job) rep))) \<and>
    report_typed (json_clean (report_json (capReport (jb_maxFindings job) rep)))"
proof -
  from assms(1) obtain job rep doc where job: "job_ok (ls_linters sv) job" and
    lint: "lint sv io job c = (Inr rep, c')" and
    doc: "doc = marshal (report_json (capReport (jb_maxFindings job) rep))" "length doc \<le> maxResponseBytes"
      "out = redact (ls_redacts sv) doc"
    by (rule handleLint_report)
  have "lint_driver (jb_linter job) severity_ok" using job assms(2) by (simp add: job_ok_def)
  from lint_driver.lint_report [OF this lint refl]
  have "report_typed (json_clean (report_json (capReport (jb_maxFindings job) rep)))"
    by (auto intro!: capReport_typed simp: findings_of_def)
  then show ?thesis using job lint doc json_parse_marshal(1) [OF report_json_wf] by blast
qed

section \<open>A report from the resident JVM\<close>

lemma json_text_null: "json_wf d j \<Longrightarrow> json_text html j = ''null'' \<longleftrightarrow> j = JNull"
proof (cases j)
  case (JNum l)
  assume "json_wf d j"
  with JNum have "parse_number l = Some (l, [])" by simp
  from parse_number_head [OF this] JNum show ?thesis by (auto simp: digit_def)
qed (auto simp: json_string_def)

lemma json_text_not_Nil: "json_wf d j \<Longrightarrow> json_text html j \<noteq> []"
  using compact.layout_head [of d j html 0] by (auto simp: json_layout_compact)

lemma dec_uint64_json: "i < 2 ^ 64 \<Longrightarrow> dec_uint64 cur (int_json (int i)) = Some (int i)"
proof -
  assume "i < 2 ^ 64"
  then have "int i < 2 ^ 64" by (metis of_nat_less_iff of_nat_numeral of_nat_power)
  then show ?thesis
    by (simp add: dec_uint64_def int_json_def int_text_def nat_digits_digits digits_value_nat)
qed

text \<open>The lines the worker prints: a report or an error.\<close>

definition report_line :: "nat \<Rightarrow> json \<Rightarrow> json" where
  "report_line rid j = JObj [(''id'', int_json (int rid)), (''report'', j)]"

definition error_line :: "nat \<Rightarrow> string \<Rightarrow> json" where
  "error_line rid msg = JObj [(''id'', int_json (int rid)), (''error'', JStr msg)]"

lemma decode_report_line:
  assumes "0 < rid" and "rid < 2 ^ 64" and "json_wf (maxNestingDepth - 1) j" and "j \<noteq> JNull"
  shows "decode_reply (json_text html (report_line rid j)) = Some (rid, ReplyReport (json_text html j))"
proof -
  have wf: "json_wf maxNestingDepth (report_line rid j)"
    using assms(3) by (simp add: report_line_def maxNestingDepth_def)
  from json_parse_text [OF this, of html] raw_object_text [OF wf [unfolded report_line_def], of html]
  have "dec_reply_line (json_text html (report_line rid j)) =
      Some \<lparr>rl_id = int rid, rl_report = json_text html j, rl_error = None\<rparr>"
    using dec_uint64_json [OF assms(2)]
    by (simp add: dec_reply_line_def report_line_def set_reply_field_def field_of_exact zero_reply_line_def
        json_layout_compact del: json_text.simps)
  with assms show ?thesis
    by (simp add: decode_reply_def hasReport_def json_text_null json_text_not_Nil)
qed

lemma decode_error_line:
  assumes "0 < rid" and "rid < 2 ^ 64"
  shows "decode_reply (json_text html (error_line rid msg)) = Some (rid, ReplyError (utf8_clean msg))"
proof -
  have wf: "json_wf maxNestingDepth (error_line rid msg)"
    by (simp add: error_line_def maxNestingDepth_def)
  from json_parse_text [OF this, of html] raw_object_text [OF wf [unfolded error_line_def], of html]
  have "dec_reply_line (json_text html (error_line rid msg)) =
      Some \<lparr>rl_id = int rid, rl_report = [], rl_error = Some (utf8_clean msg)\<rparr>"
    using dec_uint64_json [OF assms(2)]
    by (simp add: dec_reply_line_def error_line_def set_reply_field_def field_of_exact zero_reply_line_def
        dec_ptr_def dec_string_def del: json_text.simps)
  with assms show ?thesis by (simp add: decode_reply_def hasReport_def)
qed

text \<open>The driver makes the same of a reply as of a one-shot run that prints the report or the error.\<close>

lemma resident_reply:
  assumes "0 < rid" and "rid < 2 ^ 64" and "json_wf (maxNestingDepth - 1) j" and "j \<noteq> JNull"
  shows "\<exists>r out. decode_reply (json_text html (report_line rid j)) = Some (rid, r) \<and>
    worker_output closed (Replied r) = Inr out \<and>
    jc_parse language (co_stdout out) (co_stderr out) (co_code out) = jc_parse language (marshal j) err 0"
proof -
  have wf: "json_wf maxNestingDepth j" using json_wf_mono [OF assms(3), of maxNestingDepth] by simp
  then have "json_parse (json_text html j) = json_parse (marshal j)"
    by (simp add: json_parse_text json_parse_marshal)
  then show ?thesis using decode_report_line [OF assms, of html] by (simp add: jc_parse_def)
qed

lemma resident_error:
  assumes "0 < rid" and "rid < 2 ^ 64" and "utf8_valid msg"
  shows "\<exists>r out. decode_reply (json_text html (error_line rid msg)) = Some (rid, r) \<and>
    worker_output closed (Replied r) = Inr out \<and>
    jc_parse language (co_stdout out) (co_stderr out) (co_code out) = jc_parse language stdout msg 1"
  using decode_error_line [OF assms(1,2), of html msg] assms(3) by (simp add: jc_parse_def utf8_valid_def)

section \<open>A request to the resident JVM\<close>

lemma request_read_back:
  assumes "utf8_valid (wq_release q)" and "utf8_valid (wq_dir q)" and "list_all utf8_valid (wq_files q)"
  shows "json_parse (json_text True (request_json rid q)) = Some (request_json rid q)"
proof -
  have "json_wf maxNestingDepth (request_json rid q)"
    by (auto simp: request_json_def maxNestingDepth_def parse_number_int)
  moreover have "map (json_clean \<circ> JStr) (wq_files q) = map JStr (wq_files q)"
    using assms(3) by (auto simp: list_all_iff utf8_valid_def)
  then have "json_clean (request_json rid q) = request_json rid q"
    using assms(1,2) by (simp add: request_json_def utf8_valid_def)
  ultimately show ?thesis using json_parse_text by simp
qed

section \<open>The documents of the command line\<close>

lemma cli_report_document:
  assumes "cr_stdout (cli_lint env k files) = Some text"
    and "\<And>l. l \<in> set (ce_all env) \<Longrightarrow> lint_driver l severity_ok"
  shows "\<exists>l r. l \<in> set (ce_all env) \<and> l_language l = k \<and> run_tool l files (ce_tool env l files) = Inr r \<and>
    json_parse text = Some (json_clean (report_json r)) \<and> report_typed (json_clean (report_json r)) \<and>
    (report_sized r \<longrightarrow> dec_report zero_report (json_clean (report_json r)) = Some (report_clean r))"
proof -
  from cli_lint_report [OF assms(1)] obtain l r where l: "l \<in> set (ce_all env)" "l_language l = k"
    and doc: "text = marshal_indent (report_json r)" and run: "run_tool l files (ce_tool env l files) = Inr r"
    by blast
  from run have run': "\<exists>opts. run_context l files opts (ce_tool env l files) = Inr r"
    by (auto simp: run_tool_def)
  have "report_typed (json_clean (report_json r))"
    using run' lint_driver.run_context_report(1,3,4) [OF assms(2) [OF l(1)]]
    by (metis (mono_tags, lifting) report_json_typed findings_of_def not_None_eq option.case(2))
  with l doc run show ?thesis
    using json_parse_marshal(2) [OF report_json_wf] dec_report_json by blast
qed

text \<open>A member of a document and an array of strings.\<close>

definition member :: "string \<Rightarrow> json \<Rightarrow> json option" where
  "member k j = (case j of JObj ms \<Rightarrow> map_of ms k | _ \<Rightarrow> None)"

fun json_strings :: "json list \<Rightarrow> string list option" where
  "json_strings [] = Some []"
| "json_strings (JStr s # js) = map_option ((#) s) (json_strings js)"
| "json_strings (_ # js) = None"

text \<open>The command that the manifest document \<open>text\<close> gives for a language.\<close>

definition advertised :: "string \<Rightarrow> string \<Rightarrow> string list option" where
  "advertised text k =
     Option.bind (json_parse text) (\<lambda>j.
     Option.bind (member ''languages'' j) (\<lambda>ls.
     Option.bind (member k ls) (\<lambda>e.
     Option.bind (member ''command'' e) (\<lambda>c. case c of JArr js \<Rightarrow> json_strings js | _ \<Rightarrow> None))))"

lemma manifest_members_wf:
  assumes "\<forall>m \<in> set extra. json_wf (maxNestingDepth - 1) (snd m)"
  shows "json_wf maxNestingDepth (JObj (manifest_members v ls @ extra))"
  using assms by (auto simp: manifest_members_def Let_def entry_json_def maxNestingDepth_def)

lemma map_of_pairs:
  "k \<in> set ks \<Longrightarrow> list_all utf8_valid ks \<Longrightarrow>
     map_of (map ((\<lambda>m. (utf8_clean (fst m), json_clean (snd m))) \<circ> (\<lambda>k. (k, f k))) ks) k =
       Some (json_clean (f k))"
  by (induction ks) (auto simp: utf8_valid_def)

lemma BinPath_clean [simp]: "utf8_clean BinPath = BinPath"
  by (rule utf8_clean_names) (simp add: BinPath_def)

lemma manifest_document:
  assumes "list_all (\<lambda>l. utf8_valid (l_language l)) ls" and "distinct (map l_language ls)" and "l \<in> set ls"
    and "json_parse doc = Some (json_clean (JObj (manifest_members v ls @ extra)))"
  shows "advertised doc (l_language l) = Some [BinPath, ''lint'', l_language l]"
proof -
  let ?f = "\<lambda>k. entry_json (the (md_languages (Build v ls) k))"
  have "json_clean (?f (l_language l)) =
      JObj [(''name'', JStr (utf8_clean (l_name l))),
        (''command'', JArr [JStr BinPath, JStr ''lint'', JStr (l_language l)])]"
    using Build_entry [OF assms(2,3)] assms(1,3) by (auto simp: entry_json_def list_all_iff utf8_valid_def)
  moreover have "list_all utf8_valid (sort (remdups (map l_language ls)))"
    using assms(1) by (auto simp: list_all_iff)
  ultimately show ?thesis
    using assms(3,4)
    by (simp add: advertised_def manifest_members_def Let_def member_def map_of_pairs)
qed

lemma cli_manifest_text:
  "cr_stdout (cli_run env [''manifest'']) = Some text \<longleftrightarrow>
     ce_stdout_ok env \<and> text = marshal_indent (JObj (manifest_members (ce_version env) (ce_all env)))"
  by (auto simp: cli_run_def emit_def cli_manifest_def)

lemma cli_manifest_document:
  assumes "list_all (\<lambda>l. utf8_valid (l_language l)) (ce_all env)" and "distinct (map l_language (ce_all env))"
    and "l \<in> set (ce_all env)" and "cr_stdout (cli_run env [''manifest'']) = Some doc"
  shows "advertised doc (l_language l) = Some [BinPath, ''lint'', l_language l]"
proof (rule manifest_document [OF assms(1-3)])
  show "json_parse doc = Some (json_clean (JObj (manifest_members (ce_version env) (ce_all env) @ [])))"
    using assms(4) json_parse_marshal(2) [OF manifest_members_wf [of "[]"]] unfolding cli_manifest_text by simp
qed

end
