(* ===== verification/Cache_System.thy ===== *)
theory Cache_System
  imports Asset_Cache
begin

text \<open>
  Lints and uploads sharing the asset cache (\<open>internal/serve/cache.go\<close>): every critical
  section of \<open>c.mu\<close> and every effect on the disk is a step of one thread, and the steps of
  all threads interleave freely.  \<open>cs_dirs\<close> are the entries whose directory is on disk,
  \<open>cs_counted\<close> those whose bytes are still in \<open>used\<close>; neither exists in the program.
\<close>

section \<open>Threads\<close>

text \<open>
  \<open>Removing m g a\<close> is inside \<open>remove\<close>: the entries \<open>g\<close> are still to be deleted, the directory
  of \<open>m\<close> is deleted but not yet subtracted, and \<open>a\<close> is what follows.  \<open>Staging\<close> carries the
  bytes reserved and the bytes written; \<open>Resume\<close> also the \<open>n\<close> bytes that \<open>reserve\<close> has counted
  but not returned yet.
\<close>

datatype after = Return | Resume string string int int int

datatype cache_pc =
    Reading nat
  | Removing "nat option" "nat list" after
  | Staging string string int int
  | Dropping int int
  | Dropped int
  | Finished

record cache_sys =
  cs_cache :: asset_cache
  cs_dirs :: "nat set"
  cs_counted :: "nat set"
  cs_pcs :: "cache_pc list"

definition move :: "nat \<Rightarrow> cache_pc \<Rightarrow> cache_sys \<Rightarrow> cache_sys" where
  "move j pc s = s\<lparr>cs_pcs := (cs_pcs s)[j := pc]\<rparr>"

definition at_pc :: "cache_sys \<Rightarrow> nat \<Rightarrow> cache_pc \<Rightarrow> bool" where
  "at_pc s j pc \<longleftrightarrow> j < length (cs_pcs s) \<and> cs_pcs s ! j = pc"

inductive cache_step :: "cache_sys \<Rightarrow> cache_sys \<Rightarrow> bool" where
  cs_acquire: "cache_acquire key fp now (cs_cache s) = (Some i, c) \<Longrightarrow>
    cache_step s (s\<lparr>cs_cache := c, cs_pcs := cs_pcs s @ [Reading i]\<rparr>)"
| cs_release: "at_pc s j (Reading i) \<Longrightarrow> cache_release i (cs_cache s) = (rm, c) \<Longrightarrow>
    cache_step s (move j (Removing None (if rm then [i] else []) Return) (s\<lparr>cs_cache := c\<rparr>))"
| cs_remove_all: "at_pc s j (Removing None (i # g) a) \<Longrightarrow>
    cache_step s (move j (Removing (Some i) g a) (s\<lparr>cs_dirs := cs_dirs s - {i}\<rparr>))"
| cs_subtract: "at_pc s j (Removing (Some i) g a) \<Longrightarrow>
    cache_step s (move j (Removing None g a)
      (s\<lparr>cs_cache := subtract_size i (cs_cache s), cs_counted := cs_counted s - {i}\<rparr>))"
| cs_removed: "at_pc s j (Removing None [] Return) \<Longrightarrow> cache_step s (move j Finished s)"
| cs_resume: "at_pc s j (Removing None [] (Resume key fp r w n)) \<Longrightarrow>
    cache_step s (move j (Staging key fp (r + n) w) s)"
| cs_put: "\<not> cache_holds key fp (cs_cache s) \<Longrightarrow>
    cache_step s (s\<lparr>cs_pcs := cs_pcs s @ [Staging key fp 0 0]\<rparr>)"
| cs_reserve: "at_pc s j (Staging key fp r w) \<Longrightarrow> 0 \<le> n \<Longrightarrow> n \<le> ac_max (cs_cache s) \<Longrightarrow>
    distinct ks \<Longrightarrow> set ks = dom (ac_entries (cs_cache s)) \<Longrightarrow>
    cache_reserve ks key n (cs_cache s) = (Some gone, c) \<Longrightarrow>
    cache_step s (move j (Removing None gone (Resume key fp r w n)) (s\<lparr>cs_cache := c\<rparr>))"
| cs_write: "at_pc s j (Staging key fp r w) \<Longrightarrow> 0 \<le> m \<Longrightarrow> w + m \<le> r \<Longrightarrow>
    cache_step s (move j (Staging key fp r (w + m)) s)"
| cs_fail: "at_pc s j (Staging key fp r w) \<Longrightarrow> cache_step s (move j (Dropping r w) s)"
| cs_install: "at_pc s j (Staging key fp r w) \<Longrightarrow>
    cache_install key fp final now w r (cs_cache s) = (gone, c) \<Longrightarrow>
    cache_step s (move j (Removing None gone Return)
      (s\<lparr>cs_cache := c, cs_dirs := insert (ac_next (cs_cache s)) (cs_dirs s),
         cs_counted := insert (ac_next (cs_cache s)) (cs_counted s)\<rparr>))"
| cs_drop: "at_pc s j (Dropping r w) \<Longrightarrow> cache_step s (move j (Dropped r) s)"
| cs_unreserve: "at_pc s j (Dropped r) \<Longrightarrow>
    cache_step s (move j Finished (s\<lparr>cs_cache := unreserve r (cs_cache s)\<rparr>))"

inductive_cases cache_stepE: "cache_step s t"

section \<open>Who holds what\<close>

fun reads :: "nat \<Rightarrow> cache_pc \<Rightarrow> int" where
  "reads i (Reading k) = (if k = i then 1 else 0)"
| "reads i _ = 0"

fun owns :: "nat \<Rightarrow> cache_pc \<Rightarrow> int" where
  "owns i (Removing m g a) = int (count_list g i) + (if m = Some i then 1 else 0)"
| "owns i _ = 0"

fun reserved_by :: "cache_pc \<Rightarrow> int" where
  "reserved_by (Removing m g (Resume key fp r w n)) = r + n"
| "reserved_by (Staging key fp r w) = r"
| "reserved_by (Dropping r w) = r"
| "reserved_by (Dropped r) = r"
| "reserved_by _ = 0"

fun written_by :: "cache_pc \<Rightarrow> int" where
  "written_by (Removing m g (Resume key fp r w n)) = w"
| "written_by (Staging key fp r w) = w"
| "written_by (Dropping r w) = w"
| "written_by _ = 0"

text \<open>Bytes that \<open>reserve\<close> has counted while the entries it evicts are still being removed.\<close>

fun slack_of :: "(nat \<Rightarrow> int) \<Rightarrow> cache_pc \<Rightarrow> int" where
  "slack_of sz (Removing m g (Resume key fp r w n)) =
     min (sum_list (map sz g) + (case m of None \<Rightarrow> 0 | Some i \<Rightarrow> sz i)) n"
| "slack_of sz _ = 0"

fun pc_ok :: "int \<Rightarrow> cache_pc \<Rightarrow> bool" where
  "pc_ok M (Removing m g (Resume key fp r w n)) \<longleftrightarrow> 0 \<le> w \<and> w \<le> r \<and> 0 \<le> n \<and> n \<le> M"
| "pc_ok M (Staging key fp r w) \<longleftrightarrow> 0 \<le> w \<and> w \<le> r"
| "pc_ok M (Dropping r w) \<longleftrightarrow> 0 \<le> w \<and> w \<le> r"
| "pc_ok M (Dropped r) \<longleftrightarrow> 0 \<le> r"
| "pc_ok M _ \<longleftrightarrow> True"

definition readers_of :: "cache_sys \<Rightarrow> nat \<Rightarrow> int" where
  "readers_of s i = total (reads i) (cs_pcs s)"

definition owners_of :: "cache_sys \<Rightarrow> nat \<Rightarrow> int" where
  "owners_of s i = total (owns i) (cs_pcs s)"

definition disk_bytes :: "cache_sys \<Rightarrow> int" where
  "disk_bytes s = sum (size_of (cs_cache s)) (cs_dirs s) + total written_by (cs_pcs s)"

lemma reads_nonneg [simp]: "0 \<le> reads i pc" by (cases pc) auto
lemma owns_nonneg [simp]: "0 \<le> owns i pc" by (cases pc) auto

section \<open>The invariants\<close>

text \<open>
  Per entry \<open>i\<close>: \<open>e_readers\<close> is the number of lints reading it, it is in the map exactly while
  not stale, at most one thread is removing it, and while it can be read it is on disk.
\<close>

definition entry_inv :: "cache_sys \<Rightarrow> nat \<Rightarrow> bool" where
  "entry_inv s i \<longleftrightarrow>
     (case ac_heap (cs_cache s) i of
        None \<Rightarrow> readers_of s i = 0 \<and> owners_of s i = 0 \<and> i \<notin> cs_counted s \<and> i \<notin> cs_dirs s \<and>
          i \<notin> ran (ac_entries (cs_cache s))
      | Some e \<Rightarrow>
          i < ac_next (cs_cache s) \<and> 0 \<le> e_size e \<and> e_readers e = readers_of s i \<and> owners_of s i \<le> 1 \<and>
          (e_stale e \<longleftrightarrow> i \<notin> ran (ac_entries (cs_cache s))) \<and>
          (i \<in> cs_dirs s \<longrightarrow> i \<in> cs_counted s) \<and>
          (owners_of s i = 0 \<longrightarrow> (i \<in> cs_dirs s \<longleftrightarrow> \<not> e_stale e \<or> e_readers e \<noteq> 0) \<and>
             (i \<in> cs_counted s \<longleftrightarrow> \<not> e_stale e \<or> e_readers e \<noteq> 0)) \<and>
          (owners_of s i \<noteq> 0 \<longrightarrow> e_stale e \<and> e_readers e = 0 \<and> i \<in> cs_counted s))"

definition removing_inv :: "nat set \<Rightarrow> cache_pc \<Rightarrow> bool" where
  "removing_inv dirs pc \<longleftrightarrow>
     (\<forall>m g a. pc = Removing m g a \<longrightarrow> set g \<subseteq> dirs \<and> (\<forall>i. m = Some i \<longrightarrow> i \<notin> dirs))"

definition struct_inv :: "cache_sys \<Rightarrow> bool" where
  "struct_inv s \<longleftrightarrow>
     (\<forall>i. entry_inv s i) \<and> inj_on (ac_entries (cs_cache s)) (dom (ac_entries (cs_cache s))) \<and>
     finite (cs_counted s) \<and> (\<forall>pc \<in> set (cs_pcs s). removing_inv (cs_dirs s) pc)"

definition budget_inv :: "cache_sys \<Rightarrow> bool" where
  "budget_inv s \<longleftrightarrow>
     ac_used (cs_cache s) = sum (size_of (cs_cache s)) (cs_counted s) + total reserved_by (cs_pcs s) \<and>
     ac_used (cs_cache s) \<le> ac_max (cs_cache s) + total (slack_of (size_of (cs_cache s))) (cs_pcs s) \<and>
     (\<forall>pc \<in> set (cs_pcs s). pc_ok (ac_max (cs_cache s)) pc)"

section \<open>Every step keeps the structure\<close>

lemma move_simps [simp]:
  "cs_cache (move j pc s) = cs_cache s" "cs_dirs (move j pc s) = cs_dirs s"
  "cs_counted (move j pc s) = cs_counted s" "cs_pcs (move j pc s) = (cs_pcs s)[j := pc]"
  by (auto simp: move_def)

lemma readers_move:
  "at_pc s j old \<Longrightarrow> cs_pcs t = (cs_pcs s)[j := new] \<Longrightarrow>
     readers_of t i = readers_of s i - reads i old + reads i new"
  by (auto simp: readers_of_def at_pc_def total_update)

lemma owners_move:
  "at_pc s j old \<Longrightarrow> cs_pcs t = (cs_pcs s)[j := new] \<Longrightarrow>
     owners_of t i = owners_of s i - owns i old + owns i new"
  by (auto simp: owners_of_def at_pc_def total_update)

lemma readers_append: "cs_pcs t = cs_pcs s @ [pc] \<Longrightarrow> readers_of t i = readers_of s i + reads i pc"
  by (simp add: readers_of_def)

lemma owners_append: "cs_pcs t = cs_pcs s @ [pc] \<Longrightarrow> owners_of t i = owners_of s i + owns i pc"
  by (simp add: owners_of_def)

lemma owners_other:
  assumes "at_pc s j old" and "k < length (cs_pcs s)" and "k \<noteq> j"
  shows "owns i old + owns i (cs_pcs s ! k) \<le> owners_of s i"
proof -
  have "owners_of s i = total (owns i) ((cs_pcs s)[j := Finished]) + owns i old"
    using assms(1) by (auto simp: owners_of_def at_pc_def total_update)
  moreover have "owns i ((cs_pcs s)[j := Finished] ! k) \<le> total (owns i) ((cs_pcs s)[j := Finished])"
    using assms(2) by (intro total_member) auto
  ultimately show ?thesis using assms(3) by simp
qed

lemma owners_self: "at_pc s j old \<Longrightarrow> owns i old \<le> owners_of s i"
  unfolding owners_of_def at_pc_def using total_member [of "owns i" j "cs_pcs s"] by auto

lemma readers_self: "at_pc s j old \<Longrightarrow> reads i old \<le> readers_of s i"
  unfolding readers_of_def at_pc_def using total_member [of "reads i" j "cs_pcs s"] by auto

lemma owners_nonneg: "0 \<le> owners_of s i"
  unfolding owners_of_def by (rule total_nonneg) simp

lemma owners_le1:
  assumes "struct_inv s"
  shows "owners_of s i \<le> 1"
proof -
  have "entry_inv s i" using assms by (simp add: struct_inv_def)
  then show ?thesis by (auto simp: entry_inv_def split: option.splits)
qed

lemma removing_other:
  assumes inv: "struct_inv s" and at: "at_pc s j old" and new: "removing_inv D pc"
    and keep: "\<And>i. i \<in> cs_dirs s \<Longrightarrow> i \<notin> D \<Longrightarrow> 0 < owns i old"
      "\<And>i. i \<in> D \<Longrightarrow> i \<notin> cs_dirs s \<Longrightarrow> owners_of s i = 0"
  shows "\<forall>q \<in> set ((cs_pcs s)[j := pc]). removing_inv D q"
proof
  fix q assume "q \<in> set ((cs_pcs s)[j := pc])"
  then obtain k where k: "k < length (cs_pcs s)" "q = (cs_pcs s)[j := pc] ! k"
    by (auto simp: in_set_conv_nth)
  show "removing_inv D q"
  proof (cases "k = j")
    case True
    with k new at show ?thesis by (simp add: at_pc_def)
  next
    case False
    with k have q: "q = cs_pcs s ! k" by simp
    then have r: "removing_inv (cs_dirs s) q" using inv k by (auto simp: struct_inv_def)
    have o: "0 < owns i old \<Longrightarrow> owns i q = 0" for i
      using owners_other [OF at k(1) False, of i] owners_le1 [OF inv, of i] owns_nonneg [of i q]
        owns_nonneg [of i old] unfolding q by linarith
    have z: "owners_of s i = 0 \<Longrightarrow> owns i q = 0" for i
      using owners_other [OF at k(1) False, of i] owns_nonneg [of i q] owns_nonneg [of i old]
      unfolding q by linarith
    show ?thesis
      unfolding removing_inv_def
    proof (intro allI impI conjI)
      fix m g a assume pc: "q = Removing m g a"
      show "set g \<subseteq> D"
      proof
        fix i assume i: "i \<in> set g"
        then have "owns i q \<noteq> 0" by (simp add: pc count_list_0_iff)
        with o keep(1) i r show "i \<in> D" by (auto simp: removing_inv_def pc)
      qed
      fix i assume "m = Some i"
      then have "owns i q \<noteq> 0" "i \<notin> cs_dirs s" using r by (auto simp: pc removing_inv_def)
      with z keep(2) show "i \<notin> D" by blast
    qed
  qed
qed

text \<open>A step that leaves the entries and who holds them alone.\<close>

lemma struct_inv_same:
  assumes "struct_inv s" and "ac_heap (cs_cache t) = ac_heap (cs_cache s)"
    and "ac_entries (cs_cache t) = ac_entries (cs_cache s)" and "ac_next (cs_cache t) = ac_next (cs_cache s)"
    and "cs_dirs t = cs_dirs s" and "cs_counted t = cs_counted s"
    and "\<And>i. readers_of t i = readers_of s i" and "\<And>i. owners_of t i = owners_of s i"
    and "\<forall>pc \<in> set (cs_pcs t). removing_inv (cs_dirs s) pc"
  shows "struct_inv t"
proof -
  have "entry_inv t i \<longleftrightarrow> entry_inv s i" for i
    unfolding entry_inv_def assms(2-8) ..
  then show ?thesis using assms(1-5,6,9) by (simp add: struct_inv_def)
qed

lemma removing_at: "struct_inv s \<Longrightarrow> at_pc s j pc \<Longrightarrow> removing_inv (cs_dirs s) pc"
  unfolding struct_inv_def at_pc_def by (metis nth_mem)

lemma struct_inv_quiet:
  assumes inv: "struct_inv s" and at: "at_pc s j old" and pcs: "cs_pcs t = (cs_pcs s)[j := new]"
    and rd: "\<And>i. reads i new = reads i old" and ow: "\<And>i. owns i new = owns i old"
    and rm: "removing_inv (cs_dirs s) new"
    and "ac_heap (cs_cache t) = ac_heap (cs_cache s)"
    and "ac_entries (cs_cache t) = ac_entries (cs_cache s)" and "ac_next (cs_cache t) = ac_next (cs_cache s)"
    and "cs_dirs t = cs_dirs s" and "cs_counted t = cs_counted s"
  shows "struct_inv t"
proof (rule struct_inv_same [OF inv])
  show "\<forall>pc \<in> set (cs_pcs t). removing_inv (cs_dirs s) pc"
    unfolding pcs by (rule removing_other [OF inv at rm]) auto
qed (use assms readers_move [OF at pcs] owners_move [OF at pcs] in auto)

lemma entry_invD: "struct_inv s \<Longrightarrow> entry_inv s i"
  by (simp add: struct_inv_def)

lemma struct_inv_remove_all:
  assumes inv: "struct_inv s" and at: "at_pc s j (Removing None (i # g) a)"
  shows "struct_inv (move j (Removing (Some i) g a) (s\<lparr>cs_dirs := cs_dirs s - {i}\<rparr>))" (is "struct_inv ?t")
proof -
  have "owns i (Removing None (i # g) a) \<le> 1" using owners_self [OF at] owners_le1 [OF inv]
    by (rule order_trans)
  then have ig: "i \<notin> set g" by (auto simp: count_list_0_iff)
  have own: "owners_of s i = 1"
    using owners_self [OF at, of i] owners_le1 [OF inv, of i] by (simp add: ig)
  have pcs: "cs_pcs ?t = (cs_pcs s)[j := Removing (Some i) g a]" by simp
  have counts: "readers_of ?t k = readers_of s k" "owners_of ?t k = owners_of s k" for k
    using readers_move [OF at pcs, of k] owners_move [OF at pcs, of k] by (auto simp: ig)
  have "removing_inv (cs_dirs s) (Removing None (i # g) a)"
    using inv at by (rule removing_at)
  then have rm: "removing_inv (cs_dirs s - {i}) (Removing (Some i) g a)"
    using ig by (auto simp: removing_inv_def)
  have "\<forall>pc \<in> set ((cs_pcs s)[j := Removing (Some i) g a]). removing_inv (cs_dirs s - {i}) pc"
    by (rule removing_other [OF inv at rm]) (auto simp: ig)
  then have "\<forall>pc \<in> set (cs_pcs ?t). removing_inv (cs_dirs ?t) pc" by simp
  moreover have "entry_inv ?t k" for k
    using entry_invD [OF inv, of k] own counts [of k]
    by (auto simp: entry_inv_def split: option.splits)
  ultimately show ?thesis using inv by (simp add: struct_inv_def)
qed

lemma struct_inv_subtract:
  assumes inv: "struct_inv s" and at: "at_pc s j (Removing (Some i) g a)"
  shows "struct_inv (move j (Removing None g a)
    (s\<lparr>cs_cache := subtract_size i (cs_cache s), cs_counted := cs_counted s - {i}\<rparr>))" (is "struct_inv ?t")
proof -
  have "owns i (Removing (Some i) g a) \<le> 1" using owners_self [OF at] owners_le1 [OF inv]
    by (rule order_trans)
  then have ig: "i \<notin> set g" by (auto simp: count_list_0_iff)
  have own: "owners_of s i = 1"
    using owners_self [OF at, of i] owners_le1 [OF inv, of i] by (simp add: ig)
  have pcs: "cs_pcs ?t = (cs_pcs s)[j := Removing None g a]" by simp
  have counts: "readers_of ?t k = readers_of s k" "owners_of ?t k = owners_of s k - (if k = i then 1 else 0)" for k
    using readers_move [OF at pcs, of k] owners_move [OF at pcs, of k] by auto
  have rm: "removing_inv (cs_dirs s) (Removing (Some i) g a)"
    using inv at by (rule removing_at)
  then have nd: "i \<notin> cs_dirs s" by (simp add: removing_inv_def)
  have rm': "removing_inv (cs_dirs s) (Removing None g a)" using rm by (simp add: removing_inv_def)
  have "\<forall>pc \<in> set ((cs_pcs s)[j := Removing None g a]). removing_inv (cs_dirs s) pc"
    by (rule removing_other [OF inv at rm']) auto
  then have "\<forall>pc \<in> set (cs_pcs ?t). removing_inv (cs_dirs ?t) pc" by simp
  moreover have "entry_inv ?t k" for k
    using entry_invD [OF inv, of k] own counts [of k] nd
    by (cases "k = i") (auto simp: entry_inv_def subtract_size_def split: option.splits)
  ultimately show ?thesis using inv by (simp add: struct_inv_def subtract_size_def)
qed

lemma map_inj_iff: "inj_on m (dom m) \<longleftrightarrow> (\<forall>k k' i. m k = Some i \<and> m k' = Some i \<longrightarrow> k = k')"
  unfolding inj_on_def dom_def by fastforce

lemma ran_replace:
  assumes "inj_on m (dom m)" and "m k = Some x"
  shows "ran (m(k \<mapsto> y)) = insert y (ran m - {x})"
proof (rule equalityI)
  show "ran (m(k \<mapsto> y)) \<subseteq> insert y (ran m - {x})"
    using assms unfolding map_inj_iff by (auto simp: ran_def)
  show "insert y (ran m - {x}) \<subseteq> ran (m(k \<mapsto> y))"
  proof
    fix z assume "z \<in> insert y (ran m - {x})"
    then consider "z = y" | a where "m a = Some z" "z \<noteq> x" by (auto simp: ran_def)
    then show "z \<in> ran (m(k \<mapsto> y))"
    proof cases
      case 1
      then show ?thesis by (intro ranI [of _ k]) simp
    next
      case 2
      then show ?thesis using assms(2) by (intro ranI [of _ a]) auto
    qed
  qed
qed

lemma mapped_entry:
  assumes "struct_inv s" and "ac_entries (cs_cache s) key = Some i"
  obtains e where "ac_heap (cs_cache s) i = Some e" and "entry_at (cs_cache s) i = e"
    and "\<not> e_stale e" and "i \<in> cs_dirs s" and "i \<in> cs_counted s" and "owners_of s i = 0"
    and "i < ac_next (cs_cache s)" and "e_readers e = readers_of s i" and "0 \<le> e_size e"
proof -
  have ran: "i \<in> ran (ac_entries (cs_cache s))" using assms(2) by (auto simp: ran_def)
  from entry_invD [OF assms(1), of i] ran show ?thesis
    by (cases "ac_heap (cs_cache s) i") (auto simp: entry_inv_def entry_at_def intro!: that)
qed

lemma struct_inv_acquire:
  assumes inv: "struct_inv s" and ac: "cache_acquire key fp now (cs_cache s) = (Some i, c)"
  shows "struct_inv (s\<lparr>cs_cache := c, cs_pcs := cs_pcs s @ [Reading i]\<rparr>)" (is "struct_inv ?t")
proof -
  from ac have ent: "ac_entries (cs_cache s) key = Some i"
    and c: "c = set_entry i ((entry_at (cs_cache s) i)\<lparr>e_readers := e_readers (entry_at (cs_cache s) i) + 1,
      e_lastUsed := now\<rparr>) (cs_cache s)"
    by (auto simp: cache_acquire_def Let_def split: option.splits if_splits)
  from mapped_entry [OF inv ent] obtain e where e: "ac_heap (cs_cache s) i = Some e"
    "entry_at (cs_cache s) i = e" "\<not> e_stale e" "i \<in> cs_dirs s" "i \<in> cs_counted s" "owners_of s i = 0" .
  have counts: "readers_of ?t k = readers_of s k + (if i = k then 1 else 0)"
    "owners_of ?t k = owners_of s k" for k
    using readers_append [of ?t s "Reading i" k] owners_append [of ?t s "Reading i" k] by auto
  have "entry_inv ?t k" for k
    using entry_invD [OF inv, of k] counts [of k] e
    by (cases "k = i") (auto simp: entry_inv_def c set_entry_def split: option.splits)
  then show ?thesis
    using inv by (auto simp: struct_inv_def c set_entry_def removing_inv_def)
qed

lemma struct_inv_release:
  assumes inv: "struct_inv s" and at: "at_pc s j (Reading i)"
    and rel: "cache_release i (cs_cache s) = (rm, c)"
  shows "struct_inv (move j (Removing None (if rm then [i] else []) Return) (s\<lparr>cs_cache := c\<rparr>))"
    (is "struct_inv ?t")
proof -
  have pos: "0 < readers_of s i" using readers_self [OF at, of i] by simp
  with entry_invD [OF inv, of i] obtain e where e: "ac_heap (cs_cache s) i = Some e"
    "e_readers e = readers_of s i" "owners_of s i = 0" "i \<in> cs_dirs s" "i \<in> cs_counted s"
    by (auto simp: entry_inv_def split: option.splits)
  then have ea: "entry_at (cs_cache s) i = e" by (simp add: entry_at_def)
  from rel have rm: "rm \<longleftrightarrow> e_stale e \<and> e_readers e = 1"
    and c: "c = set_entry i (e\<lparr>e_readers := e_readers e - 1\<rparr>) (cs_cache s)"
    by (auto simp: cache_release_def Let_def ea)
  let ?new = "Removing None (if rm then [i] else []) Return"
  have pcs: "cs_pcs ?t = (cs_pcs s)[j := ?new]" by simp
  have counts: "readers_of ?t k = readers_of s k - (if i = k then 1 else 0)"
    "owners_of ?t k = owners_of s k + (if rm \<and> i = k then 1 else 0)" for k
    using readers_move [OF at pcs, of k] owners_move [OF at pcs, of k] by auto
  have ei: "entry_inv ?t k" for k
    using entry_invD [OF inv, of k] counts [of k] e rm
    by (cases "k = i") (auto simp: entry_inv_def c set_entry_def split: option.splits)
  have new: "removing_inv (cs_dirs s) ?new" using e(4) by (auto simp: removing_inv_def)
  have "\<forall>pc \<in> set ((cs_pcs s)[j := ?new]). removing_inv (cs_dirs s) pc"
    by (rule removing_other [OF inv at new]) auto
  with ei show ?thesis
    using inv by (simp add: struct_inv_def c set_entry_def)
qed

lemma struct_inv_append:
  assumes inv: "struct_inv s" and "\<And>i. reads i pc = 0" and "\<And>i. owns i pc = 0"
    and "removing_inv (cs_dirs s) pc"
  shows "struct_inv (s\<lparr>cs_pcs := cs_pcs s @ [pc]\<rparr>)" (is "struct_inv ?t")
proof (rule struct_inv_same [OF inv])
  show "readers_of ?t i = readers_of s i" "owners_of ?t i = owners_of s i" for i
    using readers_append [of ?t s pc i] owners_append [of ?t s pc i] assms(2,3) by auto
  show "\<forall>q \<in> set (cs_pcs ?t). removing_inv (cs_dirs s) q"
    using inv assms(4) by (simp add: struct_inv_def)
qed auto

lemma count_list_distinct: "distinct xs \<Longrightarrow> count_list xs x = (if x \<in> set xs then 1 else 0)"
  by (induction xs) (auto simp: count_list_0_iff)

lemma struct_inv_reserve:
  assumes inv: "struct_inv s" and at: "at_pc s j (Staging key fp r w)"
    and ks: "distinct ks" "set ks = dom (ac_entries (cs_cache s))"
    and res: "cache_reserve ks key' n (cs_cache s) = (Some gone, c)"
  shows "struct_inv (move j (Removing None gone (Resume key fp r w n)) (s\<lparr>cs_cache := c\<rparr>))"
    (is "struct_inv ?t")
proof -
  let ?c = "cs_cache s" and ?new = "Removing None gone (Resume key fp r w n)"
  from cache_reserve_Some [OF ks res] obtain evict where gone: "gone = map (ptr ?c) evict"
    and d: "distinct evict" and sub: "set evict \<subseteq> idle_keys ?c"
    and c: "c = ?c\<lparr>ac_entries := (\<lambda>k. if k \<in> set evict then None else ac_entries ?c k),
       ac_heap := (\<lambda>i. if i \<in> ptr ?c ` set evict then Some ((entry_at ?c i)\<lparr>e_stale := True\<rparr>)
         else ac_heap ?c i), ac_used := ac_used ?c + n\<rparr>" .
  have inj: "inj_on (ac_entries ?c) (dom (ac_entries ?c))" using inv by (simp add: struct_inv_def)
  have mapped: "ac_entries ?c k = Some (ptr ?c k)" "e_readers (entry_at ?c (ptr ?c k)) = 0"
    if "k \<in> set evict" for k
    using sub that by (auto simp: idle_keys_def ptr_def key_entry_def)
  have "inj_on (ptr ?c) (set evict)"
    by (rule inj_onI) (metis mapped(1) inj domI inj_onD)
  then have dg: "distinct gone" using d by (simp add: gone distinct_map)
  have gset: "set gone = ptr ?c ` set evict" by (simp add: gone)
  have ran': "i \<in> ran (ac_entries c) \<longleftrightarrow> i \<in> ran (ac_entries ?c) \<and> i \<notin> set gone" for i
  proof -
    have "ac_entries ?c k = Some i \<Longrightarrow> i = ptr ?c k' \<Longrightarrow> k' \<in> set evict \<Longrightarrow> k = k'" for k k'
      using mapped(1) inj by (metis domI inj_onD)
    then show ?thesis
      unfolding gset ran_def c using mapped(1) by (auto split: if_splits) (metis image_eqI option.inject)
  qed
  have inj': "inj_on (ac_entries c) (dom (ac_entries c))"
    using inj unfolding map_inj_iff by (auto simp: c)
  have pcs: "cs_pcs ?t = (cs_pcs s)[j := ?new]" by simp
  have counts: "readers_of ?t i = readers_of s i"
    "owners_of ?t i = owners_of s i + (if i \<in> set gone then 1 else 0)" for i
    using readers_move [OF at pcs, of i] owners_move [OF at pcs, of i] dg
    by (auto simp: count_list_distinct)
  have gone_ok: "\<exists>e. ac_heap ?c i = Some e \<and> entry_at ?c i = e \<and> e_readers e = 0 \<and> i \<in> cs_dirs s \<and>
      i \<in> cs_counted s \<and> owners_of s i = 0" if "i \<in> set gone" for i
  proof -
    from that obtain k where k: "k \<in> set evict" "i = ptr ?c k" by (auto simp: gset)
    from mapped_entry [OF inv mapped(1) [OF k(1)]] mapped(2) [OF k(1)] k(2)
    show ?thesis by metis
  qed
  have nx: "ac_next c = ac_next ?c" by (simp add: c)
  have ei: "entry_inv ?t i" for i
  proof (cases "i \<in> set gone")
    case True
    from gone_ok [OF True] obtain e where e: "ac_heap ?c i = Some e" "entry_at ?c i = e" "e_readers e = 0"
      "i \<in> cs_dirs s" "i \<in> cs_counted s" "owners_of s i = 0" by blast
    have "ac_heap c i = Some (e\<lparr>e_stale := True\<rparr>)" using True e by (simp add: c gset)
    then show ?thesis
      using entry_invD [OF inv, of i] e counts [of i] True ran' [of i] nx
      by (simp add: entry_inv_def)
  next
    case False
    then have "ac_heap c i = ac_heap ?c i" by (simp add: c gset)
    then show ?thesis
      using entry_invD [OF inv, of i] counts [of i] False ran' [of i] nx
      by (auto simp: entry_inv_def split: option.splits)
  qed
  have new: "removing_inv (cs_dirs s) ?new"
    using gone_ok by (auto simp: removing_inv_def)
  have "\<forall>pc \<in> set ((cs_pcs s)[j := ?new]). removing_inv (cs_dirs s) pc"
    by (rule removing_other [OF inv at new]) auto
  with ei inj' show ?thesis
    using inv by (simp add: struct_inv_def)
qed

lemma struct_inv_install:
  assumes inv: "struct_inv s" and at: "at_pc s j (Staging key fp r w)" and w: "0 \<le> w"
    and ins: "cache_install key fp final now w r (cs_cache s) = (gone, c)"
  shows "struct_inv (move j (Removing None gone Return)
      (s\<lparr>cs_cache := c, cs_dirs := insert (ac_next (cs_cache s)) (cs_dirs s),
         cs_counted := insert (ac_next (cs_cache s)) (cs_counted s)\<rparr>))" (is "struct_inv ?t")
proof -
  let ?c = "cs_cache s" and ?i = "ac_next (cs_cache s)" and ?new = "Removing None gone Return"
  let ?e = "\<lparr>e_fingerprint = fp, e_dir = final, e_size = w, e_lastUsed = now, e_readers = 0, e_stale = False\<rparr>"
  have fresh: "ac_heap ?c ?i = None" "readers_of s ?i = 0" "owners_of s ?i = 0" "?i \<notin> ran (ac_entries ?c)"
    "?i \<notin> cs_dirs s" "?i \<notin> cs_counted s"
    using entry_invD [OF inv, of ?i] by (auto simp: entry_inv_def split: option.splits)
  have inj: "inj_on (ac_entries ?c) (dom (ac_entries ?c))" using inv by (simp add: struct_inv_def)
  have pcs: "cs_pcs ?t = (cs_pcs s)[j := ?new]" by simp
  show ?thesis
  proof (cases "ac_entries ?c key")
    case None
    with ins have gone: "gone = []" and c: "ac_heap c = (ac_heap ?c)(?i \<mapsto> ?e)" "ac_next c = ?i + 1"
      "ac_entries c = (ac_entries ?c)(key \<mapsto> ?i)"
      by (auto simp: cache_install_def Let_def)
    have counts: "readers_of ?t k = readers_of s k" "owners_of ?t k = owners_of s k" for k
      using readers_move [OF at pcs, of k] owners_move [OF at pcs, of k] by (auto simp: gone)
    have ran': "k \<in> ran (ac_entries c) \<longleftrightarrow> k = ?i \<or> k \<in> ran (ac_entries ?c)" for k
      using None by (simp add: c)
    have ei: "entry_inv ?t k" for k
    proof (cases "k = ?i")
      case True
      then show ?thesis using fresh counts [of k] ran' [of k] w by (simp add: entry_inv_def c(1,2))
    next
      case False
      then show ?thesis using entry_invD [OF inv, of k] counts [of k] ran' [of k]
        by (auto simp: entry_inv_def c(1,2) split: option.splits)
    qed
    have inj': "inj_on (ac_entries c) (dom (ac_entries c))"
      using inj fresh(4) unfolding map_inj_iff by (auto simp: c ran_def)
    have new: "removing_inv (insert ?i (cs_dirs s)) ?new" by (simp add: removing_inv_def gone)
    have "\<forall>pc \<in> set ((cs_pcs s)[j := ?new]). removing_inv (insert ?i (cs_dirs s)) pc"
      by (rule removing_other [OF inv at new]) (use fresh in auto)
    with ei inj' show ?thesis using inv by (simp add: struct_inv_def)
  next
    case (Some o')
    from mapped_entry [OF inv Some] obtain e where e: "ac_heap ?c o' = Some e" "entry_at ?c o' = e"
      "\<not> e_stale e" "o' \<in> cs_dirs s" "o' \<in> cs_counted s" "owners_of s o' = 0" "o' < ?i"
      "e_readers e = readers_of s o'" .
    from ins Some e(2) have gone: "gone = (if e_readers e = 0 then [o'] else [])"
      and c: "ac_heap c = (ac_heap ?c)(o' \<mapsto> e\<lparr>e_stale := True\<rparr>, ?i \<mapsto> ?e)" "ac_next c = ?i + 1"
      "ac_entries c = (ac_entries ?c)(key \<mapsto> ?i)"
      by (auto simp: cache_install_def Let_def retireLocked_eq ptr_def entry_at_def)
    have counts: "readers_of ?t k = readers_of s k"
      "owners_of ?t k = owners_of s k + (if e_readers e = 0 \<and> k = o' then 1 else 0)" for k
      using readers_move [OF at pcs, of k] owners_move [OF at pcs, of k] by (auto simp: gone)
    have ran': "k \<in> ran (ac_entries c) \<longleftrightarrow> k = ?i \<or> (k \<in> ran (ac_entries ?c) \<and> k \<noteq> o')" for k
      using ran_replace [OF inj Some, of ?i] by (simp add: c)
    have ei: "entry_inv ?t k" for k
    proof -
      consider "k = ?i" | "k = o'" | "k \<noteq> ?i" "k \<noteq> o'" by blast
      then show ?thesis
      proof cases
        case 1
        then show ?thesis using fresh counts [of k] ran' [of k] w e(7) by (simp add: entry_inv_def c(1,2))
      next
        case 2
        then show ?thesis using entry_invD [OF inv, of k] counts [of k] ran' [of k] e
          by (simp add: entry_inv_def c(1,2))
      next
        case 3
        then show ?thesis using entry_invD [OF inv, of k] counts [of k] ran' [of k]
          by (auto simp: entry_inv_def c(1,2) split: option.splits)
      qed
    qed
    have inj': "inj_on (ac_entries c) (dom (ac_entries c))"
      using inj fresh(4) unfolding map_inj_iff by (auto simp: c ran_def)
    have new: "removing_inv (insert ?i (cs_dirs s)) ?new" using e(4) by (auto simp: removing_inv_def gone)
    have "\<forall>pc \<in> set ((cs_pcs s)[j := ?new]). removing_inv (insert ?i (cs_dirs s)) pc"
      by (rule removing_other [OF inv at new]) (use fresh in auto)
    with ei inj' show ?thesis using inv by (simp add: struct_inv_def)
  qed
qed

section \<open>Every step keeps the accounts\<close>

lemma pc_ok_at: "budget_inv s \<Longrightarrow> at_pc s j pc \<Longrightarrow> pc_ok (ac_max (cs_cache s)) pc"
  unfolding budget_inv_def at_pc_def by (metis nth_mem)

lemma owned_size:
  assumes "struct_inv s" and "0 < owners_of s i"
  shows "0 \<le> size_of (cs_cache s) i" and "i \<in> cs_counted s"
  using entry_invD [OF assms(1), of i] assms(2)
  by (auto simp: entry_inv_def size_of_def entry_at_def split: option.splits)

lemma slack_nonneg:
  assumes inv: "struct_inv s" and ok: "pc_ok (ac_max (cs_cache s)) pc" and "pc \<in> set (cs_pcs s)"
  shows "0 \<le> slack_of (size_of (cs_cache s)) pc"
proof -
  from assms(3) obtain j where at: "at_pc s j pc" by (auto simp: in_set_conv_nth at_pc_def)
  have sz: "0 \<le> size_of (cs_cache s) i" if "0 < owns i pc" for i
    using owned_size(1) [OF inv] owners_self [OF at, of i] that by simp
  show ?thesis
  proof (cases pc)
    case (Removing m g a)
    have "0 \<le> sum_list (map (size_of (cs_cache s)) g)"
    proof (rule sum_list_nonneg)
      fix x assume "x \<in> set (map (size_of (cs_cache s)) g)"
      then obtain i where "i \<in> set g" "x = size_of (cs_cache s) i" by auto
      moreover from this have "0 < owns i pc"
        using count_list_0_iff [of g i] by (auto simp: Removing)
      ultimately show "0 \<le> x" using sz by simp
    qed
    moreover have "0 \<le> (case m of None \<Rightarrow> 0 | Some i \<Rightarrow> size_of (cs_cache s) i)"
      using sz by (auto simp: Removing split: option.split)
    ultimately show ?thesis using ok by (cases a) (auto simp: Removing)
  qed auto
qed

lemma total_slack_nonneg:
  assumes "struct_inv s" and "budget_inv s"
  shows "0 \<le> total (slack_of (size_of (cs_cache s))) (cs_pcs s)"
  by (rule total_nonneg) (use assms slack_nonneg in \<open>auto simp: budget_inv_def\<close>)

lemma budget_move:
  assumes at: "at_pc s j old" and inv: "budget_inv s" and pcs: "cs_pcs t = (cs_pcs s)[j := new]"
    and sz: "size_of (cs_cache t) = size_of (cs_cache s)" and mx: "ac_max (cs_cache t) = ac_max (cs_cache s)"
    and ok: "pc_ok (ac_max (cs_cache s)) new"
    and used: "ac_used (cs_cache t) = sum (size_of (cs_cache s)) (cs_counted t) +
      total reserved_by (cs_pcs s) - reserved_by old + reserved_by new"
    and le: "ac_used (cs_cache t) \<le> ac_max (cs_cache s) + total (slack_of (size_of (cs_cache s))) (cs_pcs s)
      - slack_of (size_of (cs_cache s)) old + slack_of (size_of (cs_cache s)) new"
  shows "budget_inv t"
proof -
  have j: "j < length (cs_pcs s)" "cs_pcs s ! j = old" using at by (auto simp: at_pc_def)
  have "pc_ok (ac_max (cs_cache s)) pc" if "pc \<in> set (cs_pcs t)" for pc
    using that inv ok set_update_subset_insert [of "cs_pcs s" j new] by (auto simp: pcs budget_inv_def)
  then show ?thesis
    using used le unfolding budget_inv_def pcs sz mx total_update [OF j(1)] j(2) by simp
qed

lemma budget_append:
  assumes inv: "budget_inv s" and pcs: "cs_pcs t = cs_pcs s @ [new]"
    and sz: "size_of (cs_cache t) = size_of (cs_cache s)" and "ac_max (cs_cache t) = ac_max (cs_cache s)"
    and "ac_used (cs_cache t) = ac_used (cs_cache s)" and "cs_counted t = cs_counted s"
    and "pc_ok (ac_max (cs_cache s)) new" and "reserved_by new = 0" and "slack_of (size_of (cs_cache s)) new = 0"
  shows "budget_inv t"
  using assms unfolding budget_inv_def by auto

lemma set_entry_size: "e_size e = size_of c i \<Longrightarrow> size_of (set_entry i e c) = size_of c"
  by (auto simp: fun_eq_iff size_of_def entry_at_def set_entry_def)

lemma acquire_sizes:
  "cache_acquire key fp now c = (r, c') \<Longrightarrow>
     size_of c' = size_of c \<and> ac_max c' = ac_max c \<and> ac_used c' = ac_used c"
  by (auto simp: cache_acquire_def Let_def set_entry_size size_of_def [symmetric] set_entry_def [of _ _ c]
      split: option.splits if_splits)
    (simp_all add: fun_eq_iff size_of_def entry_at_def)

lemma release_sizes:
  "cache_release i c = (r, c') \<Longrightarrow>
     size_of c' = size_of c \<and> ac_max c' = ac_max c \<and> ac_used c' = ac_used c"
  by (auto simp: cache_release_def Let_def set_entry_def fun_eq_iff size_of_def entry_at_def)

lemma budget_subtract:
  assumes st: "struct_inv s" and inv: "budget_inv s" and at: "at_pc s j (Removing (Some i) g a)"
  shows "budget_inv (move j (Removing None g a)
    (s\<lparr>cs_cache := subtract_size i (cs_cache s), cs_counted := cs_counted s - {i}\<rparr>))" (is "budget_inv ?t")
proof (rule budget_move [OF at inv])
  have own: "0 < owners_of s i" using owners_self [OF at, of i] by simp
  note i = owned_size [OF st own]
  have fin: "finite (cs_counted s)" using st by (simp add: struct_inv_def)
  show sz: "size_of (cs_cache ?t) = size_of (cs_cache s)"
    by (simp add: subtract_size_def fun_eq_iff size_of_def entry_at_def)
  show "pc_ok (ac_max (cs_cache s)) (Removing None g a)" using pc_ok_at [OF inv at] by (cases a) auto
  have "reserved_by (Removing (Some i) g a) = reserved_by (Removing None g a)" by (cases a) auto
  then show "ac_used (cs_cache ?t) = sum (size_of (cs_cache s)) (cs_counted ?t) +
      total reserved_by (cs_pcs s) - reserved_by (Removing (Some i) g a) + reserved_by (Removing None g a)"
    using inv i fin by (simp add: budget_inv_def subtract_size_def sum_diff1)
  have "slack_of (size_of (cs_cache s)) (Removing (Some i) g a)
      \<le> slack_of (size_of (cs_cache s)) (Removing None g a) + size_of (cs_cache s) i"
    using i(1) by (cases a) auto
  moreover have "ac_used (cs_cache ?t) = ac_used (cs_cache s) - size_of (cs_cache s) i"
    by (simp add: subtract_size_def)
  ultimately show "ac_used (cs_cache ?t) \<le> ac_max (cs_cache s) +
      total (slack_of (size_of (cs_cache s))) (cs_pcs s) -
      slack_of (size_of (cs_cache s)) (Removing (Some i) g a) +
      slack_of (size_of (cs_cache s)) (Removing None g a)"
    using inv unfolding budget_inv_def by linarith
qed (auto simp: subtract_size_def)

lemma budget_reserve:
  assumes st: "struct_inv s" and inv: "budget_inv s" and at: "at_pc s j (Staging key fp r w)"
    and n: "0 \<le> n" "n \<le> ac_max (cs_cache s)" and ks: "distinct ks" "set ks = dom (ac_entries (cs_cache s))"
    and res: "cache_reserve ks key' n (cs_cache s) = (Some gone, c)"
  shows "budget_inv (move j (Removing None gone (Resume key fp r w n)) (s\<lparr>cs_cache := c\<rparr>))"
    (is "budget_inv ?t")
proof (rule budget_move [OF at inv])
  let ?c = "cs_cache s" and ?new = "Removing None gone (Resume key fp r w n)"
  from cache_reserve_Some [OF ks res] obtain evict where
    le: "ac_used ?c - sum_list (map (size_of ?c) gone) + n \<le> ac_max ?c"
    and c: "c = ?c\<lparr>ac_entries := (\<lambda>k. if k \<in> set evict then None else ac_entries ?c k),
       ac_heap := (\<lambda>i. if i \<in> ptr ?c ` set evict then Some ((entry_at ?c i)\<lparr>e_stale := True\<rparr>)
         else ac_heap ?c i), ac_used := ac_used ?c + n\<rparr>" .
  show "size_of (cs_cache ?t) = size_of ?c"
    by (auto simp: c fun_eq_iff size_of_def entry_at_def)
  show "pc_ok (ac_max (cs_cache s)) ?new" using pc_ok_at [OF inv at] n by simp
  show "ac_used (cs_cache ?t) = sum (size_of ?c) (cs_counted ?t) + total reserved_by (cs_pcs s) -
      reserved_by (Staging key fp r w) + reserved_by ?new"
    using inv by (simp add: budget_inv_def c)
  show "ac_used (cs_cache ?t) \<le> ac_max ?c + total (slack_of (size_of ?c)) (cs_pcs s) -
      slack_of (size_of ?c) (Staging key fp r w) + slack_of (size_of ?c) ?new"
    using inv le total_slack_nonneg [OF st inv] by (simp add: budget_inv_def c min_def)
  show "ac_max (cs_cache ?t) = ac_max ?c" by (simp add: c)
qed simp

lemma slack_of_cong: "(\<And>i. 0 < owns i pc \<Longrightarrow> f i = g i) \<Longrightarrow> slack_of f pc = slack_of g pc"
proof (cases pc)
  case (Removing m gs a)
  assume eq: "\<And>i. 0 < owns i pc \<Longrightarrow> f i = g i"
  have own: "i \<in> set gs \<Longrightarrow> 0 < owns i pc" for i
    using count_list_0_iff [of gs i] by (auto simp: Removing)
  have "map f gs = map g gs" using eq own by auto
  moreover have "(case m of None \<Rightarrow> 0 | Some i \<Rightarrow> f i) = (case m of None \<Rightarrow> 0 | Some i \<Rightarrow> g i)"
    using eq by (auto simp: Removing split: option.split)
  ultimately show ?thesis by (cases a) (simp_all only: Removing slack_of.simps)
qed auto

lemma install_sizes:
  assumes "cache_install key fp final now w r c = (gone, c')"
  shows "size_of c' i = (if i = ac_next c then w else size_of c i)"
    and "ac_max c' = ac_max c" and "ac_used c' = ac_used c + (w - r)"
  using assms
  by (auto simp: cache_install_def Let_def retireLocked_eq size_of_def entry_at_def split: if_splits)

lemma budget_install:
  assumes st: "struct_inv s" and inv: "budget_inv s" and at: "at_pc s j (Staging key fp r w)"
    and ins: "cache_install key fp final now w r (cs_cache s) = (gone, c)"
  shows "budget_inv (move j (Removing None gone Return)
      (s\<lparr>cs_cache := c, cs_dirs := insert (ac_next (cs_cache s)) (cs_dirs s),
         cs_counted := insert (ac_next (cs_cache s)) (cs_counted s)\<rparr>))" (is "budget_inv ?t")
proof -
  let ?c = "cs_cache s" and ?i = "ac_next (cs_cache s)" and ?new = "Removing None gone Return"
  note sz = install_sizes [OF ins]
  have fresh: "owners_of s ?i = 0" "?i \<notin> cs_counted s"
    using entry_invD [OF st, of ?i] by (auto simp: entry_inv_def split: option.splits)
  have j: "j < length (cs_pcs s)" "cs_pcs s ! j = Staging key fp r w" using at by (auto simp: at_pc_def)
  have w: "0 \<le> w" "w \<le> r" using pc_ok_at [OF inv at] by auto
  have fin: "finite (cs_counted s)" using st by (simp add: struct_inv_def)
  have "sum (size_of c) (cs_counted s) = sum (size_of ?c) (cs_counted s)"
    using fresh(2) by (intro sum.cong) (auto simp: sz)
  then have cnt: "sum (size_of c) (insert ?i (cs_counted s)) = w + sum (size_of ?c) (cs_counted s)"
    using fin fresh(2) by (simp add: sz)
  have "slack_of (size_of c) pc = slack_of (size_of ?c) pc" if "pc \<in> set (cs_pcs s)" for pc
  proof (rule slack_of_cong)
    fix i assume i: "0 < owns i pc"
    from that obtain k where "at_pc s k pc" by (auto simp: in_set_conv_nth at_pc_def)
    with i owners_self [of s k pc i] fresh(1) have "i \<noteq> ?i" by auto
    then show "size_of c i = size_of ?c i" by (simp add: sz)
  qed
  then have sl: "total (slack_of (size_of c)) (cs_pcs s) = total (slack_of (size_of ?c)) (cs_pcs s)"
    by (rule total_cong)
  have "pc_ok (ac_max (cs_cache s)) pc" if "pc \<in> set ((cs_pcs s)[j := ?new])" for pc
    using that inv set_update_subset_insert [of "cs_pcs s" j ?new] by (auto simp: budget_inv_def)
  then show ?thesis
    using inv w by (simp add: budget_inv_def total_update [OF j(1)] j(2) cnt sl sz(2,3))
qed

section \<open>The invariants of the whole system\<close>

definition cache_inv :: "cache_sys \<Rightarrow> bool" where
  "cache_inv s \<longleftrightarrow> struct_inv s \<and> budget_inv s"

text \<open>A state step that only moves one thread.\<close>

lemma cache_inv_quiet:
  assumes inv: "cache_inv s" and at: "at_pc s j old" and t: "t = move j new (s\<lparr>cs_cache := c\<rparr>)"
    and rd: "\<And>i. reads i new = reads i old" and ow: "\<And>i. owns i new = owns i old"
    and rm: "removing_inv (cs_dirs s) new"
    and c: "c = (cs_cache s)\<lparr>ac_used := ac_used (cs_cache s) - reserved_by old + reserved_by new\<rparr>"
    and ok: "pc_ok (ac_max (cs_cache s)) new"
    and le: "reserved_by new - slack_of (size_of (cs_cache s)) new
      \<le> reserved_by old - slack_of (size_of (cs_cache s)) old"
  shows "cache_inv t"
proof -
  have pcs: "cs_pcs t = (cs_pcs s)[j := new]" by (simp add: t)
  have "struct_inv t"
    by (rule struct_inv_quiet [OF _ at pcs rd ow rm]) (use inv in \<open>auto simp: cache_inv_def t c\<close>)
  moreover have "budget_inv t"
  proof (rule budget_move [OF at _ pcs])
    show "size_of (cs_cache t) = size_of (cs_cache s)"
      by (simp add: t c fun_eq_iff size_of_def entry_at_def)
  qed (use inv ok le in \<open>auto simp: cache_inv_def budget_inv_def t c\<close>)
  ultimately show ?thesis by (simp add: cache_inv_def)
qed

lemma same_cache: "(c :: asset_cache) = c\<lparr>ac_used := ac_used c - x + x\<rparr>"
  by simp

lemma cache_inv_step:
  assumes inv: "cache_inv s" and step: "cache_step s t"
  shows "cache_inv t"
  using step
proof cases
  case (cs_acquire key fp now i c)
  have "budget_inv t"
    unfolding cs_acquire(1)
    by (rule budget_append [OF conjunct2 [OF inv [unfolded cache_inv_def]]])
      (use acquire_sizes [OF cs_acquire(2)] in auto)
  then show ?thesis
    using struct_inv_acquire [OF _ cs_acquire(2)] inv by (simp add: cache_inv_def cs_acquire(1))
next
  case (cs_release j i rm c)
  have "budget_inv t"
    unfolding cs_release(1)
    by (rule budget_move [OF cs_release(2)])
      (use acquire_sizes release_sizes [OF cs_release(3)] inv in \<open>auto simp: cache_inv_def budget_inv_def\<close>)
  then show ?thesis
    using struct_inv_release [OF _ cs_release(2,3)] inv by (simp add: cache_inv_def cs_release(1))
next
  case (cs_remove_all j i g a)
  have "budget_inv t"
    unfolding cs_remove_all(1)
  proof (rule budget_move [OF cs_remove_all(2)])
    show "pc_ok (ac_max (cs_cache s)) (Removing (Some i) g a)"
      using pc_ok_at [OF _ cs_remove_all(2)] inv by (cases a) (auto simp: cache_inv_def)
  qed (use inv in \<open>cases a; simp add: cache_inv_def budget_inv_def add.commute\<close>)+
  then show ?thesis
    using struct_inv_remove_all [OF _ cs_remove_all(2)] inv by (simp add: cache_inv_def cs_remove_all(1))
next
  case (cs_subtract j i g a)
  then show ?thesis
    using struct_inv_subtract [OF _ cs_subtract(2)] budget_subtract [OF _ _ cs_subtract(2)] inv
    by (simp add: cache_inv_def)
next
  case (cs_removed j)
  show ?thesis
    by (rule cache_inv_quiet [OF inv cs_removed(2), of _ Finished "cs_cache s"])
      (auto simp: cs_removed(1) removing_inv_def)
next
  case (cs_resume j key fp r w n)
  have "pc_ok (ac_max (cs_cache s)) (Removing None [] (Resume key fp r w n))"
    using pc_ok_at [OF _ cs_resume(2)] inv by (simp add: cache_inv_def)
  then show ?thesis
    by (intro cache_inv_quiet [OF inv cs_resume(2), of _ "Staging key fp (r + n) w" "cs_cache s"])
      (auto simp: cs_resume(1) removing_inv_def)
next
  case (cs_put key fp)
  have "budget_inv t" unfolding cs_put(1)
    by (rule budget_append) (use inv in \<open>auto simp: cache_inv_def\<close>)
  then show ?thesis
    using struct_inv_append [of s "Staging key fp 0 0"] inv
    by (simp add: cache_inv_def cs_put(1) removing_inv_def)
next
  case (cs_reserve j key fp r w n ks gone c)
  then show ?thesis
    using struct_inv_reserve [OF _ cs_reserve(2,5-7)] budget_reserve [OF _ _ cs_reserve(2-7)] inv
    by (simp add: cache_inv_def)
next
  case (cs_write j key fp r w m)
  have "pc_ok (ac_max (cs_cache s)) (Staging key fp r w)" using pc_ok_at [OF _ cs_write(2)] inv by (simp add: cache_inv_def)
  then show ?thesis
    using cs_write(3,4)
    by (intro cache_inv_quiet [OF inv cs_write(2), of _ "Staging key fp r (w + m)" "cs_cache s"])
      (auto simp: cs_write(1) removing_inv_def)
next
  case (cs_fail j key fp r w)
  have "pc_ok (ac_max (cs_cache s)) (Staging key fp r w)" using pc_ok_at [OF _ cs_fail(2)] inv by (simp add: cache_inv_def)
  then show ?thesis
    by (intro cache_inv_quiet [OF inv cs_fail(2), of _ "Dropping r w" "cs_cache s"])
      (auto simp: cs_fail(1) removing_inv_def)
next
  case (cs_install j key fp r w final now gone c)
  have "0 \<le> w" using pc_ok_at [OF _ cs_install(2)] inv by (auto simp: cache_inv_def)
  then show ?thesis
    using struct_inv_install [OF _ cs_install(2) _ cs_install(3)]
      budget_install [OF _ _ cs_install(2,3)] inv
    by (simp add: cache_inv_def cs_install(1))
next
  case (cs_drop j r w)
  have "pc_ok (ac_max (cs_cache s)) (Dropping r w)" using pc_ok_at [OF _ cs_drop(2)] inv by (simp add: cache_inv_def)
  then show ?thesis
    by (intro cache_inv_quiet [OF inv cs_drop(2), of _ "Dropped r" "cs_cache s"])
      (auto simp: cs_drop(1) removing_inv_def)
next
  case (cs_unreserve j r)
  have "pc_ok (ac_max (cs_cache s)) (Dropped r)" using pc_ok_at [OF _ cs_unreserve(2)] inv by (simp add: cache_inv_def)
  then show ?thesis
    by (intro cache_inv_quiet [OF inv cs_unreserve(2), of _ Finished "unreserve r (cs_cache s)"])
      (auto simp: cs_unreserve(1) removing_inv_def unreserve_def)
qed

definition cache_start :: "string \<Rightarrow> int \<Rightarrow> cache_sys \<Rightarrow> bool" where
  "cache_start dir M s \<longleftrightarrow>
     0 \<le> M \<and> s = \<lparr>cs_cache = newAssetCache dir M, cs_dirs = {}, cs_counted = {}, cs_pcs = []\<rparr>"

lemma cache_inv_start: "cache_start dir M s \<Longrightarrow> cache_inv s"
  by (auto simp: cache_start_def newAssetCache_def cache_inv_def struct_inv_def budget_inv_def
      entry_inv_def readers_of_def owners_of_def)

interpretation cache: transition_system "cache_start dir M" cache_step cache_inv
  by unfold_locales (auto intro: cache_inv_start cache_inv_step)

section \<open>What the invariants say\<close>

lemma step_keeps_max:
  assumes "cache_step s t"
  shows "ac_max (cs_cache t) = ac_max (cs_cache s)"
  using assms
proof cases
  case (cs_acquire key fp now i c)
  then show ?thesis using acquire_sizes [OF cs_acquire(2)] by simp
next
  case (cs_release j i rm c)
  then show ?thesis using release_sizes [OF cs_release(3)] by simp
next
  case (cs_reserve j key fp r w n ks gone c)
  have "ac_max c = ac_max (cs_cache s)"
    by (rule cache_reserve_Some [OF cs_reserve(5-7)]) simp
  then show ?thesis by (simp add: cs_reserve(1))
next
  case (cs_install j key fp r w final now gone c)
  then show ?thesis using install_sizes(2) [OF cs_install(3)] by simp
qed (simp_all add: subtract_size_def unreserve_def)

lemma reaches_max:
  "reaches cache_step s t \<Longrightarrow> ac_max (cs_cache t) = ac_max (cs_cache s)"
  by (induction rule: reaches.induct) (auto simp: step_keeps_max)

lemma slack_le_reserved:
  "pc_ok M pc \<Longrightarrow> slack_of f pc \<le> reserved_by pc - written_by pc"
  by (cases "(M, pc)" rule: pc_ok.cases) (auto simp: min_def)

lemma disk_within:
  assumes "cache_inv s"
  shows "disk_bytes s \<le> ac_max (cs_cache s)"
proof -
  let ?sz = "size_of (cs_cache s)"
  have st: "struct_inv s" and bd: "budget_inv s" using assms by (auto simp: cache_inv_def)
  have counted: "0 \<le> ?sz i" if "i \<in> cs_counted s" for i
    using entry_invD [OF st, of i] that
    by (auto simp: entry_inv_def size_of_def entry_at_def split: option.splits)
  have "cs_dirs s \<subseteq> cs_counted s"
  proof
    fix i assume "i \<in> cs_dirs s"
    then show "i \<in> cs_counted s"
      using entry_invD [OF st, of i] by (auto simp: entry_inv_def split: option.splits)
  qed
  then have "sum ?sz (cs_dirs s) \<le> sum ?sz (cs_counted s)"
    using st counted by (intro sum_mono2) (auto simp: struct_inv_def)
  moreover have "total (slack_of ?sz) (cs_pcs s) \<le> total (\<lambda>pc. reserved_by pc - written_by pc) (cs_pcs s)"
    by (rule total_mono) (use bd slack_le_reserved in \<open>auto simp: budget_inv_def\<close>)
  ultimately show ?thesis
    using bd by (simp add: budget_inv_def disk_bytes_def total_diff)
qed

lemma reader_has_dir:
  assumes "cache_inv s" and "Reading i \<in> set (cs_pcs s)"
  shows "i \<in> cs_dirs s"
proof -
  from assms(2) obtain j where "at_pc s j (Reading i)" by (auto simp: in_set_conv_nth at_pc_def)
  from readers_self [OF this, of i] have "readers_of s i \<noteq> 0" by simp
  then show ?thesis
    using assms(1) entry_invD [of s i] by (auto simp: cache_inv_def entry_inv_def split: option.splits)
qed

text \<open>When every thread is done, the counter, the disk and the map agree.\<close>

lemma quiet_accounts:
  assumes "cache_inv s" and "set (cs_pcs s) \<subseteq> {Finished}"
  shows "cs_dirs s = ran (ac_entries (cs_cache s))"
    and "ac_used (cs_cache s) = sum (size_of (cs_cache s)) (ran (ac_entries (cs_cache s)))"
    and "disk_bytes s = ac_used (cs_cache s)"
proof -
  have st: "struct_inv s" and bd: "budget_inv s" using assms(1) by (auto simp: cache_inv_def)
  have z: "total f (cs_pcs s) = 0" if "f Finished = 0" for f
  proof -
    have "total f (cs_pcs s) = total (\<lambda>_. 0) (cs_pcs s)"
      by (rule total_cong) (use assms(2) that in auto)
    also have "\<dots> = 0" by (rule total_zero)
    finally show ?thesis .
  qed
  have none: "readers_of s i = 0" "owners_of s i = 0" for i
    by (simp_all add: readers_of_def owners_of_def z)
  have "(i \<in> cs_dirs s \<longleftrightarrow> i \<in> ran (ac_entries (cs_cache s))) \<and>
      (i \<in> cs_counted s \<longleftrightarrow> i \<in> ran (ac_entries (cs_cache s)))" for i
    using entry_invD [OF st, of i] none [of i] by (auto simp: entry_inv_def split: option.splits)
  then show dirs: "cs_dirs s = ran (ac_entries (cs_cache s))"
    and used: "ac_used (cs_cache s) = sum (size_of (cs_cache s)) (ran (ac_entries (cs_cache s)))"
    using bd z [of reserved_by] by (auto simp: budget_inv_def intro!: arg_cong2 [where f = sum])
  show "disk_bytes s = ac_used (cs_cache s)"
    using z [of written_by] by (simp add: disk_bytes_def dirs used)
qed

text \<open>How far the counter can go above the budget: once more per upload that is evicting.\<close>

fun evicting :: "cache_pc \<Rightarrow> bool" where
  "evicting (Removing m g (Resume key fp r w n)) = True"
| "evicting _ = False"

lemma cache_used_bound:
  assumes "cache_inv s"
  shows "ac_used (cs_cache s) \<le> ac_max (cs_cache s) * (1 + tally evicting (cs_pcs s))"
proof -
  let ?M = "ac_max (cs_cache s)"
  have bd: "budget_inv s" using assms by (simp add: cache_inv_def)
  have "slack_of f pc \<le> (if evicting pc then ?M else 0)" if "pc_ok ?M pc" for f pc
    using that by (cases "(?M, pc)" rule: pc_ok.cases) (auto simp: min_def)
  then have "total (slack_of (size_of (cs_cache s))) (cs_pcs s)
      \<le> total (\<lambda>pc. if evicting pc then ?M else 0) (cs_pcs s)"
    by (intro total_mono) (use bd in \<open>auto simp: budget_inv_def\<close>)
  also have "\<dots> = ?M * tally evicting (cs_pcs s)" by (rule total_if)
  finally show ?thesis using bd by (simp add: budget_inv_def algebra_simps)
qed

end
