(* ===== verification/Key_Locks.thy ===== *)
theory Key_Locks
  imports Lint_Prelude
begin

text \<open>
  \<open>lockKey\<close> of \<open>internal/serve/cache.go\<close>: one mutex per cache key, created on first use and
  dropped from the map with its last reference.  A lock is a heap object, so that a thread
  keeps the object it looked up even if the map changes; each function is one atomic
  action, and uploads of all keys interleave.
\<close>

record key_lock =
  kl_held :: bool
  kl_refs :: int

record key_locks =
  kl_map :: "string \<rightharpoonup> nat"
  kl_heap :: "nat \<rightharpoonup> key_lock"
  kl_next :: nat

definition newKeyLocks :: key_locks where
  "newKeyLocks = \<lparr>kl_map = Map.empty, kl_heap = Map.empty, kl_next = 0\<rparr>"

definition lock_at :: "key_locks \<Rightarrow> nat \<Rightarrow> key_lock" where
  "lock_at c i = the (kl_heap c i)"

text \<open>The critical section that finds or creates the lock and counts the reference.\<close>

definition lock_ref :: "string \<Rightarrow> key_locks \<Rightarrow> nat \<times> key_locks" where
  "lock_ref key c =
     (case kl_map c key of
        Some i \<Rightarrow>
          (i, c\<lparr>kl_heap := (kl_heap c)(i \<mapsto> (lock_at c i)\<lparr>kl_refs := kl_refs (lock_at c i) + 1\<rparr>)\<rparr>)
      | None \<Rightarrow>
          (let i = kl_next c
           in (i, c\<lparr>kl_map := (kl_map c)(key \<mapsto> i), kl_next := i + 1,
                    kl_heap := (kl_heap c)(i \<mapsto> \<lparr>kl_held = False, kl_refs = 1\<rparr>)\<rparr>)))"

text \<open>\<open>l.mu.Lock()\<close> (it blocks while held) and \<open>l.mu.Unlock()\<close>.\<close>

definition lock_take :: "nat \<Rightarrow> key_locks \<Rightarrow> key_locks option" where
  "lock_take i c =
     (if kl_held (lock_at c i) then None
      else Some (c\<lparr>kl_heap := (kl_heap c)(i \<mapsto> (lock_at c i)\<lparr>kl_held := True\<rparr>)\<rparr>))"

definition lock_free :: "nat \<Rightarrow> key_locks \<Rightarrow> key_locks" where
  "lock_free i c = c\<lparr>kl_heap := (kl_heap c)(i \<mapsto> (lock_at c i)\<lparr>kl_held := False\<rparr>)\<rparr>"

definition lock_unref :: "string \<Rightarrow> nat \<Rightarrow> key_locks \<Rightarrow> key_locks" where
  "lock_unref key i c =
     (let l = (lock_at c i)\<lparr>kl_refs := kl_refs (lock_at c i) - 1\<rparr>;
          c' = c\<lparr>kl_heap := (kl_heap c)(i \<mapsto> l)\<rparr>
      in if kl_refs l = 0 then c'\<lparr>kl_map := (kl_map c')(key := None)\<rparr> else c')"

datatype lock_pc = LWaiting string nat | LHolding string nat | LUnlocked string nat | LDone

record lock_sys =
  ls_locks :: key_locks
  ls_pcs :: "lock_pc list"

inductive lock_step :: "lock_sys \<Rightarrow> lock_sys \<Rightarrow> bool" where
  ls_ref: "lock_ref key (ls_locks s) = (i, c) \<Longrightarrow>
    lock_step s (s\<lparr>ls_locks := c, ls_pcs := ls_pcs s @ [LWaiting key i]\<rparr>)"
| ls_take: "j < length (ls_pcs s) \<Longrightarrow> ls_pcs s ! j = LWaiting key i \<Longrightarrow>
    lock_take i (ls_locks s) = Some c \<Longrightarrow>
    lock_step s (s\<lparr>ls_locks := c, ls_pcs := (ls_pcs s)[j := LHolding key i]\<rparr>)"
| ls_free: "j < length (ls_pcs s) \<Longrightarrow> ls_pcs s ! j = LHolding key i \<Longrightarrow>
    lock_step s (s\<lparr>ls_locks := lock_free i (ls_locks s), ls_pcs := (ls_pcs s)[j := LUnlocked key i]\<rparr>)"
| ls_unref: "j < length (ls_pcs s) \<Longrightarrow> ls_pcs s ! j = LUnlocked key i \<Longrightarrow>
    lock_step s (s\<lparr>ls_locks := lock_unref key i (ls_locks s), ls_pcs := (ls_pcs s)[j := LDone]\<rparr>)"

inductive_cases lock_stepE: "lock_step s t"

section \<open>The invariant\<close>

fun refers :: "nat \<Rightarrow> lock_pc \<Rightarrow> bool" where
  "refers i (LWaiting key k) \<longleftrightarrow> k = i"
| "refers i (LHolding key k) \<longleftrightarrow> k = i"
| "refers i (LUnlocked key k) \<longleftrightarrow> k = i"
| "refers i LDone \<longleftrightarrow> False"

fun holding :: "nat \<Rightarrow> lock_pc \<Rightarrow> bool" where
  "holding i (LHolding key k) \<longleftrightarrow> k = i"
| "holding i _ \<longleftrightarrow> False"

fun lock_key_of :: "lock_pc \<Rightarrow> (string \<times> nat) option" where
  "lock_key_of (LWaiting key k) = Some (key, k)"
| "lock_key_of (LHolding key k) = Some (key, k)"
| "lock_key_of (LUnlocked key k) = Some (key, k)"
| "lock_key_of LDone = None"

definition lock_ok :: "lock_pc list \<Rightarrow> nat \<Rightarrow> key_lock \<Rightarrow> bool" where
  "lock_ok pcs i l \<longleftrightarrow> kl_refs l = tally (refers i) pcs \<and> 1 \<le> kl_refs l \<and>
     tally (holding i) pcs = (if kl_held l then 1 else 0)"

definition lock_inv :: "lock_sys \<Rightarrow> bool" where
  "lock_inv s \<longleftrightarrow>
     (\<forall>pc \<in> set (ls_pcs s). \<forall>key i. lock_key_of pc = Some (key, i) \<longrightarrow> kl_map (ls_locks s) key = Some i) \<and>
     (\<forall>key i. kl_map (ls_locks s) key = Some i \<longrightarrow>
        (\<exists>l. kl_heap (ls_locks s) i = Some l \<and> lock_ok (ls_pcs s) i l) \<and> i < kl_next (ls_locks s)) \<and>
     (\<forall>key key' i. kl_map (ls_locks s) key = Some i \<and> kl_map (ls_locks s) key' = Some i \<longrightarrow> key = key')"

lemma lock_invI:
  assumes "\<And>pc key i. pc \<in> set (ls_pcs s) \<Longrightarrow> lock_key_of pc = Some (key, i) \<Longrightarrow>
      kl_map (ls_locks s) key = Some i"
    and "\<And>key i. kl_map (ls_locks s) key = Some i \<Longrightarrow>
      (\<exists>l. kl_heap (ls_locks s) i = Some l \<and> lock_ok (ls_pcs s) i l) \<and> i < kl_next (ls_locks s)"
    and "\<And>key key' i. kl_map (ls_locks s) key = Some i \<Longrightarrow> kl_map (ls_locks s) key' = Some i \<Longrightarrow> key = key'"
  shows "lock_inv s"
  unfolding lock_inv_def using assms by blast

lemma lock_inv_pc:
  "lock_inv s \<Longrightarrow> pc \<in> set (ls_pcs s) \<Longrightarrow> lock_key_of pc = Some (key, i) \<Longrightarrow>
     kl_map (ls_locks s) key = Some i"
  unfolding lock_inv_def by blast

lemma lock_inv_inj:
  "lock_inv s \<Longrightarrow> kl_map (ls_locks s) key = Some i \<Longrightarrow> kl_map (ls_locks s) key' = Some i \<Longrightarrow> key = key'"
  unfolding lock_inv_def by blast

lemma lock_invD:
  assumes "lock_inv s" and "kl_map (ls_locks s) key = Some i"
  obtains l where "kl_heap (ls_locks s) i = Some l" and "lock_at (ls_locks s) i = l"
    and "lock_ok (ls_pcs s) i l" and "i < kl_next (ls_locks s)"
proof -
  from assms obtain l where "kl_heap (ls_locks s) i = Some l" "lock_ok (ls_pcs s) i l"
    "i < kl_next (ls_locks s)" unfolding lock_inv_def by blast
  then show thesis by (intro that [of l]) (auto simp: lock_at_def)
qed

lemma lock_pcD:
  assumes "lock_inv s" and "j < length (ls_pcs s)" and "lock_key_of (ls_pcs s ! j) = Some (key, i)"
  shows "kl_map (ls_locks s) key = Some i"
  using lock_inv_pc [OF assms(1) nth_mem [OF assms(2)] assms(3)] .

lemma refers_iff: "refers i pc \<longleftrightarrow> (\<exists>key. lock_key_of pc = Some (key, i))"
  by (cases pc) auto

lemma unmapped_unreferred:
  assumes "lock_inv s" and "\<And>key. kl_map (ls_locks s) key \<noteq> Some i"
  shows "tally (refers i) (ls_pcs s) = 0" and "tally (holding i) (ls_pcs s) = 0"
proof -
  have "\<not> refers i pc" if "pc \<in> set (ls_pcs s)" for pc
    using lock_inv_pc [OF assms(1) that] assms(2) by (auto simp: refers_iff)
  moreover have "holding i pc \<Longrightarrow> refers i pc" for pc by (cases pc) auto
  ultimately have "filter (refers i) (ls_pcs s) = []" and "filter (holding i) (ls_pcs s) = []"
    by (auto simp: filter_empty_conv)
  then show "tally (refers i) (ls_pcs s) = 0" and "tally (holding i) (ls_pcs s) = 0"
    by (simp_all add: tally_def)
qed

text \<open>A lock other than the one a step is about.\<close>

lemma lock_inv_other:
  assumes "lock_inv s" and "kl_map (ls_locks s) key = Some k"
    and "tally (refers k) pcs = tally (refers k) (ls_pcs s)"
    and "tally (holding k) pcs = tally (holding k) (ls_pcs s)"
    and "h k = kl_heap (ls_locks s) k" and "kl_next (ls_locks s) \<le> nx"
  shows "(\<exists>l. h k = Some l \<and> lock_ok pcs k l) \<and> k < nx"
  using lock_invD [OF assms(1,2)] assms(3-6) unfolding lock_ok_def by (metis order_less_le_trans)

lemma lock_inv_ref:
  assumes inv: "lock_inv s" and ref: "lock_ref key (ls_locks s) = (i, c)"
  shows "lock_inv (s\<lparr>ls_locks := c, ls_pcs := ls_pcs s @ [LWaiting key i]\<rparr>)" (is "lock_inv ?t")
proof (cases "kl_map (ls_locks s) key")
  case None
  let ?i = "kl_next (ls_locks s)"
  have fresh: "kl_map (ls_locks s) k \<noteq> Some ?i" for k
    by (metis inv lock_invD less_irrefl)
  note zero = unmapped_unreferred [OF inv fresh]
  from ref None have i: "i = ?i" and c: "kl_map c = (kl_map (ls_locks s))(key \<mapsto> ?i)"
    "kl_heap c = (kl_heap (ls_locks s))(?i \<mapsto> \<lparr>kl_held = False, kl_refs = 1\<rparr>)" "kl_next c = ?i + 1"
    by (auto simp: lock_ref_def Let_def)
  show ?thesis
  proof (rule lock_invI)
    fix pc k n assume "pc \<in> set (ls_pcs ?t)" "lock_key_of pc = Some (k, n)"
    then show "kl_map (ls_locks ?t) k = Some n"
      using lock_inv_pc [OF inv, of pc k n] None by (auto simp: c i)
  next
    fix k n assume k: "kl_map (ls_locks ?t) k = Some n"
    show "(\<exists>l. kl_heap (ls_locks ?t) n = Some l \<and> lock_ok (ls_pcs ?t) n l) \<and> n < kl_next (ls_locks ?t)"
    proof (cases "k = key")
      case True
      then show ?thesis using k zero by (simp add: c i lock_ok_def)
    next
      case False
      then have k': "kl_map (ls_locks s) k = Some n" using k by (simp add: c)
      with fresh have "n \<noteq> ?i" by metis
      then show ?thesis by (intro lock_inv_other [OF inv k']) (simp_all add: c i)
    qed
  next
    fix k k' n assume "kl_map (ls_locks ?t) k = Some n" "kl_map (ls_locks ?t) k' = Some n"
    then show "k = k'" using lock_inv_inj [OF inv, of k n k'] fresh by (auto simp: c split: if_splits)
  qed
next
  case (Some k)
  from lock_invD [OF inv Some] obtain l where l: "kl_heap (ls_locks s) k = Some l"
    "lock_at (ls_locks s) k = l" "lock_ok (ls_pcs s) k l" "k < kl_next (ls_locks s)" .
  from ref Some l(2) have i: "i = k" and c: "kl_map c = kl_map (ls_locks s)"
    "kl_heap c = (kl_heap (ls_locks s))(k \<mapsto> l\<lparr>kl_refs := kl_refs l + 1\<rparr>)"
    "kl_next c = kl_next (ls_locks s)"
    by (auto simp: lock_ref_def)
  show ?thesis
  proof (rule lock_invI)
    fix pc k n assume "pc \<in> set (ls_pcs ?t)" "lock_key_of pc = Some (k, n)"
    then show "kl_map (ls_locks ?t) k = Some n"
      using lock_inv_pc [OF inv, of pc k n] Some by (auto simp: c i)
  next
    fix k' n assume k': "kl_map (ls_locks ?t) k' = Some n"
    then have k'': "kl_map (ls_locks s) k' = Some n" by (simp add: c)
    show "(\<exists>l. kl_heap (ls_locks ?t) n = Some l \<and> lock_ok (ls_pcs ?t) n l) \<and> n < kl_next (ls_locks ?t)"
    proof (cases "n = k")
      case True
      then show ?thesis using l by (simp add: c i lock_ok_def)
    next
      case False
      then show ?thesis by (intro lock_inv_other [OF inv k'']) (simp_all add: c i)
    qed
  next
    fix k1 k2 n assume "kl_map (ls_locks ?t) k1 = Some n" "kl_map (ls_locks ?t) k2 = Some n"
    then show "k1 = k2" using lock_inv_inj [OF inv, of k1 n k2] by (simp add: c)
  qed
qed

lemma lock_inv_move:
  assumes inv: "lock_inv s" and j: "j < length (ls_pcs s)" "lock_key_of (ls_pcs s ! j) = Some (key, i)"
    and new: "lock_key_of new = Some (key, i)" and c: "kl_map c = kl_map (ls_locks s)"
      "kl_heap c = (kl_heap (ls_locks s))(i \<mapsto> l)" "kl_next c = kl_next (ls_locks s)"
    and ok: "lock_ok ((ls_pcs s)[j := new]) i l"
    and hold: "\<And>k. k \<noteq> i \<Longrightarrow> holding k new = holding k (ls_pcs s ! j)"
  shows "lock_inv (s\<lparr>ls_locks := c, ls_pcs := (ls_pcs s)[j := new]\<rparr>)" (is "lock_inv ?t")
proof -
  have map: "kl_map (ls_locks s) key = Some i" using lock_pcD [OF inv j] .
  from lock_invD [OF inv map] have nx: "i < kl_next (ls_locks s)" .
  have refs: "refers k new = refers k (ls_pcs s ! j)" for k
    using new j(2) by (simp add: refers_iff)
  show ?thesis
  proof (rule lock_invI)
    fix pc k n assume "pc \<in> set (ls_pcs ?t)" "lock_key_of pc = Some (k, n)"
    then show "kl_map (ls_locks ?t) k = Some n"
      using lock_inv_pc [OF inv, of pc k n] map new set_update_subset_insert [of "ls_pcs s" j new]
      by (auto simp: c)
  next
    fix k' n assume "kl_map (ls_locks ?t) k' = Some n"
    then have k': "kl_map (ls_locks s) k' = Some n" by (simp add: c)
    show "(\<exists>l. kl_heap (ls_locks ?t) n = Some l \<and> lock_ok (ls_pcs ?t) n l) \<and> n < kl_next (ls_locks ?t)"
    proof (cases "n = i")
      case True
      then show ?thesis using ok nx by (simp add: c)
    next
      case False
      then show ?thesis
        by (intro lock_inv_other [OF inv k']) (simp_all add: c tally_update j(1) refs hold)
    qed
  next
    fix k1 k2 n assume "kl_map (ls_locks ?t) k1 = Some n" "kl_map (ls_locks ?t) k2 = Some n"
    then show "k1 = k2" using lock_inv_inj [OF inv, of k1 n k2] by (simp add: c)
  qed
qed

lemma lock_inv_unref:
  assumes inv: "lock_inv s" and j: "j < length (ls_pcs s)" "ls_pcs s ! j = LUnlocked key i"
  shows "lock_inv (s\<lparr>ls_locks := lock_unref key i (ls_locks s), ls_pcs := (ls_pcs s)[j := LDone]\<rparr>)"
    (is "lock_inv ?t")
proof -
  have map: "kl_map (ls_locks s) key = Some i" using lock_pcD [OF inv j(1)] j(2) by simp
  from lock_invD [OF inv map] obtain l where l: "kl_heap (ls_locks s) i = Some l"
    "lock_at (ls_locks s) i = l" "lock_ok (ls_pcs s) i l" "i < kl_next (ls_locks s)" .
  let ?l = "l\<lparr>kl_refs := kl_refs l - 1\<rparr>" and ?pcs = "(ls_pcs s)[j := LDone]"
  have cnt: "tally (refers i) ?pcs = kl_refs l - 1" "tally (holding i) ?pcs = (if kl_held l then 1 else 0)"
    using l(3) j by (simp_all add: lock_ok_def tally_update)
  have heap: "kl_heap (ls_locks ?t) = (kl_heap (ls_locks s))(i \<mapsto> ?l)"
    "kl_next (ls_locks ?t) = kl_next (ls_locks s)"
    and m: "kl_map (ls_locks ?t) =
      (if kl_refs l = 1 then (kl_map (ls_locks s))(key := None) else kl_map (ls_locks s))"
    by (simp_all add: lock_unref_def Let_def l(2))
  have pcs: "pc \<in> set ?pcs \<Longrightarrow> pc \<in> set (ls_pcs s) \<or> pc = LDone" for pc
    using set_update_subset_insert [of "ls_pcs s" j LDone] by auto
  show ?thesis
  proof (rule lock_invI)
    fix pc k n assume pc: "pc \<in> set (ls_pcs ?t)" "lock_key_of pc = Some (k, n)"
    then have "pc \<in> set (ls_pcs s)" using pcs [of pc] by auto
    then have k: "kl_map (ls_locks s) k = Some n" using lock_inv_pc [OF inv] pc(2) by blast
    have "kl_refs l \<noteq> 1" if "k = key"
    proof
      assume "kl_refs l = 1"
      then have "tally (refers i) ?pcs = 0" using cnt by simp
      then have "\<not> refers i pc" using pc(1) by (auto simp: tally_def filter_empty_conv)
      moreover have "n = i" using k map that by simp
      ultimately show False using pc(2) by (auto simp: refers_iff)
    qed
    then show "kl_map (ls_locks ?t) k = Some n" unfolding m using k by auto
  next
    fix k n assume kt: "kl_map (ls_locks ?t) k = Some n"
    then have k: "kl_map (ls_locks s) k = Some n" unfolding m by (auto split: if_splits)
    show "(\<exists>l. kl_heap (ls_locks ?t) n = Some l \<and> lock_ok (ls_pcs ?t) n l) \<and> n < kl_next (ls_locks ?t)"
    proof (cases "n = i")
      case True
      then have "k = key" using lock_inv_inj [OF inv] k map by simp
      then have "kl_refs l \<noteq> 1" using kt unfolding m by auto
      then have "lock_ok ?pcs i ?l" using l(3) cnt by (simp add: lock_ok_def)
      then show ?thesis unfolding heap using l(4) True by simp
    next
      case False
      then show ?thesis
        unfolding heap by (intro lock_inv_other [OF inv k]) (simp_all add: tally_update j)
    qed
  next
    fix k1 k2 n assume "kl_map (ls_locks ?t) k1 = Some n" "kl_map (ls_locks ?t) k2 = Some n"
    then show "k1 = k2" unfolding m using lock_inv_inj [OF inv, of k1 n k2] by (auto split: if_splits)
  qed
qed

lemma lock_inv_step:
  assumes inv: "lock_inv s" and step: "lock_step s t"
  shows "lock_inv t"
  using step
proof cases
  case (ls_ref key i c)
  then show ?thesis using lock_inv_ref [OF inv] by simp
next
  case (ls_take j key i c)
  have key: "lock_key_of (ls_pcs s ! j) = Some (key, i)" using ls_take by simp
  from lock_invD [OF inv lock_pcD [OF inv ls_take(2) key]] obtain l where
    l: "kl_heap (ls_locks s) i = Some l" "lock_at (ls_locks s) i = l" "lock_ok (ls_pcs s) i l" .
  from ls_take(4) have free: "\<not> kl_held l"
    and c: "c = (ls_locks s)\<lparr>kl_heap := (kl_heap (ls_locks s))(i \<mapsto> l\<lparr>kl_held := True\<rparr>)\<rparr>"
    by (auto simp: lock_take_def l(2) split: if_splits)
  show ?thesis
    unfolding ls_take(1)
    by (rule lock_inv_move [OF inv ls_take(2) key, where l = "l\<lparr>kl_held := True\<rparr>"])
      (use l(3) ls_take(2,3) free in \<open>auto simp: c lock_ok_def tally_update\<close>)
next
  case (ls_free j key i)
  have key: "lock_key_of (ls_pcs s ! j) = Some (key, i)" using ls_free by simp
  from lock_invD [OF inv lock_pcD [OF inv ls_free(2) key]] obtain l where
    l: "kl_heap (ls_locks s) i = Some l" "lock_at (ls_locks s) i = l" "lock_ok (ls_pcs s) i l" .
  have "0 < tally (holding i) (ls_pcs s)" using tally_pos [OF ls_free(2)] ls_free(3) by simp
  then have held: "kl_held l" using l(3) by (auto simp: lock_ok_def split: if_splits)
  show ?thesis
    unfolding ls_free(1)
    by (rule lock_inv_move [OF inv ls_free(2) key, where l = "l\<lparr>kl_held := False\<rparr>"])
      (use l ls_free(2,3) held in \<open>auto simp: lock_free_def lock_ok_def tally_update\<close>)
next
  case (ls_unref j key i)
  then show ?thesis using lock_inv_unref [OF inv] by simp
qed

definition lock_start :: "lock_sys \<Rightarrow> bool" where
  "lock_start s \<longleftrightarrow> s = \<lparr>ls_locks = newKeyLocks, ls_pcs = []\<rparr>"

lemma lock_inv_start: "lock_start s \<Longrightarrow> lock_inv s"
  by (simp add: lock_start_def lock_inv_def newKeyLocks_def)

interpretation locks: transition_system lock_start lock_step lock_inv
  by unfold_locales (auto intro: lock_inv_start lock_inv_step)

section \<open>Mutual exclusion, progress, no leak\<close>

lemma tally_two:
  assumes "i < length xs" and "j < length xs" and "i \<noteq> j" and "P (xs ! i)" and "P (xs ! j)"
  shows "2 \<le> tally P xs"
proof -
  have "{i, j} \<subseteq> {k. k < length xs \<and> P (xs ! k)}" using assms by auto
  then have "card {i, j} \<le> card {k. k < length xs \<and> P (xs ! k)}" by (intro card_mono) auto
  then show ?thesis using assms(3) by (simp add: tally_def length_filter_conv_card)
qed

lemma one_holder:
  assumes inv: "lock_inv s" and "j < length (ls_pcs s)" and "k < length (ls_pcs s)"
    and "ls_pcs s ! j = LHolding key i" and "ls_pcs s ! k = LHolding key i'"
  shows "j = k"
proof (rule ccontr)
  assume ne: "j \<noteq> k"
  have map: "kl_map (ls_locks s) key = Some i" "kl_map (ls_locks s) key = Some i'"
    using lock_pcD [OF inv assms(2)] lock_pcD [OF inv assms(3)] assms(4,5) by auto
  from lock_invD [OF inv map(1)] obtain l where "lock_ok (ls_pcs s) i l" .
  then have "tally (holding i) (ls_pcs s) \<le> 1" by (auto simp: lock_ok_def)
  moreover have "2 \<le> tally (holding i) (ls_pcs s)"
    using tally_two [OF assms(2,3) ne, of "holding i"] assms(4,5) map by simp
  ultimately show False by simp
qed

text \<open>A waiting thread can go on exactly when nobody holds its key.\<close>

lemma waiter_proceeds:
  assumes inv: "lock_inv s" and j: "j < length (ls_pcs s)" "ls_pcs s ! j = LWaiting key i"
  shows "lock_take i (ls_locks s) \<noteq> None \<longleftrightarrow> (\<forall>pc \<in> set (ls_pcs s). \<forall>i'. pc \<noteq> LHolding key i')"
proof -
  have map: "kl_map (ls_locks s) key = Some i" using lock_pcD [OF inv j(1)] j(2) by simp
  from lock_invD [OF inv map] obtain l where l: "lock_at (ls_locks s) i = l" "lock_ok (ls_pcs s) i l" .
  have "lock_take i (ls_locks s) \<noteq> None \<longleftrightarrow> tally (holding i) (ls_pcs s) = 0"
    using l by (auto simp: lock_take_def lock_ok_def)
  also have "\<dots> \<longleftrightarrow> (\<forall>pc \<in> set (ls_pcs s). \<not> holding i pc)"
    by (simp add: tally_def filter_empty_conv)
  also have "\<dots> \<longleftrightarrow> (\<forall>pc \<in> set (ls_pcs s). \<forall>i'. pc \<noteq> LHolding key i')"
  proof -
    have "holding i pc \<longleftrightarrow> (\<exists>i'. pc = LHolding key i')" if "pc \<in> set (ls_pcs s)" for pc
      using lock_inv_pc [OF inv that] map lock_inv_inj [OF inv] by (cases pc) (fastforce simp: refers_iff)+
    then show ?thesis by auto
  qed
  finally show ?thesis .
qed

lemma locks_released:
  assumes inv: "lock_inv s" and "set (ls_pcs s) \<subseteq> {LDone}"
  shows "kl_map (ls_locks s) = Map.empty"
proof
  fix key
  have "filter (refers i) (ls_pcs s) = []" for i using assms(2) by (auto simp: filter_empty_conv)
  then have "tally (refers i) (ls_pcs s) = 0" for i by (simp add: tally_def)
  then show "kl_map (ls_locks s) key = None"
    using inv by (cases "kl_map (ls_locks s) key") (auto simp: lock_ok_def elim!: lock_invD)
qed

end
