(* ===== verification/Serve_Handlers.thy ===== *)
theory Serve_Handlers
  imports Lint_Handler Json_Text
begin

text \<open>
  \<open>internal/serve/handlers.go\<close>: one request from the listener to the response.  The
  response writer with its \<open>reqInfo\<close> is the record \<open>writer\<close>; the semaphore \<open>s.uploads\<close> is
  a channel by its capacity and the values in it.  What a request meets outside the
  server is the record \<open>http_io\<close>, which holds the one of the lint and of the upload;
  the wording of the lint errors, which \<open>Lint_Handler\<close> leaves out, is part of it, and so
  are the texts of Go errors.
\<close>

section \<open>The response writer\<close>

record req_info =
  ri_status :: int
  ri_code :: string
  ri_language :: string
  ri_queueMs :: int
  ri_runMs :: int
  ri_abandoned :: bool

record writer =
  wr_header :: "string \<rightharpoonup> string"
  wr_status :: int             \<comment> \<open>0 until the header is written\<close>
  wr_body :: string
  wr_info :: req_info

definition new_writer :: writer where
  "new_writer =
     \<lparr>wr_header = Map.empty, wr_status = 0, wr_body = [],
      wr_info = \<lparr>ri_status = 0, ri_code = [], ri_language = [], ri_queueMs = 0, ri_runMs = 0,
        ri_abandoned = False\<rparr>\<rparr>"

text \<open>A second \<open>WriteHeader\<close> of a response has no effect in \<open>net/http\<close>.\<close>

definition WriteHeader :: "int \<Rightarrow> writer \<Rightarrow> writer" where
  "WriteHeader status w =
     w\<lparr>wr_status := (if wr_status w = 0 then status else wr_status w),
       wr_info := (if ri_status (wr_info w) = 0 then (wr_info w)\<lparr>ri_status := status\<rparr> else wr_info w)\<rparr>"

definition set_header :: "string \<Rightarrow> string \<Rightarrow> writer \<Rightarrow> writer" where
  "set_header key v w = w\<lparr>wr_header := (wr_header w)(key \<mapsto> v)\<rparr>"

definition writeJSON :: "string list \<Rightarrow> int \<Rightarrow> string \<Rightarrow> writer \<Rightarrow> writer" where
  "writeJSON redacts status b w =
     (let b = redact redacts b;
          w = set_header ''Content-Type'' ''application/json; charset=utf-8'' w;
          w = set_header ''Content-Length'' (int_text (int (length b))) w;
          w = WriteHeader status w
      in w\<lparr>wr_body := wr_body w @ b\<rparr>)"

text \<open>The bodies of these responses are structs of strings, which always marshal.\<close>

definition writeBody :: "string list \<Rightarrow> int \<Rightarrow> json \<Rightarrow> writer \<Rightarrow> writer" where
  "writeBody redacts status v w = writeJSON redacts status (marshal v) w"

definition error_body :: "string \<Rightarrow> string \<Rightarrow> string \<Rightarrow> json" where
  "error_body code message details =
     JObj [(''error'', JObj ([(''code'', JStr code), (''message'', JStr message)]
             @ omit_empty ''details'' details))]"

definition writeError ::
  "string list \<Rightarrow> int \<Rightarrow> string \<Rightarrow> string \<Rightarrow> string \<Rightarrow> writer \<Rightarrow> writer" where
  "writeError redacts status code message details w =
     (let w = w\<lparr>wr_info := (wr_info w)\<lparr>ri_code := code\<rparr>\<rparr>;
          w = (if status = 503 \<and> wr_header w ''Retry-After'' = None
               then set_header ''Retry-After'' ''1'' w else w)
      in writeBody redacts status (error_body code message details) w)"

definition abandon :: "writer \<Rightarrow> writer" where
  "abandon w = w\<lparr>wr_info := (wr_info w)\<lparr>ri_abandoned := True\<rparr>\<rparr>"

section \<open>Server and request\<close>

record serve_conf =
  sc_lint :: lint_server
  sc_token :: string
  sc_manifest :: string
  sc_deadline :: int           \<comment> \<open>nanoseconds\<close>
  sc_cacheMax :: int

record serve_state =
  ss_pool :: pool
  ss_uploads :: int            \<comment> \<open>values in the channel\<close>
  ss_uploads_cap :: int
  ss_cache :: asset_cache
  ss_state :: readiness

record http_request =
  hr_method :: string
  hr_path :: string            \<comment> \<open>\<open>r.URL.Path\<close>\<close>
  hr_escaped :: string         \<comment> \<open>\<open>r.URL.EscapedPath()\<close>\<close>
  hr_token :: string
  hr_traceparent :: string

record http_io =
  hi_now :: int
  hi_held :: "int option"      \<comment> \<open>the checker's \<open>LongestInFlight\<close>, \<open>None\<close> for a nil checker\<close>
  hi_lint :: lint_io
  hi_lint_text :: "lint_error \<Rightarrow> string \<times> string"
  hi_put :: put_env
  hi_tar :: "tar_entry list"
  hi_tar_end :: "read_err option"
  hi_gone :: bool              \<comment> \<open>after the upload\<close>
  hi_error_text :: "upload_error \<Rightarrow> string"

definition upload_enter :: "serve_state \<Rightarrow> serve_state option" where
  "upload_enter st =
     (if ss_uploads st \<ge> ss_uploads_cap st then None else Some (st\<lparr>ss_uploads := ss_uploads st + 1\<rparr>))"

definition upload_leave :: "serve_state \<Rightarrow> serve_state" where
  "upload_leave st = st\<lparr>ss_uploads := ss_uploads st - 1\<rparr>"

interpretation uploads: bounded_counter upload_enter upload_leave ss_uploads ss_uploads_cap
  by unfold_locales (auto simp: upload_enter_def upload_leave_def split: if_splits)

section \<open>The endpoints\<close>

definition redacts_of :: "serve_conf \<Rightarrow> string list" where
  "redacts_of sv = ls_redacts (sc_lint sv)"

definition stuck :: "serve_conf \<Rightarrow> string \<Rightarrow> writer \<Rightarrow> writer" where
  "stuck sv reason w =
     writeBody (redacts_of sv) 503 (JObj [(''reason'', JStr reason), (''status'', JStr ''stuck'')]) w"

text \<open>The members of a Go map are marshalled in the order of their keys.\<close>

definition handleLive :: "serve_conf \<Rightarrow> http_io \<Rightarrow> serve_state \<Rightarrow> writer \<Rightarrow> writer" where
  "handleLive sv io st w =
     (let held = longestHold (hi_now io) (ss_pool st);
          limit = wrap64 (3 * sc_deadline sv)
      in if held > limit
         then stuck sv (''a worker slot has been held for '' @ int_text (held div 1000000) @ '' ms'') w
         else (case hi_held io of
             Some h \<Rightarrow>
               if h > limit
               then stuck sv (''a javac request has been running for '' @ int_text (h div 1000000) @ '' ms'') w
               else writeBody (redacts_of sv) 200 (JObj [(''status'', JStr ''ok'')]) w
           | None \<Rightarrow> writeBody (redacts_of sv) 200 (JObj [(''status'', JStr ''ok'')]) w))"

definition handleReady :: "serve_conf \<Rightarrow> serve_state \<Rightarrow> writer \<Rightarrow> writer" where
  "handleReady sv st w =
     (case snapshot (ss_state st) of
        (status, pending, reason) \<Rightarrow>
          writeBody (redacts_of sv) (if status \<noteq> ''ready'' then 503 else 200)
            (JObj ([(''status'', JStr status)]
               @ (if pending = [] then [] else [(''pending'', JArr (map JStr pending))])
               @ omit_empty ''reason'' reason)) w)"

text \<open>The responses of an upload that ended.\<close>

fun upload_response :: "serve_conf \<Rightarrow> http_io \<Rightarrow> upload_error \<Rightarrow> int \<times> string \<times> string \<times> string" where
  "upload_response sv io (InvalidAssets r) =
     (422, ''assets_invalid'', ''The asset archive is not acceptable.'', hi_error_text io (InvalidAssets r))"
| "upload_response sv io TooLarge =
     (413, ''payload_too_large'',
      ''The asset set exceeds '' @ int_text (sc_cacheMax sv) @ '' bytes.'', [])"
| "upload_response sv io UploadSlow =
     (504, ''timeout'', ''The upload did not finish within 60 seconds.'', [])"
| "upload_response sv io CacheFull =
     (507, ''cache_full'', ''The asset cache cannot make room.'', [])"
| "upload_response sv io NotTar =
     (400, ''bad_request'', ''The body is not a tar stream.'', hi_error_text io NotTar)"
| "upload_response sv io (DiskFailure e) =
     (500, ''internal'', ''Storing the assets failed.'', hi_error_text io (DiskFailure e))"

definition answer_upload ::
  "serve_conf \<Rightarrow> http_io \<Rightarrow> upload_error option \<Rightarrow> writer \<Rightarrow> writer" where
  "answer_upload sv io err w =
     (if hi_gone io \<and> err \<noteq> Some UploadSlow then abandon w
      else (case err of
          None \<Rightarrow> WriteHeader 204 w
        | Some e \<Rightarrow>
            (case upload_response sv io e of
               (status, code, message, details) \<Rightarrow>
                 writeError (redacts_of sv) status code message details w)))"

definition handleAssets ::
  "serve_conf \<Rightarrow> http_io \<Rightarrow> http_request \<Rightarrow> serve_state \<Rightarrow> writer \<Rightarrow>
     (writer \<times> serve_state) option" where
  "handleAssets sv io rq st w =
     (let rest = trim_prefix (hr_escaped rq) ''/v1/assets/''
      in case cut_at CHR ''/'' rest of
           (key, fp, ok) \<Rightarrow>
             if \<not> ok \<or> \<not> re_matches cacheKeyRE key \<or> \<not> re_matches fingerprintRE fp
             then Some (writeError (redacts_of sv) 400 ''bad_request''
                    ''The asset path must be /v1/assets/{cache_key}/{fingerprint}.'' [] w, st)
             else (case upload_enter st of
                 None \<Rightarrow>
                   Some (writeError (redacts_of sv) 503 ''busy''
                     ''Too many asset uploads are in progress.'' []
                     (set_header ''Retry-After'' ''1'' w), st)
               | Some st1 \<Rightarrow>
                   (case cache_put (hi_put io) key fp (hi_tar io) (hi_tar_end io) (ss_cache st1) of
                      None \<Rightarrow> None
                    | Some (err, c) \<Rightarrow>
                        Some (answer_upload sv io err w, upload_leave (st1\<lparr>ss_cache := c\<rparr>)))))"

text \<open>The lint endpoint, from the outcome of \<open>Lint_Handler.handleLint\<close> to the response.\<close>

definition lint_language :: "serve_conf \<Rightarrow> http_io \<Rightarrow> string" where
  "lint_language sv io =
     (case li_body (hi_lint io) of
        Inl _ \<Rightarrow> []
      | Inr body \<Rightarrow>
          (case decodeLint (ls_linters (sc_lint sv)) body of
             Inl _ \<Rightarrow> []
           | Inr job \<Rightarrow> l_language (jb_linter job)))"

definition answer_lint :: "serve_conf \<Rightarrow> http_io \<Rightarrow> lint_answer \<Rightarrow> writer \<Rightarrow> writer" where
  "answer_lint sv io a w =
     (case a of
        NoAnswer \<Rightarrow> abandon w
      | AnswerError e \<Rightarrow>
          writeError (redacts_of sv) (le_status e) (le_code e) (fst (hi_lint_text io e))
            (snd (hi_lint_text io e)) w
      | AnswerReport b \<Rightarrow> (WriteHeader 200
          (set_header ''Content-Length'' (int_text (int (length b)))
            (set_header ''Content-Type'' ''application/json; charset=utf-8'' w)))\<lparr>wr_body := wr_body w @ b\<rparr>)"

definition serve_lint ::
  "serve_conf \<Rightarrow> http_io \<Rightarrow> serve_state \<Rightarrow> writer \<Rightarrow> (writer \<times> serve_state) option" where
  "serve_lint sv io st w =
     (case handleLint (sc_lint sv) (hi_lint io) (ss_state st) (ss_pool st) (ss_cache st) of
        None \<Rightarrow> None
      | Some (a, p, c) \<Rightarrow>
          Some (answer_lint sv io a (w\<lparr>wr_info := (wr_info w)\<lparr>ri_language := lint_language sv io\<rparr>\<rparr>),
            st\<lparr>ss_pool := p, ss_cache := c\<rparr>))"

section \<open>Routing\<close>

definition allow :: "serve_conf \<Rightarrow> http_request \<Rightarrow> string \<Rightarrow> writer \<Rightarrow> bool \<times> writer" where
  "allow sv rq method w =
     (if hr_method rq = method then (True, w)
      else (False, writeError (redacts_of sv) 405 ''method_not_allowed''
              (''Use '' @ method @ '' for this endpoint.'') [] (set_header ''Allow'' method w)))"

definition route ::
  "serve_conf \<Rightarrow> http_io \<Rightarrow> http_request \<Rightarrow> serve_state \<Rightarrow> writer \<Rightarrow>
     (writer \<times> serve_state) option" where
  "route sv io rq st w =
     (let p = hr_path rq;
          go = (\<lambda>method f. case allow sv rq method w of (True, w) \<Rightarrow> f w | (False, w) \<Rightarrow> Some (w, st))
      in if p = ''/v1/manifest''
         then go ''GET'' (\<lambda>w. Some (writeJSON (redacts_of sv) 200 (sc_manifest sv) w, st))
         else if p = ''/v1/lint'' then go ''POST'' (serve_lint sv io st)
         else if has_prefix p ''/v1/assets/'' then go ''PUT'' (handleAssets sv io rq st)
         else if p = ''/healthz/live'' then go ''GET'' (\<lambda>w. Some (handleLive sv io st w, st))
         else if p = ''/healthz/ready'' then go ''GET'' (\<lambda>w. Some (handleReady sv st w, st))
         else Some (writeError (redacts_of sv) 404 ''not_found'' ''No such endpoint.'' [] w, st))"

definition health :: "http_request \<Rightarrow> bool" where
  "health rq \<longleftrightarrow> hr_method rq = ''GET'' \<and> (hr_path rq = ''/healthz/live'' \<or> hr_path rq = ''/healthz/ready'')"

definition unauthorized :: "serve_conf \<Rightarrow> writer" where
  "unauthorized sv =
     writeError (redacts_of sv) 401 ''unauthorized'' ''The request lacks a valid linter token.'' [] new_writer"

definition handler ::
  "serve_conf \<Rightarrow> bool \<Rightarrow> http_io \<Rightarrow> http_request \<Rightarrow> serve_state \<Rightarrow>
     (writer \<times> serve_state) option" where
  "handler sv tcp io rq st =
     (if tcp \<and> \<not> health rq \<and> \<not> tokenOK (sc_token sv) (hr_token rq) then Some (unauthorized sv, st)
      else route sv io rq st new_writer)"

section \<open>The request log\<close>

text \<open>\<^verbatim>\<open>^[0-9a-f]{2}-([0-9a-f]{32})-[0-9a-f]{16}-[0-9a-f]{2}$\<close>\<close>

definition traceparentRE :: re where
  "traceparentRE =
     Seq (Rep hex_digit 2 (Some 2)) (Seq (Lit ''-'') (Seq (Cap 1 (Rep hex_digit 32 (Some 32)))
       (Seq (Lit ''-'') (Seq (Rep hex_digit 16 (Some 16)) (Seq (Lit ''-'') (Rep hex_digit 2 (Some 2)))))))"

datatype log_value = LogString string | LogInt int | LogBool bool

definition logRequest :: "http_request \<Rightarrow> req_info \<Rightarrow> int \<Rightarrow> (string \<times> log_value) list" where
  "logRequest rq ri ms =
     [(''method'', LogString (hr_method rq)), (''path'', LogString (hr_path rq)),
      (''status'', LogInt (ri_status ri)), (''ms'', LogInt ms)]
     @ (if ri_abandoned ri then [(''abandoned'', LogBool True)] else [])
     @ (if ri_code ri \<noteq> [] then [(''code'', LogString (ri_code ri))] else [])
     @ (if ri_language ri \<noteq> []
        then [(''language'', LogString (ri_language ri)), (''queue_ms'', LogInt (ri_queueMs ri)),
              (''run_ms'', LogInt (ri_runMs ri))] else [])
     @ (case re_full traceparentRE (hr_traceparent rq) of
          None \<Rightarrow> []
        | Some m \<Rightarrow> (case m 1 of
              Some t \<Rightarrow> if t \<noteq> replicate 32 CHR ''0'' then [(''trace_id'', LogString t)] else []
            | None \<Rightarrow> []))"

section \<open>Every response\<close>

text \<open>
  What the contract promises of a response: one status, a body only with its length and
  redacted, \<open>Retry-After\<close> on exactly the 503 answers with an error code, and no response
  only for a client that left.
\<close>

definition blank :: "writer \<Rightarrow> bool" where
  "blank w \<longleftrightarrow> wr_status w = 0 \<and> wr_body w = [] \<and> wr_header w ''Retry-After'' = None \<and>
     ri_status (wr_info w) = 0 \<and> ri_code (wr_info w) = [] \<and> \<not> ri_abandoned (wr_info w)"

definition response_ok :: "string list \<Rightarrow> writer \<Rightarrow> bool" where
  "response_ok rs w \<longleftrightarrow>
     ri_status (wr_info w) = wr_status w \<and>
     (wr_status w = 0 \<longleftrightarrow> ri_abandoned (wr_info w)) \<and>
     (wr_body w = [] \<or> (\<exists>b. wr_body w = redact rs b) \<and>
        wr_header w ''Content-Length'' = Some (int_text (int (length (wr_body w))))) \<and>
     wr_header w ''Retry-After'' =
       (if wr_status w = 503 \<and> ri_code (wr_info w) \<noteq> [] then Some ''1'' else None)"

lemma blank_new [simp]: "blank new_writer"
  by (simp add: blank_def new_writer_def)

lemma blank_header [simp]: "key \<noteq> ''Retry-After'' \<Longrightarrow> blank (set_header key v w) = blank w"
  by (simp add: blank_def set_header_def)

lemma ok_writeError:
  assumes "blank w" and "status \<noteq> 0" and "code \<noteq> []"
  shows "response_ok rs (writeError rs status code message details w)"
  using assms
  by (auto simp: response_ok_def blank_def writeError_def writeBody_def writeJSON_def WriteHeader_def
      set_header_def Let_def)

lemma ok_writeBody:
  assumes "blank w" and "status \<noteq> 0"
  shows "response_ok rs (writeBody rs status v w)"
  using assms
  by (auto simp: response_ok_def blank_def writeBody_def writeJSON_def WriteHeader_def
      set_header_def Let_def)

lemma ok_writeJSON:
  assumes "blank w" and "status \<noteq> 0"
  shows "response_ok rs (writeJSON rs status b w)"
  using assms
  by (auto simp: response_ok_def blank_def writeJSON_def WriteHeader_def set_header_def Let_def)

lemma ok_abandon: "blank w \<Longrightarrow> response_ok rs (abandon w)"
  by (simp add: response_ok_def blank_def abandon_def)

lemma ok_204: "blank w \<Longrightarrow> response_ok rs (WriteHeader 204 w)"
  by (simp add: response_ok_def blank_def WriteHeader_def)

lemma ok_busy: "blank w \<Longrightarrow>
    response_ok rs (writeError rs 503 ''busy'' message details (set_header ''Retry-After'' ''1'' w))"
  by (auto simp: response_ok_def blank_def writeError_def writeBody_def writeJSON_def WriteHeader_def
      set_header_def Let_def)

lemmas ok_response = ok_writeError ok_writeBody ok_writeJSON ok_abandon ok_204 ok_busy

lemma ok_handleLive: "blank w \<Longrightarrow> response_ok (redacts_of sv) (handleLive sv io st w)"
  by (auto simp: handleLive_def stuck_def Let_def ok_response split: option.splits)

lemma ok_handleReady: "blank w \<Longrightarrow> response_ok (redacts_of sv) (handleReady sv st w)"
  by (auto simp: handleReady_def ok_response split: prod.splits)

lemma ok_answer_upload: "blank w \<Longrightarrow> response_ok (redacts_of sv) (answer_upload sv io err w)"
  by (cases err; cases "the err") (auto simp: answer_upload_def ok_response)

lemma ok_handleAssets:
  assumes "handleAssets sv io rq st w = Some (w', st')" and "blank w"
  shows "response_ok (redacts_of sv) w'"
  using assms
  by (auto simp: handleAssets_def Let_def ok_response ok_answer_upload
      split: prod.splits if_splits option.splits)

lemma lint_errors_shape: "\<forall>e \<in> set lint_errors. le_status e \<noteq> 0 \<and> le_code e \<noteq> []"
  by (simp add: lint_errors_def request_errors_def badRequest_def lint_error_def)

lemma ok_answer_lint:
  assumes "handleLint lsv lio st p c = Some (a, p', c')" and "blank w" and "lsv = sc_lint sv"
  shows "response_ok (redacts_of sv) (answer_lint sv io a w)"
proof (cases a)
  case (AnswerError e)
  then show ?thesis
    using assms handleLint_errors lint_errors_shape by (fastforce simp: answer_lint_def ok_response)
next
  case (AnswerReport b)
  with assms obtain doc where "b = redact (redacts_of sv) doc"
    by (auto simp: redacts_of_def elim: handleLint_report)
  with AnswerReport assms(2) show ?thesis
    by (auto simp: answer_lint_def response_ok_def blank_def WriteHeader_def set_header_def)
qed (simp add: answer_lint_def ok_response assms)

lemma ok_serve_lint:
  assumes "serve_lint sv io st w = Some (w', st')" and "blank w"
  shows "response_ok (redacts_of sv) w'"
proof -
  from assms(1) obtain a p c where
    a: "handleLint (sc_lint sv) (hi_lint io) (ss_state st) (ss_pool st) (ss_cache st) = Some (a, p, c)"
    and w': "w' = answer_lint sv io a (w\<lparr>wr_info := (wr_info w)\<lparr>ri_language := lint_language sv io\<rparr>\<rparr>)"
    by (auto simp: serve_lint_def split: option.splits)
  show ?thesis
    unfolding w' by (rule ok_answer_lint [OF a _ refl]) (use assms(2) in \<open>simp add: blank_def\<close>)
qed

lemma allow_cases:
  obtains "hr_method rq = m" and "allow sv rq m w = (True, w)"
  | "hr_method rq \<noteq> m" and "allow sv rq m w = (False, writeError (redacts_of sv) 405 ''method_not_allowed''
              (''Use '' @ m @ '' for this endpoint.'') [] (set_header ''Allow'' m w))"
  by (cases "hr_method rq = m") (simp_all add: allow_def)

lemma ok_allow:
  assumes "(case allow sv rq m w of (True, w) \<Rightarrow> f w | (False, w) \<Rightarrow> Some (w, st)) = Some (w', st')"
    and "blank w" and "f w = Some (w', st') \<Longrightarrow> response_ok (redacts_of sv) w'"
  shows "response_ok (redacts_of sv) w'"
  by (rule allow_cases [of rq m sv w]) (use assms in \<open>auto simp: ok_response\<close>)

lemma ok_route:
  assumes "route sv io rq st w = Some (w', st')" and "blank w"
  shows "response_ok (redacts_of sv) w'"
  using assms(1) unfolding route_def Let_def
  by (simp split: if_splits)
    ((elim ok_allow conjE; use assms(2) in \<open>auto simp: ok_response ok_handleLive ok_handleReady
      ok_handleAssets ok_serve_lint\<close>)+)

lemma handler_response_ok:
  assumes "handler sv tcp io rq st = Some (w, st')"
  shows "response_ok (redacts_of sv) w"
  using assms ok_route [of sv io rq st new_writer w st']
  by (auto simp: handler_def unauthorized_def ok_response split: if_splits)

text \<open>No response shows a configured token.\<close>

lemma handler_redacted:
  assumes "handler sv tcp io rq st = Some (w, st')"
    and "t \<in> set (redacts_of sv)" and "bracket_free t" and "length redacted_mark < length t"
  shows "\<not> sublist t (wr_body w)"
proof -
  from assms(4) have "t \<noteq> []" by auto
  with handler_response_ok [OF assms(1)] redact_removes [OF assms(2-4)] show ?thesis
    by (auto simp: response_ok_def)
qed

section \<open>Authentication\<close>

text \<open>An unauthenticated TCP client gets the same answer for every path and changes nothing.\<close>

lemma handler_unauthorized:
  "\<not> health rq \<Longrightarrow> \<not> tokenOK (sc_token sv) (hr_token rq) \<Longrightarrow>
     handler sv True io rq st = Some (unauthorized sv, st)"
  by (simp add: handler_def)

lemma unauthorized_status: "wr_status (unauthorized sv) = 401"
  by (simp add: unauthorized_def writeError_def writeBody_def writeJSON_def WriteHeader_def
      set_header_def new_writer_def Let_def)

section \<open>The counters after a request\<close>

lemma handleAssets_counters:
  assumes "handleAssets sv io rq st w = Some (w', st')"
  shows "ss_uploads st' = ss_uploads st" and "ss_pool st' = ss_pool st" and "ss_state st' = ss_state st"
    and "ss_uploads_cap st' = ss_uploads_cap st"
  using assms
  by (auto simp: handleAssets_def Let_def upload_enter_def upload_leave_def
      split: prod.splits if_splits option.splits)

lemma serve_lint_counters:
  assumes "serve_lint sv io st w = Some (w', st')" and "holds_fresh (ss_pool st)"
  shows "ss_uploads st' = ss_uploads st" and "ss_state st' = ss_state st"
    and "ss_uploads_cap st' = ss_uploads_cap st"
    and "po_admitted (ss_pool st') = po_admitted (ss_pool st)"
    and "po_slots (ss_pool st') = po_slots (ss_pool st)"
    and "po_holds (ss_pool st') = po_holds (ss_pool st)"
  using assms handleLint_pool
  by (auto simp: serve_lint_def split: option.splits)

definition same_counters :: "serve_state \<Rightarrow> serve_state \<Rightarrow> bool" where
  "same_counters st st' \<longleftrightarrow>
     ss_uploads st' = ss_uploads st \<and> ss_uploads_cap st' = ss_uploads_cap st \<and>
     ss_state st' = ss_state st \<and>
     po_admitted (ss_pool st') = po_admitted (ss_pool st) \<and>
     po_slots (ss_pool st') = po_slots (ss_pool st) \<and> po_holds (ss_pool st') = po_holds (ss_pool st)"

lemma same_counters_refl [simp]: "same_counters st st"
  by (simp add: same_counters_def)

lemma handler_counters:
  assumes "handler sv tcp io rq st = Some (w, st')" and "holds_fresh (ss_pool st)"
  shows "same_counters st st'"
proof -
  have la: "same_counters st st'" if "serve_lint sv io st v = Some (v', st')" for v v'
    using serve_lint_counters [OF that assms(2)] by (simp add: same_counters_def)
  have as: "same_counters st st'" if "handleAssets sv io rq st v = Some (v', st')" for v v'
    using handleAssets_counters [OF that] by (simp add: same_counters_def)
  from assms(1) show ?thesis
    unfolding handler_def route_def Let_def
    by (auto split: if_splits prod.splits bool.splits dest: la as)
qed

section \<open>Health\<close>

lemma handleReady_status:
  assumes "blank w"
  shows "wr_status (handleReady sv st w) =
    (if rd_failed (ss_state st) = [] \<and> rd_ready (ss_state st) then 200 else 503)"
  using assms
  by (auto simp: handleReady_def snapshot_def writeBody_def writeJSON_def WriteHeader_def
      set_header_def Let_def blank_def)

text \<open>Within the range of a duration, stuck means held for more than three deadlines.\<close>

lemma handleLive_status:
  assumes "blank w" and "in_int64 (3 * sc_deadline sv)" and "0 \<le> sc_deadline sv"
  shows "wr_status (handleLive sv io st w) =
    (if (\<exists>h \<in> set (po_holds (ss_pool st)). 3 * sc_deadline sv < hi_now io - snd h)
        \<or> (\<exists>h. hi_held io = Some h \<and> 3 * sc_deadline sv < h)
     then 503 else 200)"
proof -
  have "0 \<le> 3 * sc_deadline sv" using assms(3) by simp
  from holds.overdue_iff [OF this] have
    "3 * sc_deadline sv < longestHold (hi_now io) (ss_pool st) \<longleftrightarrow>
      (\<exists>h \<in> set (po_holds (ss_pool st)). 3 * sc_deadline sv < hi_now io - snd h)" .
  then show ?thesis
    using assms(1) wrap64_id [OF assms(2)]
    by (auto simp: handleLive_def stuck_def writeBody_def writeJSON_def WriteHeader_def
      set_header_def Let_def blank_def split: option.splits)
qed

text \<open>A deadline of about 98 years or more overflows the product: the idle server is stuck.\<close>

lemma handleLive_overflow:
  assumes "sc_deadline sv = 4 * 10 ^ 18" and "po_holds (ss_pool st) = []"
  shows "wr_status (handleLive sv io st new_writer) = 503"
proof -
  have "wrap64 (3 * sc_deadline sv) < 0" by (simp add: assms(1) wrap64_def)
  moreover have "longestHold (hi_now io) (ss_pool st) = 0" by (rule holds.longest_idle [OF assms(2)])
  ultimately show ?thesis
    by (simp add: handleLive_def stuck_def writeBody_def writeJSON_def WriteHeader_def
      set_header_def new_writer_def Let_def)
qed

section \<open>Trace ids\<close>

lemma logRequest_trace:
  assumes "(''trace_id'', v) \<in> set (logRequest rq ri ms)"
  shows "re_matches traceparentRE (hr_traceparent rq)"
  using assms by (cases "re_full traceparentRE (hr_traceparent rq)")
    (auto simp: logRequest_def re_matches_def split: option.splits if_splits)

end
