(* ===== verification/Serve_Server.thy ===== *)
theory Serve_Server
  imports Serve_Handlers Serve_Config Manifest_Doc
begin

text \<open>
  \<open>internal/serve/server.go\<close> and \<open>main.go\<close>: construction (\<open>New\<close>), the warm-up that \<open>Run\<close>
  starts in the background, and the exit codes.  Binding, the directories and the tool
  processes are the environment; the goroutines of \<open>Run\<close> are an interleaving system over
  the readiness tracker.
\<close>

section \<open>Directories and listeners\<close>

record dir_io =
  di_mkdir :: "fs_error option"
  di_list :: "fs_error + string list"
  di_remove :: "string \<Rightarrow> fs_error option"
  di_probe :: "fs_error option"
  di_unprobe :: "fs_error option"

fun remove_stale :: "(string \<Rightarrow> fs_error option) \<Rightarrow> (string \<Rightarrow> bool) \<Rightarrow> string list \<Rightarrow>
    fs_error option \<times> string list" where
  "remove_stale rm stale [] = (None, [])"
| "remove_stale rm stale (e # es) =
     (if stale e
      then (case rm e of
          Some err \<Rightarrow> (Some err, e # es)
        | None \<Rightarrow> remove_stale rm stale es)
      else (case remove_stale rm stale es of (r, rest) \<Rightarrow> (r, e # rest)))"

text \<open>The error and the children left.\<close>

definition prepareDir :: "dir_io \<Rightarrow> (string \<Rightarrow> bool) \<Rightarrow> fs_error option \<times> string list" where
  "prepareDir io stale =
     (case di_mkdir io of
        Some e \<Rightarrow> (Some e, [])
      | None \<Rightarrow>
          (case di_list io of
             Inl e \<Rightarrow> (Some e, [])
           | Inr es \<Rightarrow>
               (case remove_stale (di_remove io) stale es of
                  (Some e, rest) \<Rightarrow> (Some e, rest)
                | (None, rest) \<Rightarrow>
                    (case di_probe io of
                       Some e \<Rightarrow> (Some e, rest)
                     | None \<Rightarrow> (di_unprobe io, rest)))))"

datatype listener = UnixListener | TcpListener

record bind_io =
  bi_unix :: bool          \<comment> \<open>\<open>net.Listen\<close> succeeds\<close>
  bi_chmod :: bool
  bi_tcp :: bool

datatype bind_error = ListenUnix | ChmodSocket | ListenTcp

text \<open>The error and the listeners left open.\<close>

definition bind_listeners :: "config \<Rightarrow> bind_io \<Rightarrow> bind_error option \<times> listener list" where
  "bind_listeners cfg io =
     (if \<not> bi_unix io then (Some ListenUnix, [])
      else if \<not> bi_chmod io then (Some ChmodSocket, [])
      else if c_listen cfg \<noteq> []
      then (if \<not> bi_tcp io then (Some ListenTcp, []) else (None, [UnixListener, TcpListener]))
      else (None, [UnixListener]))"

section \<open>New\<close>

definition workspacePrefix :: string where
  "workspacePrefix = ''cobe-lint-ws-''"

text \<open>The name of a workspace, \<open>rnd\<close> being what \<open>os.MkdirTemp\<close> picks.\<close>

definition newWorkspace :: "string \<Rightarrow> string" where
  "newWorkspace rnd = workspacePrefix @ rnd"

definition uses :: "linter list \<Rightarrow> (string \<Rightarrow> string) \<Rightarrow> string \<Rightarrow> bool" where
  "uses ls toolOf tool \<longleftrightarrow> (\<exists>key \<in> l_language ` set ls. toolOf key = tool)"

definition server_components :: "linter list \<Rightarrow> (string \<Rightarrow> string) \<Rightarrow> string list" where
  "server_components ls toolOf =
     [componentWorkers]
     @ (if uses ls toolOf jc_ToolID then [componentJavac] else [])
     @ (if uses ls toolOf gv_ToolID then [componentGoWarmup] else [])"

definition serve_linters :: "linter list \<Rightarrow> (string \<rightharpoonup> linter)" where
  "serve_linters ls = foldl (\<lambda>m l. m(l_language l \<mapsto> l)) Map.empty ls"

text \<open>The body of \<open>GET /v1/manifest\<close>: the manifest with the member \<open>serve\<close>.\<close>

definition buildManifest :: "int \<Rightarrow> linter list \<Rightarrow> config \<Rightarrow> string" where
  "buildManifest version ls cfg =
     marshal (JObj (manifest_members version ls @
       [(''serve'', JObj
          [(''protocol'', int_json Protocol), (''workers'', int_json (c_workers cfg)),
           (''queue'', int_json (c_queue cfg)), (''deadline_ms'', int_json (c_deadline cfg div 1000000)),
           (''max_code_bytes'', int_json (int MaxCodeBytes)), (''max_findings'', int_json MaxFindings),
           (''cache_max_bytes'', int_json (c_cache_max cfg))])]))"

text \<open>The parts of \<open>Deps\<close> that \<open>New\<close> reads, and those of the image.\<close>

record deps =
  dp_linters :: "linter list"
  dp_version :: int
  dp_toolOf :: "string \<Rightarrow> string"

definition DefaultDeps :: "registry \<Rightarrow> deps" where
  "DefaultDeps reg = \<lparr>dp_linters = All_languages reg, dp_version = ManifestVersion reg, dp_toolOf = Tool reg\<rparr>"

record server_io =
  si_token :: "string option"          \<comment> \<open>reading the token file\<close>
  si_cache :: dir_io
  si_work :: dir_io
  si_bind :: bind_io

datatype new_error =
    NewToken token_error
  | NewCacheDir fs_error
  | NewWorkDir fs_error
  | NewBind bind_error

record server =
  sr_state :: serve_state
  sr_token :: string
  sr_redacts :: "string list"
  sr_linters :: "string \<rightharpoonup> linter"
  sr_manifest :: string
  sr_listeners :: "listener list"

definition serve_new ::
  "config \<Rightarrow> deps \<Rightarrow> server_io \<Rightarrow> new_error + server" where
  "serve_new cfg d io =
     (case (if c_token_file cfg \<noteq> [] then readToken (si_token io) else Inr ([], [])) of
        Inl e \<Rightarrow> Inl (NewToken e)
      | Inr (token, redacts) \<Rightarrow>
          (case fst (prepareDir (si_cache io) (\<lambda>_. True)) of
             Some e \<Rightarrow> Inl (NewCacheDir e)
           | None \<Rightarrow>
               (case fst (prepareDir (si_work io) (\<lambda>name. has_prefix name workspacePrefix)) of
                  Some e \<Rightarrow> Inl (NewWorkDir e)
                | None \<Rightarrow>
                    (case bind_listeners cfg (si_bind io) of
                       (Some e, _) \<Rightarrow> Inl (NewBind e)
                     | (None, lns) \<Rightarrow>
                         Inr \<lparr>sr_state =
                           \<lparr>ss_pool = newPool (c_workers cfg) (c_queue cfg), ss_uploads = 0,
                            ss_uploads_cap = c_workers cfg,
                            ss_cache = newAssetCache (c_cache_dir cfg) (c_cache_max cfg),
                            ss_state = newReadiness (server_components (dp_linters d) (dp_toolOf d))\<rparr>,
                          sr_token = token, sr_redacts = redacts, sr_linters = serve_linters (dp_linters d),
                          sr_manifest = buildManifest (dp_version d) (dp_linters d) cfg, sr_listeners = lns\<rparr>))))"

section \<open>The warm-up\<close>

datatype run_pc = Listening | WorkersDone | CheckerStarted | Serving | Stopping

datatype watch = NoWatch | AwaitReady | AwaitFailed | WatchOver

datatype warming = NoWarm | Warming | Warmed

record run_sys =
  rn_pc :: run_pc
  rn_state :: readiness
  rn_watch :: watch                    \<comment> \<open>the goroutine of \<open>startChecker\<close>\<close>
  rn_warming :: warming                \<comment> \<open>the goroutine of \<open>runGoWarmup\<close>\<close>
  rn_jready :: bool                    \<comment> \<open>\<open>c.Ready()\<close> is closed\<close>
  rn_jfailed :: "string option"        \<comment> \<open>\<open>c.Failed()\<close> is closed, with \<open>c.Err()\<close>\<close>
  rn_base :: bool                      \<comment> \<open>\<open>s.baseCtx\<close> is done\<close>

definition failed_reason :: "string \<Rightarrow> string" where
  "failed_reason e = ''javac worker failed: '' @ e"

inductive run_step :: "bool \<Rightarrow> bool \<Rightarrow> run_sys \<Rightarrow> run_sys \<Rightarrow> bool" for javac govet where
  run_workers: "rn_pc s = Listening \<Longrightarrow>
    run_step javac govet s (s\<lparr>rn_pc := WorkersDone, rn_state := rd_done componentWorkers (rn_state s)\<rparr>)"
| run_checker: "rn_pc s = WorkersDone \<Longrightarrow>
    run_step javac govet s (s\<lparr>rn_pc := CheckerStarted, rn_watch := (if javac then AwaitReady else NoWatch)\<rparr>)"
| run_checker_error: "rn_pc s = WorkersDone \<Longrightarrow> javac \<Longrightarrow>
    run_step javac govet s (s\<lparr>rn_pc := Stopping, rn_base := True\<rparr>)"
| run_warm: "rn_pc s = CheckerStarted \<Longrightarrow>
    run_step javac govet s (s\<lparr>rn_pc := Serving, rn_warming := (if govet then Warming else NoWarm)\<rparr>)"
| run_stop: "rn_pc s = Serving \<Longrightarrow> run_step javac govet s (s\<lparr>rn_pc := Stopping, rn_base := True\<rparr>)"
| jvm_ready: "rn_watch s \<noteq> NoWatch \<Longrightarrow> run_step javac govet s (s\<lparr>rn_jready := True\<rparr>)"
| jvm_failed: "rn_watch s \<noteq> NoWatch \<Longrightarrow> rn_jfailed s = None \<Longrightarrow>
    run_step javac govet s (s\<lparr>rn_jfailed := Some e\<rparr>)"
| watch_ready: "rn_watch s = AwaitReady \<Longrightarrow> rn_jready s \<Longrightarrow>
    run_step javac govet s (s\<lparr>rn_watch := AwaitFailed, rn_state := rd_done componentJavac (rn_state s)\<rparr>)"
| watch_failed: "rn_watch s = AwaitReady \<Longrightarrow> rn_jfailed s \<noteq> None \<Longrightarrow>
    run_step javac govet s (s\<lparr>rn_watch := AwaitFailed\<rparr>)"
| watch_fail: "rn_watch s = AwaitFailed \<Longrightarrow> rn_jfailed s = Some e \<Longrightarrow>
    run_step javac govet s (s\<lparr>rn_watch := WatchOver, rn_state := rd_fail (failed_reason e) (rn_state s)\<rparr>)"
| watch_quit: "rn_watch s = AwaitReady \<or> rn_watch s = AwaitFailed \<Longrightarrow> rn_base s \<Longrightarrow>
    run_step javac govet s (s\<lparr>rn_watch := WatchOver\<rparr>)"
| warm_done: "rn_warming s = Warming \<Longrightarrow>
    run_step javac govet s (s\<lparr>rn_warming := Warmed, rn_state := rd_done componentGoWarmup (rn_state s)\<rparr>)"

inductive_cases run_stepE: "run_step javac govet s t"

definition run_components :: "bool \<Rightarrow> bool \<Rightarrow> string list" where
  "run_components javac govet =
     [componentWorkers] @ (if javac then [componentJavac] else [])
       @ (if govet then [componentGoWarmup] else [])"

definition run_start :: "bool \<Rightarrow> bool \<Rightarrow> run_sys \<Rightarrow> bool" where
  "run_start javac govet s \<longleftrightarrow>
     s = \<lparr>rn_pc = Listening, rn_state = newReadiness (run_components javac govet), rn_watch = NoWatch,
          rn_warming = NoWarm, rn_jready = False, rn_jfailed = None, rn_base = False\<rparr>"

text \<open>
  What is still pending, exactly: \<open>w\<close>, \<open>j\<close> and \<open>g\<close> say which of the three components are.
\<close>

definition run_flow :: "bool \<Rightarrow> bool \<Rightarrow> run_sys \<Rightarrow> bool \<Rightarrow> bool \<Rightarrow> bool \<Rightarrow> bool" where
  "run_flow javac govet s w j g \<longleftrightarrow>
     (w \<longleftrightarrow> rn_pc s = Listening) \<and>
     (javac \<longrightarrow> \<not> j \<longrightarrow> rn_jready s) \<and>
     (javac \<longrightarrow> rn_watch s = NoWatch \<or> rn_watch s = AwaitReady \<longrightarrow> j) \<and>
     (rn_watch s = AwaitFailed \<longrightarrow> rn_jfailed s = None \<longrightarrow> \<not> j) \<and>
     (govet \<longrightarrow> (g \<longleftrightarrow> rn_warming s \<noteq> Warmed)) \<and>
     (rn_watch s \<noteq> NoWatch \<longrightarrow> javac) \<and> (rn_warming s \<noteq> NoWarm \<longrightarrow> govet) \<and>
     (rn_pc s = Listening \<or> rn_pc s = WorkersDone \<longrightarrow> rn_watch s = NoWatch) \<and>
     (rn_pc s \<noteq> Serving \<and> rn_pc s \<noteq> Stopping \<longrightarrow> rn_warming s = NoWarm)"

definition run_inv :: "bool \<Rightarrow> bool \<Rightarrow> run_sys \<Rightarrow> bool" where
  "run_inv javac govet s \<longleftrightarrow>
     rd_inv (rn_state s) \<and>
     set (rd_pending (rn_state s)) \<subseteq> set (run_components javac govet) \<and>
     (rd_failed (rn_state s) \<noteq> [] \<longrightarrow>
        (\<exists>e. rn_jfailed s = Some e \<and> rd_failed (rn_state s) = failed_reason e)) \<and>
     run_flow javac govet s (componentWorkers \<in> set (rd_pending (rn_state s)))
       (componentJavac \<in> set (rd_pending (rn_state s)))
       (componentGoWarmup \<in> set (rd_pending (rn_state s)))"

lemma component_names [simp]:
  "componentWorkers \<noteq> componentJavac" "componentJavac \<noteq> componentWorkers"
  "componentWorkers \<noteq> componentGoWarmup" "componentGoWarmup \<noteq> componentWorkers"
  "componentJavac \<noteq> componentGoWarmup" "componentGoWarmup \<noteq> componentJavac"
  by (simp_all add: componentWorkers_def componentJavac_def componentGoWarmup_def)

lemma rd_fail_fields [simp]:
  "rd_pending (rd_fail e r) = rd_pending r" "rd_ready (rd_fail e r) = rd_ready r"
  "rd_failed (rd_fail e r) = (if rd_failed r = [] then e else rd_failed r)"
  by (simp_all add: rd_fail_def)

lemma rd_done_failed [simp]: "rd_failed (rd_done c r) = rd_failed r"
  by (simp add: rd_done_def Let_def)

lemma run_inv_start: "run_start javac govet s \<Longrightarrow> run_inv javac govet s"
  by (auto simp: run_start_def run_inv_def run_flow_def run_components_def newReadiness_def rd_inv_def)

lemma run_step_flow:
  assumes "run_step javac govet s t"
    and "run_flow javac govet s (componentWorkers \<in> set (rd_pending (rn_state s)))
       (componentJavac \<in> set (rd_pending (rn_state s)))
       (componentGoWarmup \<in> set (rd_pending (rn_state s)))"
  shows "run_flow javac govet t (componentWorkers \<in> set (rd_pending (rn_state t)))
       (componentJavac \<in> set (rd_pending (rn_state t)))
       (componentGoWarmup \<in> set (rd_pending (rn_state t)))"
  using assms(1)
proof (cases rule: run_step.cases)
  case run_workers
  with assms(2) show ?thesis by (simp add: run_flow_def)
next
  case run_checker
  with assms(2) show ?thesis by (simp add: run_flow_def split: if_splits)
next
  case run_checker_error
  with assms(2) show ?thesis by (simp add: run_flow_def)
next
  case run_warm
  with assms(2) show ?thesis by (simp add: run_flow_def split: if_splits)
next
  case run_stop
  with assms(2) show ?thesis by (simp add: run_flow_def)
next
  case jvm_ready
  with assms(2) show ?thesis by (simp add: run_flow_def)
next
  case jvm_failed
  with assms(2) show ?thesis by (simp add: run_flow_def)
next
  case watch_ready
  with assms(2) show ?thesis by (simp add: run_flow_def)
next
  case watch_failed
  with assms(2) show ?thesis by (simp add: run_flow_def)
next
  case (watch_fail e)
  with assms(2) show ?thesis by (simp add: run_flow_def)
next
  case watch_quit
  from watch_quit(2) assms(2) show ?thesis unfolding watch_quit(1) by (elim disjE) (simp_all add: run_flow_def)
next
  case warm_done
  with assms(2) show ?thesis by (simp add: run_flow_def)
qed

lemma run_step_rest:
  assumes "run_step javac govet s t" and "rd_inv (rn_state s)"
  shows "rd_inv (rn_state t)" and "set (rd_pending (rn_state t)) \<subseteq> set (rd_pending (rn_state s))"
  using assms by (cases rule: run_step.cases; auto simp: rd_inv_done rd_inv_fail)+

lemma run_step_failed:
  assumes "run_step javac govet s t"
    and "rd_failed (rn_state s) \<noteq> [] \<longrightarrow>
        (\<exists>e. rn_jfailed s = Some e \<and> rd_failed (rn_state s) = failed_reason e)"
  shows "rd_failed (rn_state t) \<noteq> [] \<longrightarrow>
        (\<exists>e. rn_jfailed t = Some e \<and> rd_failed (rn_state t) = failed_reason e)"
  using assms by (cases rule: run_step.cases) auto

lemma run_inv_step: "run_inv javac govet s \<Longrightarrow> run_step javac govet s t \<Longrightarrow> run_inv javac govet t"
  unfolding run_inv_def using run_step_rest run_step_failed run_step_flow by (meson subset_trans)

interpretation warmup: transition_system
  "run_start javac govet" "run_step javac govet" "run_inv javac govet"
  by unfold_locales (auto intro: run_inv_start run_inv_step)

text \<open>The server is never ready before everything it needs has warmed up.\<close>

lemma ready_after_warmup:
  assumes "run_start javac govet s" and "reaches (run_step javac govet) s t" and "isReady (rn_state t)"
  shows "rn_pc t \<noteq> Listening" and "javac \<Longrightarrow> rn_jready t" and "govet \<Longrightarrow> rn_warming t = Warmed"
proof -
  have i: "run_inv javac govet t" using warmup.inv_reachable assms(1,2) by blast
  then have "rd_pending (rn_state t) = []"
    using assms(3) by (simp add: run_inv_def rd_inv_def isReady_def)
  with i show "rn_pc t \<noteq> Listening" "javac \<Longrightarrow> rn_jready t" "govet \<Longrightarrow> rn_warming t = Warmed"
    by (auto simp: run_inv_def run_flow_def)
qed

text \<open>And once both goroutines have seen it, it is.\<close>

lemma ready_when_warm:
  assumes "run_start javac govet s" and "reaches (run_step javac govet) s t"
    and "rn_pc t = Serving" and "javac \<Longrightarrow> rn_watch t = AwaitFailed \<and> rn_jfailed t = None"
    and "govet \<Longrightarrow> rn_warming t = Warmed"
  shows "isReady (rn_state t)"
proof -
  have i: "run_inv javac govet t" using warmup.inv_reachable assms(1,2) by blast
  then have "componentWorkers \<notin> set (rd_pending (rn_state t))" using assms(3) by (simp add: run_inv_def run_flow_def)
  moreover have "javac \<Longrightarrow> componentJavac \<notin> set (rd_pending (rn_state t))"
    using i assms(4) by (simp add: run_inv_def run_flow_def)
  moreover have "govet \<Longrightarrow> componentGoWarmup \<notin> set (rd_pending (rn_state t))"
    using i assms(5) by (simp add: run_inv_def run_flow_def)
  moreover have "set (rd_pending (rn_state t)) \<subseteq> set (run_components javac govet)"
    using i by (simp add: run_inv_def)
  ultimately have "x \<notin> set (rd_pending (rn_state t))" for x
    by (cases javac; cases govet; fastforce simp: run_components_def)
  then have "rd_pending (rn_state t) = []" by (cases "rd_pending (rn_state t)") auto
  with i show ?thesis by (simp add: run_inv_def rd_inv_def isReady_def)
qed

lemma failed_only_by_worker:
  assumes "run_start javac govet s" and "reaches (run_step javac govet) s t"
    and "rd_failed (rn_state t) \<noteq> []"
  shows "\<exists>e. rn_jfailed t = Some e \<and> rd_failed (rn_state t) = failed_reason e"
  using warmup.inv_reachable [OF assms(1,2)] assms(3) by (simp add: run_inv_def)

section \<open>The process\<close>

datatype run_error = RunCanceled | RunOther string

definition serve_main ::
  "string list \<Rightarrow> bool \<Rightarrow> (config \<Rightarrow> new_error + server) \<Rightarrow>
     (server \<Rightarrow> run_error option) \<Rightarrow> int" where
  "serve_main args nondumpable new run =
     (case ParseFlags args of
        Inl e \<Rightarrow> 2
      | Inr cfg \<Rightarrow>
          if \<not> nondumpable then 1
          else (case new cfg of
              Inl e \<Rightarrow> 1
            | Inr s \<Rightarrow>
                (case run s of
                   None \<Rightarrow> 0
                 | Some e \<Rightarrow> if e = RunCanceled then 0 else 1)))"

lemma serve_main_usage: "serve_main args nd new run = 2 \<longleftrightarrow> \<not> is_ok (ParseFlags args)"
  by (auto simp: serve_main_def is_ok_def split: sum.splits option.splits)

section \<open>What a started server satisfies\<close>

lemma remove_stale_rest:
  "remove_stale rm stale es = (None, rest) \<Longrightarrow> rest = filter (\<lambda>e. \<not> stale e) es"
  by (induction rm stale es arbitrary: rest rule: remove_stale.induct)
    (auto split: if_splits option.splits prod.splits)

lemma prepareDir_rest: "prepareDir io stale = (None, rest) \<Longrightarrow> e \<in> set rest \<Longrightarrow> \<not> stale e"
  using remove_stale_rest
  by (fastforce simp: prepareDir_def split: option.splits sum.splits prod.splits)

text \<open>Nothing of an earlier process is left: no workspace, nothing in the cache directory.\<close>

lemma serve_new_clears:
  assumes "serve_new cfg d io = Inr s"
  shows "newWorkspace rnd \<notin> set (snd (prepareDir (si_work io) (\<lambda>name. has_prefix name workspacePrefix)))"
    and "snd (prepareDir (si_cache io) (\<lambda>_. True)) = []"
proof -
  let ?w = "prepareDir (si_work io) (\<lambda>name. has_prefix name workspacePrefix)"
  let ?c = "prepareDir (si_cache io) (\<lambda>_. True)"
  have none: "fst ?w = None" "fst ?c = None"
    using assms by (auto simp: serve_new_def split: sum.splits option.splits)
  then have "?w = (None, snd ?w)" "?c = (None, snd ?c)" by (metis prod.collapse)+
  note rest = prepareDir_rest [OF this(1)] prepareDir_rest [OF this(2)]
  have "has_prefix (newWorkspace rnd) workspacePrefix" by (simp add: newWorkspace_def has_prefix_iff)
  with rest(1) show "newWorkspace rnd \<notin> set (snd ?w)" by blast
  from rest(2) show "snd ?c = []" by (cases "snd ?c") auto
qed

lemma bind_no_leak: "fst (bind_listeners cfg io) \<noteq> None \<Longrightarrow> snd (bind_listeners cfg io) = []"
  by (simp add: bind_listeners_def split: if_splits)

lemma serve_linters_lookup:
  "distinct (map l_language ls) \<Longrightarrow> serve_linters ls k = find (\<lambda>l. l_language l = k) ls"
proof -
  have "foldl (\<lambda>m l. m(l_language l \<mapsto> l)) m ls k =
      (case find (\<lambda>l. l_language l = k) ls of Some l \<Rightarrow> Some l | None \<Rightarrow> m k)"
    if "distinct (map l_language ls)" for m
    using that
  proof (induction ls arbitrary: m)
    case (Cons l ls)
    have "k = l_language l \<Longrightarrow> find (\<lambda>x. l_language x = k) ls = None"
      using Cons.prems by (simp add: find_key_None)
    with Cons show ?case by (auto split: option.splits)
  qed simp
  then show "distinct (map l_language ls) \<Longrightarrow> ?thesis" by (simp add: serve_linters_def split: option.splits)
qed

text \<open>
  A started server listens on TCP exactly when asked to, and then has a token of at least
  32 bytes, which it redacts; its limits are those of the configuration.
\<close>

lemma serve_new_ok:
  assumes "serve_new cfg d io = Inr s" and "config_ok cfg"
  shows "TcpListener \<in> set (sr_listeners s) \<longleftrightarrow> c_listen cfg \<noteq> []"
    and "c_listen cfg \<noteq> [] \<Longrightarrow> 32 \<le> length (sr_token s) \<and> sr_token s \<in> set (sr_redacts s)"
    and "po_limit (ss_pool (sr_state s)) = c_workers cfg + c_queue cfg"
    and "ss_uploads_cap (sr_state s) = c_workers cfg"
    and "ac_max (ss_cache (sr_state s)) = c_cache_max cfg"
    and "\<not> isReady (ss_state (sr_state s))"
  using assms readToken_Inr [of "si_token io"]
  by (auto simp: serve_new_def bind_listeners_def config_ok_def newPool_def newAssetCache_def
      newReadiness_def isReady_def minTokenBytes_def split: sum.splits if_splits option.splits prod.splits)

end
