(* ===== verification/Lint_Workspace.thy ===== *)
theory Lint_Workspace
  imports Asset_Archive Lint_Request "HOL-Library.Char_ord" "HOL-Library.List_Lexorder"
begin

text \<open>
  The workspace of a lint: \<open>copyAssets\<close> and \<open>copyFile\<close> of \<open>internal/serve/cache.go\<close> and
  \<open>writeCode\<close> of \<open>internal/serve/lint.go\<close>, on the file tree of the extraction.  The tree
  walk lists the source before the copy starts; the workspace is a fresh directory that is not below
  the asset set, so what the copy creates is never listed.
\<close>

section \<open>Walking a directory\<close>

datatype walk_node = WDir | WFile string | WOther

fun node_type :: "node \<Rightarrow> walk_node" where
  "node_type DirN = WDir"
| "node_type (FileN d) = WFile d"

text \<open>
  \<open>filepath.WalkDir\<close>: the entries below \<open>src\<close> with their relative paths, in lexical order of each
  directory, which is the lexicographic order of the paths.  \<open>ks\<close> lists the names that occur.
\<close>

definition WalkDir :: "tree \<Rightarrow> string list \<Rightarrow> string list list \<Rightarrow> (string list \<times> walk_node) list" where
  "WalkDir t src ks =
     map (\<lambda>r. (r, node_type (the (t (src @ r)))))
       (sort (remdups (filter (\<lambda>r. t (src @ r) \<noteq> None) ks)))"

section \<open>Copying\<close>

definition os_mkdir :: "fault \<Rightarrow> tree \<Rightarrow> string list \<Rightarrow> fs_error option \<times> tree" where
  "os_mkdir fa t p =
     (case (case fa_mkdir fa of Some e \<Rightarrow> Some e | None \<Rightarrow> open_excl t p) of
        Some e \<Rightarrow> (Some e, t)
      | None \<Rightarrow> (None, t(p \<mapsto> DirN)))"

text \<open>Writing bytes to an open file and closing it; a fault leaves the bytes before it.\<close>

definition write_close :: "fault \<Rightarrow> tree \<Rightarrow> string list \<Rightarrow> string \<Rightarrow> fs_error option \<times> tree" where
  "write_close fa t p data =
     (case (case fa_write fa of Some (k, e) \<Rightarrow> if k < length data then Some (k, e) else None
            | None \<Rightarrow> None) of
        Some (k, e) \<Rightarrow> (Some e, t(p \<mapsto> FileN (take k data)))
      | None \<Rightarrow> (fa_close fa, t(p \<mapsto> FileN data)))"

text \<open>\<open>src\<close> is the error of opening the source.\<close>

definition copyFile ::
  "fs_error option \<Rightarrow> fault \<Rightarrow> tree \<Rightarrow> string list \<Rightarrow> string \<Rightarrow> fs_error option \<times> tree" where
  "copyFile src fa t p data =
     (case src of
        Some e \<Rightarrow> (Some e, t)
      | None \<Rightarrow>
          (case (case fa_open fa of Some e \<Rightarrow> Some e | None \<Rightarrow> open_excl t p) of
             Some e \<Rightarrow> (Some e, t)
           | None \<Rightarrow> write_close fa t p data))"

text \<open>What goes wrong at a path: the walk itself, the source, the target.\<close>

record copy_fault =
  cf_walk :: "fs_error option"
  cf_source :: "fs_error option"
  cf_target :: fault

definition no_copy_fault :: copy_fault where
  "no_copy_fault = \<lparr>cf_walk = None, cf_source = None, cf_target = no_fault\<rparr>"

definition copy_entry ::
  "copy_fault \<Rightarrow> string list \<Rightarrow> string list \<Rightarrow> walk_node \<Rightarrow> tree \<Rightarrow> fs_error option \<times> tree" where
  "copy_entry fa dst rel n t =
     (if cf_walk fa \<noteq> None then (cf_walk fa, t)
      else if rel = [] then (None, t)
      else (case n of
          WDir \<Rightarrow> os_mkdir (cf_target fa) t (dst @ rel)
        | WFile data \<Rightarrow> copyFile (cf_source fa) (cf_target fa) t (dst @ rel) data
        | WOther \<Rightarrow> (None, t)))"

fun copyAssets ::
  "(string list \<Rightarrow> copy_fault) \<Rightarrow> string list \<Rightarrow> (string list \<times> walk_node) list \<Rightarrow> tree \<Rightarrow>
     fs_error option \<times> tree" where
  "copyAssets fa dst [] t = (None, t)"
| "copyAssets fa dst ((rel, n) # xs) t =
     (case copy_entry (fa rel) dst rel n t of
        (Some e, t') \<Rightarrow> (Some e, t')
      | (None, t') \<Rightarrow> copyAssets fa dst xs t')"

section \<open>The student's file\<close>

definition writeCode ::
  "fault \<Rightarrow> tree \<Rightarrow> string \<Rightarrow> string \<Rightarrow> string \<Rightarrow> fs_error option \<times> tree" where
  "writeCode fa t ws filename code =
     (let target = join_path ws filename
      in case make_dirs fa t (path_dir target) of
           (Some e, t') \<Rightarrow> (Some e, t')
         | (None, t') \<Rightarrow>
             (let p = components target
              in if t' p = Some DirN then (Some EISDIR, t')
                 else (case fa_open fa of
                     Some e \<Rightarrow> (Some e, t')
                   | None \<Rightarrow> write_close fa t' p code)))"

text \<open>The part of \<open>lint\<close> that fills the workspace; \<open>None\<close> is a request without assets.\<close>

definition fill_workspace ::
  "(string list \<Rightarrow> copy_fault) \<Rightarrow> fault \<Rightarrow> tree \<Rightarrow> string \<Rightarrow> (string list \<times> walk_node) list option \<Rightarrow>
     string \<Rightarrow> string \<Rightarrow> fs_error option \<times> tree" where
  "fill_workspace cfa fa t ws assets filename code =
     (case (case assets of None \<Rightarrow> (None, t) | Some xs \<Rightarrow> copyAssets cfa (components ws) xs t) of
        (Some e, t') \<Rightarrow> (Some e, t')
      | (None, t') \<Rightarrow> writeCode fa t' ws filename code)"

section \<open>What a walk lists\<close>

text \<open>Directories come before what they hold, and no path twice.\<close>

definition listing :: "(string list \<times> walk_node) list \<Rightarrow> bool" where
  "listing xs \<longleftrightarrow> distinct (map fst xs) \<and>
     (\<forall>ys rel n zs. xs = ys @ (rel, n) # zs \<longrightarrow> 1 < length rel \<longrightarrow> (butlast rel, WDir) \<in> set ys)"

text \<open>Every entry of a tree is in a directory of it.\<close>

definition tree_wf :: "tree \<Rightarrow> bool" where
  "tree_wf t \<longleftrightarrow> (\<forall>p. t p \<noteq> None \<longrightarrow> 1 < length p \<longrightarrow> t (butlast p) = Some DirN)"

lemma butlast_less: "r \<noteq> [] \<Longrightarrow> butlast r < (r :: string list)"
  using lexord_append_rightI [of "[last r]" "butlast r" "{(u, v). u < v}"] by (simp add: list_less_def)

lemma set_WalkDir:
  "set (WalkDir t src ks) = {(r, node_type nd) | r nd. r \<in> set ks \<and> t (src @ r) = Some nd}"
  by (auto simp: WalkDir_def)

lemma WalkDir_listing:
  assumes wf: "tree_wf t" and ks: "\<And>r. t (src @ r) \<noteq> None \<Longrightarrow> r \<in> set ks"
  shows "listing (WalkDir t src ks)"
proof -
  let ?rs = "sort (remdups (filter (\<lambda>r. t (src @ r) \<noteq> None) ks))"
  have fst: "map fst (WalkDir t src ks) = ?rs" by (simp add: WalkDir_def comp_def)
  have "(butlast rel, WDir) \<in> set ys"
    if xs: "WalkDir t src ks = ys @ (rel, n) # zs" and len: "1 < length rel" for ys rel n zs
  proof -
    have rs: "?rs = map fst ys @ rel # map fst zs" unfolding fst [symmetric] xs by simp
    have "rel \<in> set ?rs" unfolding rs by simp
    then have "t (src @ rel) \<noteq> None" by simp
    moreover have "1 < length (src @ rel)" "butlast (src @ rel) = src @ butlast rel"
      using len by (auto simp: butlast_append)
    ultimately have par: "t (src @ butlast rel) = Some DirN"
      using wf [unfolded tree_wf_def, rule_format, of "src @ rel"] by simp
    then have "butlast rel \<in> set ks" using ks by simp
    with par have "(butlast rel, WDir) \<in> set (WalkDir t src ks)"
      unfolding set_WalkDir by (intro CollectI exI [of _ "butlast rel"] exI [of _ DirN]) simp
    then have "(butlast rel, WDir) \<in> set ys \<or> butlast rel = rel \<or> butlast rel \<in> set (map fst zs)"
      unfolding xs by (fastforce simp: image_iff)
    moreover have lt: "butlast rel < rel" using len by (intro butlast_less) auto
    moreover have "sorted (map fst ys @ rel # map fst zs)" unfolding rs [symmetric] by (rule sorted_sort)
    then have "\<forall>x \<in> set (map fst zs). rel \<le> x" by (simp add: sorted_append)
    then have "butlast rel \<notin> set (map fst zs)" using lt leD by blast
    ultimately show ?thesis by auto
  qed
  moreover have "distinct (map fst (WalkDir t src ks))" unfolding fst by simp
  ultimately show ?thesis by (auto simp: listing_def)
qed

section \<open>The copy\<close>

definition walk_dirs :: "(string list \<times> walk_node) list \<Rightarrow> string list set" where
  "walk_dirs xs = {r. r \<noteq> [] \<and> (r, WDir) \<in> set xs}"

definition walk_files :: "(string list \<times> walk_node) list \<Rightarrow> string list \<rightharpoonup> string" where
  "walk_files xs r = (if r = [] then None else
     case map_of xs r of Some (WFile d) \<Rightarrow> Some d | _ \<Rightarrow> None)"

lemma listing_prefix: "listing (xs @ ys) \<Longrightarrow> listing xs"
  by (auto simp: listing_def)

lemma walk_snoc:
  assumes "r \<notin> fst ` set xs" and "r \<noteq> []"
  shows "walk_dirs (xs @ [(r, WDir)]) = insert r (walk_dirs xs)"
    and "walk_dirs (xs @ [(r, WFile d)]) = walk_dirs xs" and "walk_dirs (xs @ [(r, WOther)]) = walk_dirs xs"
    and "walk_files (xs @ [(r, WDir)]) = walk_files xs"
    and "walk_files (xs @ [(r, WFile d)]) = (walk_files xs)(r \<mapsto> d)"
    and "walk_files (xs @ [(r, WOther)]) = walk_files xs"
proof -
  have "map_of xs r = None" using assms(1) by (simp add: map_of_eq_None_iff)
  with assms(2) show "walk_dirs (xs @ [(r, WDir)]) = insert r (walk_dirs xs)"
    "walk_dirs (xs @ [(r, WFile d)]) = walk_dirs xs" "walk_dirs (xs @ [(r, WOther)]) = walk_dirs xs"
    "walk_files (xs @ [(r, WDir)]) = walk_files xs"
    "walk_files (xs @ [(r, WFile d)]) = (walk_files xs)(r \<mapsto> d)"
    "walk_files (xs @ [(r, WOther)]) = walk_files xs"
    by (auto simp: walk_dirs_def walk_files_def fun_eq_iff map_add_def split: option.splits)
qed

text \<open>An empty workspace takes every entry of a listing.\<close>

lemma open_excl_listed:
  assumes st: "staging_ok D t0" and D: "D \<noteq> []" and l: "listing (xs @ [(r, n)])" and r: "r \<noteq> []"
  shows "open_excl (tree_of D t0 (walk_dirs xs) (walk_files xs)) (D @ r) = None"
proof -
  let ?t = "tree_of D t0 (walk_dirs xs) (walk_files xs)"
  have new: "r \<notin> fst ` set xs" using l by (auto simp: listing_def)
  then have "r \<notin> walk_dirs xs" by (force simp: walk_dirs_def)
  moreover have "map_of xs r = None" using new by (simp add: map_of_eq_None_iff)
  ultimately have "?t (D @ r) = None" using r by (simp add: walk_files_def)
  moreover have "?t (D @ butlast r) = Some DirN"
  proof (cases "butlast r = []")
    case True
    have "t0 (take (length D) D) = Some DirN"
      using st D unfolding staging_ok_def by (metis atLeastAtMost_iff le_refl length_greater_0_conv Suc_leI One_nat_def)
    with True tree_of_base [of "length D" D t0] show ?thesis by simp
  next
    case False
    then have "1 < length r" by (cases r rule: rev_cases) (auto simp: neq_Nil_conv)
    with l have "(butlast r, WDir) \<in> set xs" unfolding listing_def by blast
    with False show ?thesis by (simp add: walk_dirs_def)
  qed
  moreover have "butlast (D @ r) = D @ butlast r" using r by (simp add: butlast_append)
  ultimately show ?thesis by (simp add: open_excl_def)
qed

lemma copyAssets_append:
  "copyAssets fa dst (xs @ ys) t =
     (case copyAssets fa dst xs t of (Some e, t') \<Rightarrow> (Some e, t') | (None, t') \<Rightarrow> copyAssets fa dst ys t')"
  by (induction fa dst xs t rule: copyAssets.induct) (auto split: prod.splits option.splits)

lemma tree_of_mkdir:
  assumes "r \<noteq> []"
  shows "(tree_of D t0 Ds Fs)(D @ r \<mapsto> DirN) = tree_of D t0 (insert r Ds) Fs"
proof (rule ext)
  fix q
  show "((tree_of D t0 Ds Fs)(D @ r \<mapsto> DirN)) q = tree_of D t0 (insert r Ds) Fs q"
  proof (cases "q = D @ r")
    case False
    then have "\<not> (take (length D) q = D \<and> drop (length D) q = r)" by (metis append_take_drop_id)
    with False show ?thesis by (auto simp: tree_of_def)
  qed (use assms in simp)
qed

lemma copy_entry_listed:
  assumes st: "staging_ok D t0" "D \<noteq> []" and l: "listing (xs @ [(r, n)])"
  shows "copy_entry no_copy_fault D r n (tree_of D t0 (walk_dirs xs) (walk_files xs)) =
    (None, tree_of D t0 (walk_dirs (xs @ [(r, n)])) (walk_files (xs @ [(r, n)])))"
proof (cases "r = []")
  case True
  then have "walk_dirs (xs @ [(r, n)]) = walk_dirs xs" by (auto simp: walk_dirs_def)
  moreover from True have "walk_files (xs @ [(r, n)]) = walk_files xs"
    by (auto simp: walk_files_def fun_eq_iff map_add_def split: option.splits)
  ultimately show ?thesis using True by (simp add: copy_entry_def no_copy_fault_def)
next
  case False
  have new: "r \<notin> fst ` set xs" using l by (auto simp: listing_def)
  note op = open_excl_listed [OF st l False]
  note w = walk_snoc [OF new False]
  have nd: "r \<notin> walk_dirs xs" using new by (force simp: walk_dirs_def)
  show ?thesis
  proof (cases n)
    case WDir
    with op False show ?thesis
      by (simp add: copy_entry_def no_copy_fault_def no_fault_def os_mkdir_def w tree_of_mkdir)
  next
    case (WFile d)
    with op False show ?thesis
      by (simp add: copy_entry_def no_copy_fault_def no_fault_def copyFile_def write_close_def w
          tree_of_write [OF False nd])
  next
    case WOther
    with False show ?thesis by (simp add: copy_entry_def no_copy_fault_def w)
  qed
qed

lemma copyAssets_listing:
  assumes "staging_ok D t0" and "D \<noteq> []" and "listing xs"
  shows "copyAssets (\<lambda>_. no_copy_fault) D xs t0 = (None, tree_of D t0 (walk_dirs xs) (walk_files xs))"
  using assms(3)
proof (induction xs rule: rev_induct)
  case Nil
  have "walk_files [] = Map.empty" "walk_dirs [] = {}" by (auto simp: walk_files_def walk_dirs_def fun_eq_iff)
  with tree_of_empty [OF assms(1)] show ?case by simp
next
  case (snoc x xs)
  obtain r n where x: "x = (r, n)" by fastforce
  from snoc.IH [OF listing_prefix [OF snoc.prems]] copy_entry_listed [OF assms(1,2) snoc.prems [unfolded x]]
  show ?case by (simp add: copyAssets_append x)
qed

text \<open>What the asset set holds, as the workspace sees it.\<close>

definition set_dirs :: "tree \<Rightarrow> string list \<Rightarrow> string list set" where
  "set_dirs t src = {r. r \<noteq> [] \<and> t (src @ r) = Some DirN}"

definition set_files :: "tree \<Rightarrow> string list \<Rightarrow> string list \<rightharpoonup> string" where
  "set_files t src r = (if r = [] then None else
     case t (src @ r) of Some (FileN d) \<Rightarrow> Some d | _ \<Rightarrow> None)"

lemma walk_of_set:
  assumes "\<And>r. t (src @ r) \<noteq> None \<Longrightarrow> r \<in> set ks"
  shows "walk_dirs (WalkDir t src ks) = set_dirs t src" and "walk_files (WalkDir t src ks) = set_files t src"
proof -
  have nt: "node_type nd = WDir \<longleftrightarrow> nd = DirN" for nd by (cases nd) auto
  have "(r, WDir) \<in> set (WalkDir t src ks) \<longleftrightarrow> t (src @ r) = Some DirN" for r
    using assms [of r] by (auto simp: set_WalkDir nt eq_commute [of WDir])
  then show "walk_dirs (WalkDir t src ks) = set_dirs t src" by (simp add: walk_dirs_def set_dirs_def)
  have "map_of (map (\<lambda>r. (r, f r)) rs) r = (if r \<in> set rs then Some (f r) else None)"
    for f :: "string list \<Rightarrow> walk_node" and rs r
    by (induction rs) auto
  then have "map_of (WalkDir t src ks) r = map_option node_type (t (src @ r))" for r
    using assms [of r] by (cases "t (src @ r)") (auto simp: WalkDir_def)
  then show "walk_files (WalkDir t src ks) = set_files t src"
    by (auto simp: walk_files_def set_files_def fun_eq_iff split: option.splits node.splits)
qed

lemma copyAssets_set:
  assumes "staging_ok D t" and "D \<noteq> []" and "tree_wf t" and "\<And>r. t (src @ r) \<noteq> None \<Longrightarrow> r \<in> set ks"
  shows "copyAssets (\<lambda>_. no_copy_fault) D (WalkDir t src ks) t =
    (None, tree_of D t (set_dirs t src) (set_files t src))"
  using copyAssets_listing [OF assms(1,2) WalkDir_listing [OF assms(3,4)]]
  by (simp add: walk_of_set [OF assms(4)])

section \<open>The whole workspace\<close>

lemma mkdir_all_fails:
  "k \<in> {1..length ss} \<Longrightarrow> t (pre @ take k ss) = Some (FileN d) \<Longrightarrow> fst (mkdir_all t pre ss) \<noteq> None"
proof (induction t pre ss arbitrary: k rule: mkdir_all.induct)
  case (2 t pre s ss)
  show ?case
  proof (cases "k = 1")
    case True
    with "2.prems" show ?thesis by simp
  next
    case False
    with "2.prems" obtain j where j: "k = Suc j" "j \<in> {1..length ss}" by (cases k) auto
    with "2.prems"(2) have f: "t ((pre @ [s]) @ take j ss) = Some (FileN d)" by simp
    moreover have "take j ss \<noteq> []" using j(2) by auto
    ultimately have f': "(t(pre @ [s] \<mapsto> DirN)) ((pre @ [s]) @ take j ss) = Some (FileN d)" by simp
    show ?thesis
    proof (cases "t (pre @ [s])")
      case None
      with "2.IH"(1) [OF None j(2) f'] show ?thesis by (simp only: mkdir_all.simps option.case) simp
    next
      case (Some nd)
      with "2.IH"(2) [OF Some _ j(2) f] show ?thesis by (cases nd) simp_all
    qed
  qed
qed simp

definition path_dirs :: "string list \<Rightarrow> string list set" where
  "path_dirs n = (\<lambda>k. take k n) ` {k. 0 < k \<and> k < length n}"

lemma path_dirs_butlast: "path_dirs n = (\<lambda>k. take k (butlast n)) ` {1..length (butlast n)}"
proof -
  have "{k. 0 < k \<and> k < length n} = {1..length (butlast n)}" by auto
  moreover have "take k (butlast n) = take k n" if "k \<in> {1..length (butlast n)}" for k
    using that by (cases n rule: rev_cases) simp_all
  ultimately show ?thesis unfolding path_dirs_def by (auto simp: image_iff)
qed

lemma not_path_dir: "n \<notin> path_dirs n"
  by (auto simp: path_dirs_def) (metis length_take min.absorb4 nat_less_le)

lemma no_fault_writes [simp]:
  "fa_open no_fault = None" "write_close no_fault t p data = (None, t(p \<mapsto> FileN data))"
  by (simp_all add: no_fault_def write_close_def)

lemma writeCode_tree:
  assumes ws: "abs_dir ws" "staging_ok (components ws) t" and nm: "plain_name name"
    and dis: "\<And>r. r \<in> Ds \<Longrightarrow> Fs r = None"
  defines "n \<equiv> segs name" and "D \<equiv> components ws"
  shows "if (\<forall>r \<in> path_dirs n. Fs r = None) \<and> n \<notin> Ds
    then writeCode no_fault (tree_of D t Ds Fs) ws name code =
      (None, tree_of D t (Ds \<union> path_dirs n) (Fs(n \<mapsto> code)))
    else fst (writeCode no_fault (tree_of D t Ds Fs) ws name code) \<noteq> None"
proof -
  let ?t = "tree_of D t Ds Fs"
  have md: "make_dirs no_fault ?t (path_dir (join_path ws name)) = mkdir_all ?t [] (D @ butlast n)"
    by (simp add: make_dirs_def no_fault_def components_parent [OF ws(1) nm] D_def n_def)
  have p: "components (join_path ws name) = D @ n"
    by (simp add: components_target [OF ws(1) nm] D_def n_def)
  have ne: "n \<noteq> []" by (simp add: n_def)
  show ?thesis
  proof (cases "\<forall>r \<in> path_dirs n. Fs r = None")
    case True
    then have "\<forall>k \<in> {1..length (butlast n)}. Fs (take k (butlast n)) = None"
      by (auto simp: path_dirs_butlast)
    from mkdir_all_tree [OF ws(2) [folded D_def] this, of Ds]
    have mk: "mkdir_all ?t [] (D @ butlast n) = (None, tree_of D t (Ds \<union> path_dirs n) Fs)"
      by (simp add: path_dirs_butlast)
    show ?thesis
    proof (cases "n \<in> Ds")
      case True
      then have "tree_of D t (Ds \<union> path_dirs n) Fs (D @ n) = Some DirN" using ne by simp
      with True show ?thesis by (simp add: writeCode_def md mk p Let_def)
    next
      case False
      with not_path_dir have out: "n \<notin> Ds \<union> path_dirs n" by auto
      then have "tree_of D t (Ds \<union> path_dirs n) Fs (D @ n) \<noteq> Some DirN" using ne by auto
      with \<open>\<forall>r \<in> path_dirs n. Fs r = None\<close> False show ?thesis
        by (simp add: writeCode_def md mk p Let_def tree_of_write [OF ne out])
    qed
  next
    case False
    then obtain r d where r: "r \<in> path_dirs n" "Fs r = Some d" by auto
    then obtain k where k: "k \<in> {1..length (butlast n)}" "r = take k (butlast n)"
      by (auto simp: path_dirs_butlast)
    have "r \<noteq> []" using r(1) by (auto simp: path_dirs_def)
    moreover have "r \<notin> Ds" using dis [of r] r(2) by auto
    ultimately have "?t (D @ r) = Some (FileN d)" using r(2) by simp
    then have "?t ([] @ take (length D + k) (D @ butlast n)) = Some (FileN d)" using k(2) by simp
    moreover have "length D + k \<in> {1..length (D @ butlast n)}" using k(1) by simp
    ultimately have "fst (mkdir_all ?t [] (D @ butlast n)) \<noteq> None" by (rule mkdir_all_fails [rotated])
    then have "fst (writeCode no_fault ?t ws name code) \<noteq> None"
      by (auto simp: writeCode_def md Let_def split: prod.splits option.splits)
    with False show ?thesis by (simp only: if_False simp_thms)
  qed
qed

text \<open>What a filled workspace is: the asset set with the student's file put over it.\<close>

definition workspace_of ::
  "tree \<Rightarrow> string list \<Rightarrow> string list \<Rightarrow> string list \<Rightarrow> string \<Rightarrow> tree" where
  "workspace_of t D src n code = (\<lambda>q.
     if strict_prefix D q
     then (let r = drop (length D) q
           in if r = n then Some (FileN code) else if r \<in> path_dirs n then Some DirN else t (src @ r))
     else t q)"

definition code_fits :: "tree \<Rightarrow> string list \<Rightarrow> string list \<Rightarrow> bool" where
  "code_fits t src n \<longleftrightarrow>
     t (src @ n) \<noteq> Some DirN \<and> (\<forall>r \<in> path_dirs n. \<not> is_file (t (src @ r)))"

lemma fill_workspace_set:
  assumes ws: "abs_dir ws" "staging_ok (components ws) t" and nm: "plain_name name"
    and wf: "tree_wf t" and ks: "\<And>r. t (src @ r) \<noteq> None \<Longrightarrow> r \<in> set ks"
  shows "if code_fits t src (segs name)
    then fill_workspace (\<lambda>_. no_copy_fault) no_fault t ws (Some (WalkDir t src ks)) name code =
      (None, workspace_of t (components ws) src (segs name) code)
    else fst (fill_workspace (\<lambda>_. no_copy_fault) no_fault t ws (Some (WalkDir t src ks)) name code) \<noteq> None"
proof -
  let ?n = "segs name" and ?D = "components ws" and ?Ds = "set_dirs t src" and ?Fs = "set_files t src"
  have copy: "copyAssets (\<lambda>_. no_copy_fault) ?D (WalkDir t src ks) t = (None, tree_of ?D t ?Ds ?Fs)"
    using copyAssets_set [OF ws(2) abs_dir_components(3) [OF ws(1)] wf ks] .
  have fill: "fill_workspace (\<lambda>_. no_copy_fault) no_fault t ws (Some (WalkDir t src ks)) name code =
      writeCode no_fault (tree_of ?D t ?Ds ?Fs) ws name code"
    by (simp add: fill_workspace_def copy)
  have dis: "?Fs r = None" if "r \<in> ?Ds" for r using that by (simp add: set_dirs_def set_files_def)
  have pn: "r \<noteq> []" if "r \<in> path_dirs ?n" for r using that by (auto simp: path_dirs_def)
  have reg: "?Fs r = None \<longleftrightarrow> \<not> is_file (t (src @ r))" if "r \<noteq> []" for r
    using that by (auto simp: set_files_def split: option.splits node.splits)
  have cond: "(\<forall>r \<in> path_dirs ?n. ?Fs r = None) \<and> ?n \<notin> ?Ds \<longleftrightarrow> code_fits t src ?n"
    using reg pn by (auto simp: code_fits_def set_dirs_def)
  have tree: "tree_of ?D t (?Ds \<union> path_dirs ?n) (?Fs(?n \<mapsto> code)) = workspace_of t ?D src ?n code"
    if fits: "code_fits t src ?n"
  proof (rule ext)
    fix q
    have pre: "length ?D < length q \<and> take (length ?D) q = ?D \<longleftrightarrow> strict_prefix ?D q"
      by (metis append_eq_conv_conj append_take_drop_id prefix_length_less prefix_def
          strict_prefix_def take_all_iff not_less)
    show "tree_of ?D t (?Ds \<union> path_dirs ?n) (?Fs(?n \<mapsto> code)) q = workspace_of t ?D src ?n code q"
    proof (cases "strict_prefix ?D q")
      case True
      then obtain r where r: "q = ?D @ r" "r \<noteq> []" by (auto simp: strict_prefix_def prefix_def)
      have "?n \<notin> ?Ds" using fits by (simp add: code_fits_def set_dirs_def)
      with r True not_path_dir [of ?n] show ?thesis
        by (cases "t (src @ r)"; cases "the (t (src @ r))")
          (auto simp: workspace_of_def set_dirs_def set_files_def)
    next
      case False
      then show ?thesis unfolding tree_of_def pre by (simp add: workspace_of_def)
    qed
  qed
  show ?thesis
    unfolding fill cond [symmetric] using writeCode_tree [OF ws nm dis, where code = code] tree cond by (simp split: if_splits)
qed

text \<open>Without assets the workspace holds the student's file and its directories only.\<close>

lemma fill_workspace_plain:
  assumes "abs_dir ws" and "staging_ok (components ws) t" and "plain_name name"
  shows "fill_workspace cfa no_fault t ws None name code =
    (None, tree_of (components ws) t (path_dirs (segs name)) [segs name \<mapsto> code])"
  using writeCode_tree [OF assms, of "{}" Map.empty code] tree_of_empty [OF assms(2)]
  by (simp add: fill_workspace_def)

end
