(* ===== verification/Serve_Lifecycle.thy ===== *)
theory Serve_Lifecycle
  imports Serve_Server Lint_Workspace
begin

text \<open>
  \<open>internal/serve/server.go\<close>: the Go warm-up lint (\<open>goWarmup\<close>) and \<open>shutdown\<close>, whose
  servers drain concurrently while the javac worker is closed.
\<close>

section \<open>The Go warm-up\<close>

definition tab :: string where "tab = [CHR 0x09]"

definition goWarmupSample :: string where
  "goWarmupSample = join_with CHR 0x0A
     [''package main'', [], ''import ('', tab @ ''\"bufio\"'', tab @ ''\"fmt\"'', tab @ ''\"math\"'',
      tab @ ''\"os\"'', tab @ ''\"sort\"'', tab @ ''\"strconv\"'', tab @ ''\"strings\"'', '')'', [],
      ''func main() {'', tab @ ''r := bufio.NewReader(os.Stdin)'',
      tab @ ''s, _ := r.ReadString('' @ [CHR 0x27, CHR 0x5C, CHR ''n'', CHR 0x27] @ '')'',
      tab @ ''n, _ := strconv.Atoi(strings.TrimSpace(s))'', tab @ ''v := []float64{math.Sqrt(float64(n))}'',
      tab @ ''sort.Float64s(v)'', tab @ ''fmt.Println(v)'', ''}'', []]"

datatype warmup_error = WarmWorkspace fs_error | WarmWrite fs_error | WarmRun run_failure

definition warmup_options :: "linter \<Rightarrow> string \<Rightarrow> run_options" where
  "warmup_options l ws = \<lparr>o_dir = ws, o_env = Some (ScrubbedEnv l), o_max_output = 0, o_redact = None\<rparr>"

text \<open>
  \<open>keys\<close> is the order in which the map \<open>s.linters\<close> is iterated; the error and the tree with the
  sample in the workspace.
\<close>

definition goWarmup ::
  "(string \<Rightarrow> string) \<Rightarrow> (string \<times> linter) list \<Rightarrow> fs_error + string \<Rightarrow> fault \<Rightarrow> tree \<Rightarrow>
     (linter \<Rightarrow> string list \<Rightarrow> run_options \<Rightarrow> tool_exit) \<Rightarrow> warmup_error option \<times> tree" where
  "goWarmup toolOf keys ws fa t tool =
     (case find (\<lambda>(key, l). toolOf key = gv_ToolID) keys of
        None \<Rightarrow> (None, t)
      | Some (key, l) \<Rightarrow>
          (case ws of
             Inl e \<Rightarrow> (Some (WarmWorkspace e), t)
           | Inr ws \<Rightarrow>
               (case writeCode fa t ws ''warmup.go'' goWarmupSample of
                  (Some e, t') \<Rightarrow> (Some (WarmWrite e), t')
                | (None, t') \<Rightarrow>
                    (case run_context l [''warmup.go''] (warmup_options l ws)
                            (tool l [''warmup.go''] (warmup_options l ws)) of
                       Inl e \<Rightarrow> (Some (WarmRun e), t')
                     | Inr r \<Rightarrow> (None, t')))))"

text \<open>Nothing runs when no language uses go vet, and the order of the map matters only when several do.\<close>

lemma goWarmup_unused:
  "\<not> (\<exists>key \<in> fst ` set keys. toolOf key = gv_ToolID) \<Longrightarrow> goWarmup toolOf keys ws fa t tool = (None, t)"
proof -
  assume "\<not> (\<exists>key \<in> fst ` set keys. toolOf key = gv_ToolID)"
  then have "find (\<lambda>(key, l). toolOf key = gv_ToolID) keys = None" by (auto simp: find_None_iff)
  then show ?thesis by (simp add: goWarmup_def)
qed

lemma find_unique:
  assumes "{y \<in> set ks. P y} = {x}"
  shows "find P ks = Some x"
proof (cases "find P ks")
  case None
  then have "\<forall>y \<in> set ks. \<not> P y" by (simp add: find_None_iff)
  with assms show ?thesis by blast
next
  case (Some y)
  then have "y \<in> {y \<in> set ks. P y}" by (auto simp: find_Some_iff)
  with assms Some show ?thesis by simp
qed

lemma goWarmup_order:
  assumes one: "{(key, l) \<in> set keys. toolOf key = gv_ToolID} = {x}" and perm: "set keys' = set keys"
  shows "goWarmup toolOf keys' ws fa t tool = goWarmup toolOf keys ws fa t tool"
proof -
  have "{y \<in> set keys. (\<lambda>(key, l). toolOf key = gv_ToolID) y} = {x}" using one by auto
  from find_unique [OF this] find_unique [OF this [folded perm]]
  have "find (\<lambda>(key, l). toolOf key = gv_ToolID) keys' = find (\<lambda>(key, l). toolOf key = gv_ToolID) keys" by simp
  then show ?thesis by (simp add: goWarmup_def)
qed

section \<open>Shutdown\<close>

datatype http_pc = HttpUp | HttpAsked | HttpOver

datatype shut_pc = ShStart | ShChecker | ShWait | ShSocket | ShStopped

record shut_sys =
  sd_pc :: shut_pc
  sd_base :: bool               \<comment> \<open>\<open>baseCtx\<close> is cancelled\<close>
  sd_servers :: "http_pc list"
  sd_grace :: bool              \<comment> \<open>the grace period is over\<close>
  sd_checker :: bool            \<comment> \<open>the javac worker runs\<close>
  sd_socket :: bool             \<comment> \<open>the socket file exists\<close>

inductive shut_step :: "shut_sys \<Rightarrow> shut_sys \<Rightarrow> bool" where
  sd_cancel: "sd_pc s = ShStart \<Longrightarrow>
    shut_step s (s\<lparr>sd_base := True, sd_servers := map (\<lambda>_. HttpAsked) (sd_servers s), sd_pc := ShChecker\<rparr>)"
| sd_drain: "i < length (sd_servers s) \<Longrightarrow> sd_servers s ! i = HttpAsked \<Longrightarrow>
    shut_step s (s\<lparr>sd_servers := (sd_servers s)[i := HttpOver]\<rparr>)"
| sd_expire: "sd_pc s \<noteq> ShStart \<Longrightarrow> shut_step s (s\<lparr>sd_grace := True\<rparr>)"
| sd_force: "i < length (sd_servers s) \<Longrightarrow> sd_servers s ! i = HttpAsked \<Longrightarrow> sd_grace s \<Longrightarrow>
    shut_step s (s\<lparr>sd_servers := (sd_servers s)[i := HttpOver]\<rparr>)"
| sd_close: "sd_pc s = ShChecker \<Longrightarrow> shut_step s (s\<lparr>sd_checker := False, sd_pc := ShWait\<rparr>)"
| sd_wait: "sd_pc s = ShWait \<Longrightarrow> set (sd_servers s) \<subseteq> {HttpOver} \<Longrightarrow> shut_step s (s\<lparr>sd_pc := ShSocket\<rparr>)"
| sd_unlink: "sd_pc s = ShSocket \<Longrightarrow> shut_step s (s\<lparr>sd_socket := False, sd_pc := ShStopped\<rparr>)"

definition shut_start :: "shut_sys \<Rightarrow> bool" where
  "shut_start s \<longleftrightarrow> sd_pc s = ShStart \<and> set (sd_servers s) \<subseteq> {HttpUp}"

definition shut_inv :: "shut_sys \<Rightarrow> bool" where
  "shut_inv s \<longleftrightarrow>
     (sd_pc s \<noteq> ShStart \<longrightarrow> sd_base s \<and> HttpUp \<notin> set (sd_servers s)) \<and>
     (sd_pc s = ShStart \<longrightarrow> set (sd_servers s) \<subseteq> {HttpUp}) \<and>
     (sd_pc s \<in> {ShWait, ShSocket, ShStopped} \<longrightarrow> \<not> sd_checker s) \<and>
     (sd_pc s \<in> {ShSocket, ShStopped} \<longrightarrow> set (sd_servers s) \<subseteq> {HttpOver}) \<and>
     (sd_pc s = ShStopped \<longrightarrow> \<not> sd_socket s)"

lemma shut_inv_over:
  assumes inv: "shut_inv s" and i: "i < length (sd_servers s)" "sd_servers s ! i = HttpAsked"
  shows "shut_inv (s\<lparr>sd_servers := (sd_servers s)[i := HttpOver]\<rparr>)"
proof -
  have up: "set ((sd_servers s)[i := HttpOver]) \<subseteq> insert HttpOver (set (sd_servers s))"
    by (rule set_update_subset_insert)
  have "HttpAsked \<in> set (sd_servers s)" using i by (metis nth_mem)
  with inv have "sd_pc s \<noteq> ShStart" "sd_pc s \<notin> {ShSocket, ShStopped}" by (auto simp: shut_inv_def)
  with inv up show ?thesis by (auto simp: shut_inv_def)
qed

lemma shut_inv_step:
  assumes inv: "shut_inv s" and step: "shut_step s t"
  shows "shut_inv t"
  using step
proof (cases rule: shut_step.cases)
  case sd_cancel
  then show ?thesis by (auto simp: shut_inv_def)
next
  case (sd_drain i)
  then show ?thesis using shut_inv_over [OF inv] by simp
next
  case (sd_force i)
  then show ?thesis using shut_inv_over [OF inv] by simp
qed (use inv in \<open>simp_all add: shut_inv_def\<close>)

lemma shut_inv_start: "shut_start s \<Longrightarrow> shut_inv s"
  by (simp add: shut_start_def shut_inv_def)

interpretation shut: transition_system shut_start shut_step shut_inv
  by unfold_locales (rule shut_inv_start, assumption, rule shut_inv_step)

text \<open>When the server has stopped nothing of it is left, and a stop is always possible.\<close>

lemma stopped_clean:
  "shut_inv s \<Longrightarrow> sd_pc s = ShStopped \<Longrightarrow>
     sd_base s \<and> set (sd_servers s) \<subseteq> {HttpOver} \<and> \<not> sd_checker s \<and> \<not> sd_socket s"
  by (auto simp: shut_inv_def)

lemma drain_all:
  assumes "HttpUp \<notin> set (sd_servers s)"
  shows "\<exists>t. reaches shut_step s t \<and> sd_pc t = sd_pc s \<and> set (sd_servers t) \<subseteq> {HttpOver}"
  using assms
proof (induction "length (filter (\<lambda>p. p = HttpAsked) (sd_servers s))" arbitrary: s rule: less_induct)
  case less
  show ?case
  proof (cases "HttpAsked \<in> set (sd_servers s)")
    case True
    then obtain i where i: "i < length (sd_servers s)" "sd_servers s ! i = HttpAsked"
      by (auto simp: in_set_conv_nth)
    let ?t = "s\<lparr>sd_servers := (sd_servers s)[i := HttpOver]\<rparr>"
    have st: "shut_step s ?t" using i by (rule sd_drain)
    have "tally (\<lambda>p. p = HttpAsked) (sd_servers ?t) < tally (\<lambda>p. p = HttpAsked) (sd_servers s)"
      using i by (simp add: tally_update)
    moreover have "HttpUp \<notin> set (sd_servers ?t)"
      using less.prems set_update_subset_insert [of "sd_servers s" i HttpOver] by auto
    ultimately obtain u where u: "reaches shut_step ?t u" "sd_pc u = sd_pc ?t" "set (sd_servers u) \<subseteq> {HttpOver}"
      using less.hyps [of ?t] by (auto simp: tally_def)
    have "reaches shut_step s u" by (rule reaches_trans [OF u(1)], rule reaches_single, rule st)
    with u(2,3) show ?thesis by auto
  next
    case False
    have "set (sd_servers s) \<subseteq> {HttpOver}"
    proof
      fix p assume "p \<in> set (sd_servers s)"
      with False less.prems show "p \<in> {HttpOver}" by (cases p) auto
    qed
    then show ?thesis by (intro exI conjI) (rule reaches_refl, rule refl)
  qed
qed

lemma shutdown_ends:
  assumes "shut_inv s"
  shows "\<exists>t. reaches shut_step s t \<and> sd_pc t = ShStopped"
proof -
  have socket: "\<exists>t. reaches shut_step s t \<and> sd_pc t = ShStopped" if "sd_pc s = ShSocket" for s
    using sd_unlink [OF that]
    by (intro exI [of _ "s\<lparr>sd_socket := False, sd_pc := ShStopped\<rparr>"]) (simp add: reaches_single)
  have waiting: "\<exists>t. reaches shut_step s t \<and> sd_pc t = ShStopped"
    if w: "sd_pc s = ShWait" "HttpUp \<notin> set (sd_servers s)" for s
  proof -
    obtain u where u: "reaches shut_step s u" "sd_pc u = sd_pc s" "set (sd_servers u) \<subseteq> {HttpOver}"
      using drain_all [OF w(2)] by blast
    have "shut_step u (u\<lparr>sd_pc := ShSocket\<rparr>)" using sd_wait [of u] u(2,3) w(1) by simp
    then have r: "reaches shut_step s (u\<lparr>sd_pc := ShSocket\<rparr>)" using u(1) by (rule reaches_step [rotated])
    obtain t where t: "reaches shut_step (u\<lparr>sd_pc := ShSocket\<rparr>) t" "sd_pc t = ShStopped"
      using socket [of "u\<lparr>sd_pc := ShSocket\<rparr>"] by auto
    from reaches_trans [OF t(1) r] t(2) show ?thesis by blast
  qed
  have checker: "\<exists>t. reaches shut_step s t \<and> sd_pc t = ShStopped"
    if w: "sd_pc s = ShChecker" "HttpUp \<notin> set (sd_servers s)" for s
  proof -
    let ?u = "s\<lparr>sd_checker := False, sd_pc := ShWait\<rparr>"
    obtain t where t: "reaches shut_step ?u t" "sd_pc t = ShStopped" using waiting [of ?u] w by auto
    have "reaches shut_step s ?u" by (rule reaches_single) (rule sd_close [OF w(1)])
    from reaches_trans [OF t(1) this] t(2) show ?thesis by blast
  qed
  show ?thesis
  proof (cases "sd_pc s")
    case ShStart
    let ?u = "s\<lparr>sd_base := True, sd_servers := map (\<lambda>_. HttpAsked) (sd_servers s), sd_pc := ShChecker\<rparr>"
    obtain t where t: "reaches shut_step ?u t" "sd_pc t = ShStopped" using checker [of ?u] by auto
    have "reaches shut_step s ?u" by (rule reaches_single) (rule sd_cancel [OF ShStart])
    from reaches_trans [OF t(1) this] t(2) show ?thesis by blast
  next
    case ShStopped
    then show ?thesis by (intro exI conjI) (rule reaches_refl)
  qed (use assms checker [of s] waiting [of s] socket [of s] in \<open>auto simp: shut_inv_def\<close>)
qed

end
