(* ===== verification/Dial_Stdio.thy ===== *)
theory Dial_Stdio
  imports Serve_Config Lint_Prelude
begin

text \<open>
  \<open>internal/dialstdio/dialstdio.go\<close>: the bridge between stdin, stdout and the server's socket,
  with its exit codes.  The two copies run concurrently; a step of a copy moves a chunk of bytes,
  and the process ends with the copy from the socket.
\<close>

section \<open>Flags\<close>

definition exitOK :: int where "exitOK = 0"
definition exitConnect :: int where "exitConnect = 1"
definition exitUsage :: int where "exitUsage = 2"
definition exitIO :: int where "exitIO = 3"

definition dial_flags :: "string list \<Rightarrow> usage_error + (string list \<times> string)" where
  "dial_flags args = flag_loop [''socket''] (\<lambda>_ v _. Some v) args DefaultSocket"

section \<open>The bridge\<close>

datatype up_pc = UpCopy | UpClose | UpOver

record dial_sys =
  dl_stdin :: string            \<comment> \<open>bytes not yet read\<close>
  dl_stdin_end :: bool          \<comment> \<open>no more will come\<close>
  dl_up :: up_pc
  dl_sent :: string             \<comment> \<open>what the server was sent\<close>
  dl_half :: bool               \<comment> \<open>the socket was half-closed\<close>
  dl_recv :: string             \<comment> \<open>bytes of the server not yet read\<close>
  dl_recv_end :: bool
  dl_stdout :: string
  dl_exit :: "int option"
  dl_input :: string            \<comment> \<open>everything that came on stdin\<close>
  dl_reply :: string            \<comment> \<open>everything the server sent\<close>

definition dial_init :: dial_sys where
  "dial_init = \<lparr>dl_stdin = [], dl_stdin_end = False, dl_up = UpCopy, dl_sent = [], dl_half = False,
     dl_recv = [], dl_recv_end = False, dl_stdout = [], dl_exit = None, dl_input = [], dl_reply = []\<rparr>"

text \<open>\<open>Run\<close> once the socket is connected; the first four steps are the surroundings'.\<close>

inductive dial_step :: "dial_sys \<Rightarrow> dial_sys \<Rightarrow> bool" where
  dl_type: "\<not> dl_stdin_end s \<Longrightarrow>
    dial_step s (s\<lparr>dl_stdin := dl_stdin s @ bs, dl_input := dl_input s @ bs\<rparr>)"
| dl_eof: "dial_step s (s\<lparr>dl_stdin_end := True\<rparr>)"
| dl_serve: "\<not> dl_recv_end s \<Longrightarrow>
    dial_step s (s\<lparr>dl_recv := dl_recv s @ bs, dl_reply := dl_reply s @ bs\<rparr>)"
| dl_hangup: "dial_step s (s\<lparr>dl_recv_end := True\<rparr>)"
| dl_up_copy: "dl_exit s = None \<Longrightarrow> dl_up s = UpCopy \<Longrightarrow> dl_stdin s = bs @ rest \<Longrightarrow> bs \<noteq> [] \<Longrightarrow>
    dial_step s (s\<lparr>dl_stdin := rest, dl_sent := dl_sent s @ bs\<rparr>)"
| dl_up_end: "dl_exit s = None \<Longrightarrow> dl_up s = UpCopy \<Longrightarrow> dl_stdin s = [] \<Longrightarrow> dl_stdin_end s \<Longrightarrow>
    dial_step s (s\<lparr>dl_up := UpClose\<rparr>)"
| dl_up_error: "dl_exit s = None \<Longrightarrow> dl_up s = UpCopy \<Longrightarrow> dial_step s (s\<lparr>dl_up := UpOver\<rparr>)"
| dl_close_write: "dl_exit s = None \<Longrightarrow> dl_up s = UpClose \<Longrightarrow>
    dial_step s (s\<lparr>dl_up := UpOver, dl_half := True\<rparr>)"
| dl_down_copy: "dl_exit s = None \<Longrightarrow> dl_recv s = bs @ rest \<Longrightarrow> bs \<noteq> [] \<Longrightarrow>
    dial_step s (s\<lparr>dl_recv := rest, dl_stdout := dl_stdout s @ bs\<rparr>)"
| dl_down_end: "dl_exit s = None \<Longrightarrow> dl_recv s = [] \<Longrightarrow> dl_recv_end s \<Longrightarrow>
    dial_step s (s\<lparr>dl_exit := Some exitOK\<rparr>)"
| dl_down_error: "dl_exit s = None \<Longrightarrow> dial_step s (s\<lparr>dl_exit := Some exitIO\<rparr>)"

text \<open>\<open>Main\<close>: \<open>run\<close> is how the bridge on the connected socket ends.\<close>

definition dial_main :: "string list \<Rightarrow> (string \<Rightarrow> bool) \<Rightarrow> (string \<Rightarrow> int) \<Rightarrow> int" where
  "dial_main args connects run =
     (case dial_flags args of
        Inl e \<Rightarrow> exitUsage
      | Inr (rest, socket) \<Rightarrow>
          if rest \<noteq> [] then exitUsage
          else if \<not> connects socket then exitConnect
          else run socket)"

section \<open>Nothing is lost or reordered\<close>

definition dial_inv :: "dial_sys \<Rightarrow> bool" where
  "dial_inv s \<longleftrightarrow>
     dl_sent s @ dl_stdin s = dl_input s \<and> dl_stdout s @ dl_recv s = dl_reply s \<and>
     (dl_up s = UpClose \<or> dl_half s \<longrightarrow> dl_stdin s = [] \<and> dl_stdin_end s) \<and>
     (dl_exit s = Some exitOK \<longrightarrow> dl_recv s = [] \<and> dl_recv_end s) \<and>
     dl_exit s \<in> {None, Some exitOK, Some exitIO}"

lemma dial_inv_step: "dial_inv s \<Longrightarrow> dial_step s t \<Longrightarrow> dial_inv t"
  by (cases rule: dial_step.cases, assumption) (auto simp: dial_inv_def exitIO_def exitOK_def)

interpretation dial: transition_system "\<lambda>s. s = dial_init" dial_step dial_inv
  by unfold_locales (simp_all add: dial_inv_step, simp add: dial_inv_def dial_init_def)

text \<open>The bridge ends as soon as the server has closed and its bytes are written, whatever stdin does.\<close>

lemma dial_returns:
  assumes "dl_recv_end s" and "dl_exit s = None"
  shows "\<exists>t. reaches dial_step s t \<and> dl_exit t = Some exitOK"
proof -
  let ?s = "s\<lparr>dl_recv := [], dl_stdout := dl_stdout s @ dl_recv s\<rparr>"
  have "reaches dial_step s ?s"
  proof (cases "dl_recv s = []")
    case True
    then have "?s = s" by simp
    then show ?thesis by (simp add: reaches_refl)
  next
    case False
    then have "dial_step s ?s" using dl_down_copy [of s "dl_recv s" "[]"] assms by simp
    then show ?thesis by (rule reaches_single)
  qed
  moreover have "dial_step ?s (?s\<lparr>dl_exit := Some exitOK\<rparr>)" using dl_down_end [of ?s] assms by simp
  ultimately have "reaches dial_step s (?s\<lparr>dl_exit := Some exitOK\<rparr>)" by (rule reaches_step)
  then show ?thesis by (intro exI [of _ "?s\<lparr>dl_exit := Some exitOK\<rparr>"]) simp
qed

lemma dial_codes:
  assumes "\<And>s. run s \<in> {exitOK, exitIO}"
  shows "dial_main args connects run = exitUsage \<longleftrightarrow>
    (\<forall>socket. dial_flags args \<noteq> Inr ([], socket))"
    and "dial_main args connects run = exitConnect \<longleftrightarrow>
    (\<exists>socket. dial_flags args = Inr ([], socket) \<and> \<not> connects socket)"
proof -
  have n: "run s \<noteq> exitUsage" "run s \<noteq> exitConnect" for s
    using assms [of s] by (auto simp: exitOK_def exitIO_def exitUsage_def exitConnect_def)
  show "dial_main args connects run = exitUsage \<longleftrightarrow> (\<forall>socket. dial_flags args \<noteq> Inr ([], socket))"
    "dial_main args connects run = exitConnect \<longleftrightarrow>
      (\<exists>socket. dial_flags args = Inr ([], socket) \<and> \<not> connects socket)"
    using n by (auto simp: dial_main_def exitUsage_def exitConnect_def split: sum.split if_splits)
qed

lemma dial_default: "dial_flags [] = Inr ([], DefaultSocket)"
  "dial_flags [''--socket'', ''/s''] = Inr ([], ''/s'')" "dial_flags [''-socket=/s'', ''x''] = Inr ([''x''], ''/s'')"
  by (simp_all add: dial_flags_def flag_split_def)

end
