(* ===== verification/Sample_Runs.thy ===== *)
theory Sample_Runs
  imports End_To_End Asset_Accept Cache_System Key_Locks Serve_Lifecycle Dial_Stdio
begin

text \<open>
  Concrete inputs for the development's examples: a manifest with one language, a tool
  run, an archive, a lint request, and short schedules of the concurrent parts.
\<close>

section \<open>A registry and a tool run\<close>

definition sample_yaml :: "unit yaml" where
  "sample_yaml =
     \<lparr>y_document = (\<lambda>_. Some \<lparr>m_version = 1,
        m_languages = [(''java11'', \<lparr>lg_name = ''Java 11'', lg_tool = ''javac'', lg_with = ()\<rparr>)],
        m_tools = [(''ruff'', ''0.4.2'')]\<rparr>),
      y_more = (\<lambda>_. False), y_is_zero = (\<lambda>_. False), y_field = (\<lambda>_ _. Some ''11'')\<rparr>"

definition sample_token :: string where
  "sample_token = ''0123456789abcdef0123456789abcdef''"

text \<open>What the worker prints: a report with one finding and the given message.\<close>

definition sample_worker_json :: "string \<Rightarrow> json" where
  "sample_worker_json msg = JObj [(''findings'', JArr [JObj [(''path'', JStr ''/w/Main.java''),
     (''line'', JNum ''3''), (''severity'', JStr ''warning''), (''message'', JStr msg)]])]"

definition sample_worker_text :: "string \<Rightarrow> string" where
  "sample_worker_text msg = ''{\"findings\":[{\"path\":\"/w/Main.java\",\"line\":3,\"severity\":\"warning\",\"message\":\"''
     @ msg @ ''\"}]}''"

definition sample_stdout :: string where
  "sample_stdout = sample_worker_text sample_token"

definition sample_tools :: tool_ctx where
  "sample_tools = \<lparr>tc_version = (\<lambda>_. ''11'')\<rparr>"

definition sample_linter :: linter where
  "sample_linter = jc_New ''java11'' ''Java 11'' ''11''"

definition sample_opts :: run_options where
  "sample_opts = \<lparr>o_dir = [], o_env = None, o_max_output = 0, o_redact = None\<rparr>"

definition sample_exit :: tool_exit where
  "sample_exit = \<lparr>te_stdout = [sample_stdout], te_stderr = [], te_err = None, te_ctx = None\<rparr>"

definition sample_report :: "string \<Rightarrow> report" where
  "sample_report msg =
     \<lparr>r_version = 1, r_language = ''java11'', r_tool = [], r_tool_id = ''javac'',
      r_findings = Some [\<lparr>f_path = ''Main.java'', f_line = 3, f_column = 0, f_end_line = 0,
        f_end_column = 0, f_severity = ''warning'', f_rule = [], f_message = msg\<rparr>]\<rparr>"

definition sample_registry :: registry where
  "sample_registry = \<lparr>rg_version = 1, rg_tools = [(''ruff'', ''0.4.2'')], rg_linters = [sample_linter],
     rg_toolOf = Map.empty(''java11'' \<mapsto> ''javac'')\<rparr>"

lemma sample_patterns:
  "re_matches pinRE ''0.4.2''" "re_matches keyRE ''java11''" "re_matches releaseRE ''11''"
  by code_simp+

lemma sample_manifest: "parse_manifest sample_yaml sample_tools [] = Inr sample_registry"
  by (simp add: parse_manifest_def sample_yaml_def sample_tools_def sample_registry_def
      sample_linter_def manifestVersion_def pin_of_def build_def check_option_def decodeWith_def
      rf_ToolID_def ct_ToolID_def jc_ToolID_def gv_ToolID_def sorted_keys_def sample_patterns)

lemma sample_texts:
  "sample_stdout = json_text False (sample_worker_json sample_token)"
  "sample_worker_text ''[redacted]'' = json_text False (sample_worker_json ''[redacted]'')"
  by code_simp+

lemma sample_worker_json_ok: "json_wf maxNestingDepth (sample_worker_json msg)"
  "list_all (\<lambda>c. (of_char c :: nat) < 128) msg \<Longrightarrow> json_clean (sample_worker_json msg) = sample_worker_json msg"
proof -
  have "parse_number ''3'' = Some (''3'', [])" by code_simp
  then show "json_wf maxNestingDepth (sample_worker_json msg)"
    by (simp add: sample_worker_json_def maxNestingDepth_def)
qed (simp add: sample_worker_json_def)

lemma sample_parsed:
  assumes "list_all (\<lambda>c. (of_char c :: nat) < 128) msg"
  shows "json_parse (json_text False (sample_worker_json msg)) = Some (sample_worker_json msg)"
  by (simp only: json_parse_text [OF sample_worker_json_ok(1)] sample_worker_json_ok(2) [OF assms])

lemma sample_decoded:
  "map_option (\<lambda>r. wr_findings r) (dec_worker_report \<lparr>wr_tool = [], wr_findings = None\<rparr> (sample_worker_json msg)) =
     Some (Some [\<lparr>f_path = ''/w/Main.java'', f_line = 3, f_column = 0, f_end_line = 0,
        f_end_column = 0, f_severity = ''warning'', f_rule = [], f_message = msg\<rparr>])"
  "map_option wr_tool (dec_worker_report \<lparr>wr_tool = [], wr_findings = None\<rparr> (sample_worker_json msg)) = Some []"
proof -
  have "parse_int ''3'' = Some 3" by code_simp
  then show "map_option (\<lambda>r. wr_findings r) (dec_worker_report \<lparr>wr_tool = [], wr_findings = None\<rparr> (sample_worker_json msg)) =
     Some (Some [\<lparr>f_path = ''/w/Main.java'', f_line = 3, f_column = 0, f_end_line = 0,
        f_end_column = 0, f_severity = ''warning'', f_rule = [], f_message = msg\<rparr>])"
    "map_option wr_tool (dec_worker_report \<lparr>wr_tool = [], wr_findings = None\<rparr> (sample_worker_json msg)) = Some []"
    by (simp_all add: sample_worker_json_def dec_worker_report_def dec_struct_def field_of_def dec_slice_def
        dec_finding_def zero_finding_def dec_string_def dec_int_def)
qed

lemma sample_parse:
  assumes "json_parse s = Some (sample_worker_json msg)"
  shows "map_sum id (normalize_findings [''Main.java'']) (l_parse sample_linter s [] 0) = Inr (sample_report msg)"
proof -
  have "NormalizePath ''/w/Main.java'' [''Main.java''] = ''Main.java''" by code_simp
  with assms sample_decoded [of msg] show ?thesis
    by (auto simp: sample_linter_def jc_New_def jc_parse_def jc_ToolID_def ReportVersion_def sample_report_def
        jc_severities_def SeverityWarning_def normalize_findings_def)
qed

lemma sample_run:
  "run_context sample_linter [''Main.java''] sample_opts sample_exit = Inr (sample_report sample_token)"
proof -
  have "list_all (\<lambda>c. (of_char c :: nat) < 128) sample_token" by code_simp
  from sample_parsed [OF this] have "json_parse sample_stdout = Some (sample_worker_json sample_token)"
    by (simp only: sample_texts(1))
  note parsed = sample_parse [OF this]
  have len: "length sample_stdout \<le> nat DefaultMaxOutput" "int (length sample_stdout) \<le> DefaultMaxOutput"
    by (simp_all add: sample_stdout_def sample_worker_text_def sample_token_def DefaultMaxOutput_def)
  have "0 \<le> DefaultMaxOutput" by (simp add: DefaultMaxOutput_def)
  from capped_new_writes [OF this, of "[sample_stdout]"] capped_new_writes [OF this, of "[]"] len
  have buf: "cb_buf (capped_writes (capped_new DefaultMaxOutput) [sample_stdout]) = sample_stdout"
    "\<not> cb_overflow (capped_writes (capped_new DefaultMaxOutput) [sample_stdout])"
    "cb_buf (capped_new DefaultMaxOutput) = []" "\<not> cb_overflow (capped_new DefaultMaxOutput)"
    by (simp_all del: capped_writes_Cons add: capped_new_def)
  show ?thesis
    using parsed
    by (auto simp: run_context_def sample_opts_def sample_exit_def buf Let_def simp del: capped_writes_Cons
        split: sum.splits)
qed

section \<open>An archive\<close>

definition sample_env :: "int extract_env" where
  "sample_env = \<lparr>xe_dir = ''/c'', xe_max = 100, xe_reserve = (\<lambda>n b. (None, b + n)),
     xe_fault = (\<lambda>_. no_fault)\<rparr>"

definition sample_tree :: tree where
  "sample_tree = Map.empty([''c''] \<mapsto> DirN)"

definition sample_archive :: "tar_entry list" where
  "sample_archive =
     [\<lparr>ta_type = XGlobalHeader, ta_name = [], ta_size = 0, ta_data = [], ta_err = None\<rparr>,
      \<lparr>ta_type = TypeDir, ta_name = ''./d/'', ta_size = 0, ta_data = [], ta_err = None\<rparr>,
      \<lparr>ta_type = TypeReg, ta_name = ''d/a'', ta_size = 2, ta_data = ''hi'', ta_err = None\<rparr>]"

lemma sample_staging: "env_ok sample_env sample_tree"
proof -
  have "abs_dir ''/c''" unfolding abs_dir_def by (rule exI [of _ "[''c'']"]) (simp add: plain_seg_def)
  moreover have "components ''/c'' = [''c'']" by code_simp
  ultimately show ?thesis by (simp add: env_ok_def sample_env_def staging_ok_def sample_tree_def)
qed

lemma sample_extracted:
  "(case extractAssets sample_env sample_archive None sample_tree 0 of
      Some (Inr n, x) \<Rightarrow> n = 2 \<and> ex_budget x = 2 | _ \<Rightarrow> False)"
  by code_simp

lemma sample_extraction: "\<exists>x. extractAssets sample_env sample_archive None sample_tree 0 = Some (Inr 2, x)"
proof (cases "extractAssets sample_env sample_archive None sample_tree 0")
  case (Some rx)
  with sample_extracted show ?thesis by (cases rx; cases "fst rx") auto
qed (use sample_extracted in simp)

section \<open>A schedule of the asset cache\<close>

text \<open>An upload of three bytes (four reserved) and a lint that reads it.\<close>

definition cache_s0 :: cache_sys where
  "cache_s0 = \<lparr>cs_cache = newAssetCache ''/c'' 10, cs_dirs = {}, cs_counted = {}, cs_pcs = []\<rparr>"

definition cache_of :: "int \<Rightarrow> asset_cache" where
  "cache_of used = (newAssetCache ''/c'' 10)\<lparr>ac_used := used\<rparr>"

definition sample_entry :: cache_entry where
  "sample_entry = \<lparr>e_fingerprint = ''f'', e_dir = ''/c/set'', e_size = 3, e_lastUsed = 7,
     e_readers = 0, e_stale = False\<rparr>"

definition stored :: "cache_entry \<Rightarrow> asset_cache" where
  "stored e = \<lparr>ac_dir = ''/c'', ac_max = 10, ac_entries = [''k'' \<mapsto> 0], ac_heap = [0 \<mapsto> e],
     ac_next = 1, ac_used = 3\<rparr>"

definition cache_s :: "cache_pc \<Rightarrow> asset_cache \<Rightarrow> nat set \<Rightarrow> cache_sys" where
  "cache_s pc c d = \<lparr>cs_cache = c, cs_dirs = d, cs_counted = d, cs_pcs = [pc]\<rparr>"

lemmas sample_cache_defs = cache_s0_def cache_s_def cache_of_def stored_def sample_entry_def
  newAssetCache_def move_def at_pc_def

lemma cache_run_stored:
  "reaches cache_step cache_s0 (cache_s Finished (stored sample_entry) {0})"
proof -
  have 1: "cache_step cache_s0 (cache_s (Staging ''k'' ''f'' 0 0) (cache_of 0) {})"
    using cache_step.cs_put [of "''k''" "''f''" cache_s0]
    by (simp add: sample_cache_defs cache_holds_def)
  have 2: "cache_step (cache_s (Staging ''k'' ''f'' 0 0) (cache_of 0) {})
      (cache_s (Removing None [] (Resume ''k'' ''f'' 0 0 4)) (cache_of 4) {})"
    using cache_step.cs_reserve [of "cache_s (Staging ''k'' ''f'' 0 0) (cache_of 0) {}" 0 "''k''" "''f''" 0 0 4
        "[]" "[]" "cache_of 4"]
    by (simp add: sample_cache_defs cache_reserve_def)
  have 3: "cache_step (cache_s (Removing None [] (Resume ''k'' ''f'' 0 0 4)) (cache_of 4) {})
      (cache_s (Staging ''k'' ''f'' 4 0) (cache_of 4) {})"
    using cache_step.cs_resume [of "cache_s (Removing None [] (Resume ''k'' ''f'' 0 0 4)) (cache_of 4) {}" 0
        "''k''" "''f''" 0 0 4]
    by (simp add: sample_cache_defs)
  have 4: "cache_step (cache_s (Staging ''k'' ''f'' 4 0) (cache_of 4) {})
      (cache_s (Staging ''k'' ''f'' 4 3) (cache_of 4) {})"
    using cache_step.cs_write [of "cache_s (Staging ''k'' ''f'' 4 0) (cache_of 4) {}" 0 "''k''" "''f''" 4 0 3]
    by (simp add: sample_cache_defs)
  have 5: "cache_step (cache_s (Staging ''k'' ''f'' 4 3) (cache_of 4) {})
      (cache_s (Removing None [] Return) (stored sample_entry) {0})"
    using cache_step.cs_install [of "cache_s (Staging ''k'' ''f'' 4 3) (cache_of 4) {}" 0 "''k''" "''f''" 4 3
        "''/c/set''" 7 "[]" "stored sample_entry"]
    by (simp add: sample_cache_defs cache_install_def)
  have 6: "cache_step (cache_s (Removing None [] Return) (stored sample_entry) {0})
      (cache_s Finished (stored sample_entry) {0})"
    using cache_step.cs_removed [of "cache_s (Removing None [] Return) (stored sample_entry) {0}" 0]
    by (simp add: sample_cache_defs)
  show ?thesis using 1 2 3 4 5 6 by (meson reaches_refl reaches_step)
qed

definition cache_reading :: cache_sys where
  "cache_reading = \<lparr>cs_cache = stored (sample_entry\<lparr>e_readers := 1, e_lastUsed := 9\<rparr>), cs_dirs = {0},
     cs_counted = {0}, cs_pcs = [Finished, Reading 0]\<rparr>"

lemma cache_run_reading: "reaches cache_step cache_s0 cache_reading"
proof -
  have "cache_step (cache_s Finished (stored sample_entry) {0}) cache_reading"
    using cache_step.cs_acquire [of "''k''" "''f''" 9 "cache_s Finished (stored sample_entry) {0}" 0
        "stored (sample_entry\<lparr>e_readers := 1, e_lastUsed := 9\<rparr>)"]
    by (simp add: sample_cache_defs cache_reading_def cache_acquire_def entry_at_def set_entry_def)
  then show ?thesis by (rule reaches_step [OF cache_run_stored])
qed

text \<open>Nine more bytes do not fit beside the stored three.\<close>

lemma sample_eviction: "fst (cache_reserve [''k''] ''j'' 9 (stored sample_entry)) = Some [0]"
  by code_simp

lemma cache_s0_start: "cache_start ''/c'' 10 cache_s0"
  by (simp add: cache_start_def cache_s0_def)

section \<open>Schedules of the key locks, the pool and the warm-up\<close>

definition lock_s0 :: lock_sys where
  "lock_s0 = \<lparr>ls_locks = newKeyLocks, ls_pcs = []\<rparr>"

definition lock_c :: "bool \<Rightarrow> int \<Rightarrow> key_locks" where
  "lock_c h r = \<lparr>kl_map = [''k'' \<mapsto> 0], kl_heap = [0 \<mapsto> \<lparr>kl_held = h, kl_refs = r\<rparr>], kl_next = 1\<rparr>"

definition lock_s2 :: lock_sys where
  "lock_s2 = \<lparr>ls_locks = lock_c True 2, ls_pcs = [LHolding ''k'' 0, LWaiting ''k'' 0]\<rparr>"

lemmas sample_lock_defs = lock_s0_def lock_c_def lock_s2_def newKeyLocks_def lock_at_def

lemma lock_run: "reaches lock_step lock_s0 lock_s2"
proof -
  let ?a = "\<lparr>ls_locks = lock_c False 1, ls_pcs = [LWaiting ''k'' 0]\<rparr>"
  let ?b = "\<lparr>ls_locks = lock_c False 2, ls_pcs = [LWaiting ''k'' 0, LWaiting ''k'' 0]\<rparr>"
  have 1: "lock_step lock_s0 ?a"
    using lock_step.ls_ref [of "''k''" lock_s0 0 "lock_c False 1"]
    by (simp add: sample_lock_defs lock_ref_def)
  have 2: "lock_step ?a ?b"
    using lock_step.ls_ref [of "''k''" ?a 0 "lock_c False 2"]
    by (simp add: sample_lock_defs lock_ref_def)
  have 3: "lock_step ?b lock_s2"
    using lock_step.ls_take [of 0 ?b "''k''" 0 "lock_c True 2"]
    by (simp add: sample_lock_defs lock_take_def)
  show ?thesis using 1 2 3 by (meson reaches_refl reaches_step)
qed

definition lock_s_done :: lock_sys where
  "lock_s_done = \<lparr>ls_locks = \<lparr>kl_map = Map.empty, kl_heap = [0 \<mapsto> \<lparr>kl_held = False, kl_refs = 0\<rparr>],
     kl_next = 1\<rparr>, ls_pcs = [LDone]\<rparr>"

lemma lock_run_done: "reaches lock_step lock_s0 lock_s_done"
proof -
  let ?s = "\<lambda>h pc. \<lparr>ls_locks = lock_c h 1, ls_pcs = [pc]\<rparr>"
  have 1: "lock_step lock_s0 (?s False (LWaiting ''k'' 0))"
    using lock_step.ls_ref [of "''k''" lock_s0 0 "lock_c False 1"]
    by (simp add: sample_lock_defs lock_ref_def)
  have 2: "lock_step (?s False (LWaiting ''k'' 0)) (?s True (LHolding ''k'' 0))"
    using lock_step.ls_take [of 0 "?s False (LWaiting ''k'' 0)" "''k''" 0 "lock_c True 1"]
    by (simp add: sample_lock_defs lock_take_def)
  have 3: "lock_step (?s True (LHolding ''k'' 0)) (?s False (LUnlocked ''k'' 0))"
    using lock_step.ls_free [of 0 "?s True (LHolding ''k'' 0)" "''k''" 0]
    by (simp add: sample_lock_defs lock_free_def)
  have 4: "lock_step (?s False (LUnlocked ''k'' 0)) lock_s_done"
    using lock_step.ls_unref [of 0 "?s False (LUnlocked ''k'' 0)" "''k''" 0]
    by (simp add: sample_lock_defs lock_unref_def lock_s_done_def)
  show ?thesis using 1 2 3 4 by (meson reaches_refl reaches_step)
qed

lemma lock_s0_start: "lock_start lock_s0"
  by (simp add: lock_start_def lock_s0_def)

definition pool_s0 :: pool_sys where
  "pool_s0 = \<lparr>ps_pool = newPool 1 1, ps_pcs = []\<rparr>"

definition pool_s :: "int \<Rightarrow> int \<Rightarrow> lint_pc list \<Rightarrow> pool_sys" where
  "pool_s a n pcs = \<lparr>ps_pool = \<lparr>po_workers = 1, po_slots = n, po_limit = 2, po_admitted = a,
     po_nextID = 0, po_holds = []\<rparr>, ps_pcs = pcs\<rparr>"

text \<open>One worker and one place in the queue: two lints are admitted, the second waits.\<close>

lemma pool_run: "reaches pool_step pool_s0 (pool_s 2 1 [Slotted, Admitted])"
proof -
  have 1: "pool_step pool_s0 (pool_s 1 0 [Admitted])"
    using pool_step.ps_admit [of pool_s0 "ps_pool (pool_s 1 0 [])"]
    by (simp add: pool_s0_def pool_s_def newPool_def admit_def)
  have 2: "pool_step (pool_s 1 0 [Admitted]) (pool_s 2 0 [Admitted, Admitted])"
    using pool_step.ps_admit [of "pool_s 1 0 [Admitted]" "ps_pool (pool_s 2 0 [])"]
    by (simp add: pool_s_def admit_def)
  have 3: "pool_step (pool_s 2 0 [Admitted, Admitted]) (pool_s 2 1 [Slotted, Admitted])"
    using pool_step.ps_slot [of 0 "pool_s 2 0 [Admitted, Admitted]" "ps_pool (pool_s 2 1 [])"]
    by (simp add: pool_s_def slot_send_def)
  show ?thesis using 1 2 3 by (meson reaches_refl reaches_step)
qed

lemma pool_s0_start: "pool_start 1 1 pool_s0"
  by (simp add: pool_start_def pool_s0_def)

definition run_s0 :: run_sys where
  "run_s0 = \<lparr>rn_pc = Listening, rn_state = newReadiness (run_components True False), rn_watch = NoWatch,
     rn_warming = NoWarm, rn_jready = False, rn_jfailed = None, rn_base = False\<rparr>"

definition run_warm_state :: run_sys where
  "run_warm_state = \<lparr>rn_pc = Serving, rn_state = \<lparr>rd_pending = [], rd_ready = True, rd_failed = []\<rparr>,
     rn_watch = AwaitFailed, rn_warming = NoWarm, rn_jready = True, rn_jfailed = None, rn_base = False\<rparr>"

lemma run_s0_start: "run_start True False run_s0"
  by (simp add: run_start_def run_s0_def)

section \<open>A request to the server\<close>

definition sample_lint_server :: lint_server where
  "sample_lint_server =
     \<lparr>ls_linters = [''java11'' \<mapsto> sample_linter], ls_toolOf = Tool sample_registry,
      ls_redacts = [sample_token], ls_checker = True\<rparr>"

definition sample_body_json :: json where
  "sample_body_json = JObj [(''language'', JStr ''java11''), (''filename'', JStr ''Main.java''), (''code'', JStr ''x'')]"

definition sample_body :: string where
  "sample_body = ''{\"language\":\"java11\",\"filename\":\"Main.java\",\"code\":\"x\"}''"

definition sample_lint_io :: lint_io where
  "sample_lint_io =
     \<lparr>li_body = Inr sample_body, li_gone_reading = False, li_queue = None, li_workspace = Inr ''/w'',
      li_copy = None, li_write = None, li_ctx = None,
      li_tool = (\<lambda>_ _ _. sample_exit),
      li_check = (\<lambda>_. Inr \<lparr>co_stdout = sample_stdout, co_stderr = [], co_code = 0\<rparr>),
      li_ctx_after = None, li_gone_after = False, li_now = 5\<rparr>"

definition sample_config :: config where
  "sample_config = flag_defaults\<lparr>c_listen := '':80'', c_token_file := ''/t'', c_queue := 4\<rparr>"

definition sample_conf :: serve_conf where
  "sample_conf = \<lparr>sc_lint = sample_lint_server, sc_token = sample_token,
     sc_manifest = buildManifest 1 [sample_linter] sample_config, sc_deadline = c_deadline sample_config,
     sc_cacheMax = c_cache_max sample_config\<rparr>"

definition sample_state :: serve_state where
  "sample_state = \<lparr>ss_pool = newPool 1 1, ss_uploads = 0, ss_uploads_cap = 1,
     ss_cache = newAssetCache ''/c'' 100,
     ss_state = \<lparr>rd_pending = [], rd_ready = True, rd_failed = []\<rparr>\<rparr>"

definition sample_request :: "string \<Rightarrow> string \<Rightarrow> string \<Rightarrow> http_request" where
  "sample_request method path token = \<lparr>hr_method = method, hr_path = path, hr_escaped = path,
     hr_token = token, hr_traceparent = []\<rparr>"

definition sample_put :: put_env where
  "sample_put = \<lparr>pe_order = (\<lambda>_. []), pe_mkdtemp = Inr ''/c'', pe_tree = sample_tree,
     pe_fault = (\<lambda>_. no_fault), pe_rename = None, pe_final = ''/c/set'', pe_now = 5\<rparr>"

definition sample_http_io :: http_io where
  "sample_http_io = \<lparr>hi_now = 5, hi_held = Some 0, hi_lint = sample_lint_io,
     hi_lint_text = (\<lambda>_. ([], [])), hi_put = sample_put, hi_tar = sample_archive, hi_tar_end = None,
     hi_gone = False, hi_error_text = (\<lambda>_. [])\<rparr>"

definition sample_lint_call :: "(writer \<times> serve_state) option" where
  "sample_lint_call =
     handler sample_conf True sample_http_io (sample_request ''POST'' ''/v1/lint'' sample_token) sample_state"

definition sample_job :: lint_job where
  "sample_job = \<lparr>jb_linter = sample_linter, jb_filename = ''Main.java'', jb_code = ''x'',
     jb_cacheKey = [], jb_fingerprint = [], jb_maxFindings = 1000\<rparr>"

lemma sample_filename: "checkFilename ''Main.java'' = None"
  by code_simp

lemma sample_body_text: "sample_body = json_text False sample_body_json"
  by code_simp

lemma sample_body_parsed: "json_first sample_body = Some (sample_body_json, [])"
proof -
  have "json_wf maxNestingDepth sample_body_json" "json_clean sample_body_json = sample_body_json"
    by (simp_all add: sample_body_json_def maxNestingDepth_def)
  with json_first_text [of sample_body_json "[]" False] show ?thesis
    by (simp add: sample_body_text number_stop_def)
qed

lemma sample_decode:
  "decodeLint (ls_linters sample_lint_server) sample_body = Inr sample_job"
  by (simp add: decodeLint_def sample_body_parsed sample_body_json_def sample_lint_server_def
      dec_lint_request_def dec_struct_def field_of_def
      dec_ptr_def dec_string_def zero_lint_request_def validate_request_def sample_filename
      decode_assets_def decode_max_def MaxCodeBytes_def MaxFindings_def sample_job_def)

text \<open>The answer: the token is replaced before the driver sees it.\<close>

definition sample_answer :: string where
  "sample_answer = ''{\"version\":1,\"language\":\"java11\",\"tool\":\"\",\"tool_id\":\"javac\",''
     @ ''\"findings\":[{\"path\":\"Main.java\",\"line\":3,\"severity\":\"warning\",\"message\":\"[redacted]\"}]}''
     @ [CHR 0x0A]"

lemma sample_redact:
  "redact [sample_token] sample_stdout = sample_worker_text ''[redacted]''"
  "redact [sample_token] [] = []" "redact [sample_token] sample_answer = sample_answer"
  by code_simp+

lemma sample_marshal: "marshal (report_json (capReport 1000 (sample_report ''[redacted]''))) = sample_answer"
  by code_simp

lemma sample_linter_language: "l_language sample_linter = ''java11''"
  by (simp add: sample_linter_def jc_New_def)

lemma sample_lint: "lint sample_lint_server sample_lint_io sample_job c = (Inr (sample_report ''[redacted]''), c)"
proof -
  have "json_parse (sample_worker_text ''[redacted]'') = Some (sample_worker_json ''[redacted]'')"
    unfolding sample_texts(2) by (rule sample_parsed) simp
  note sample_parse [OF this]
  then obtain r where r: "l_parse sample_linter (sample_worker_text ''[redacted]'') [] 0 = Inr r"
    "normalize_findings [''Main.java''] r = sample_report ''[redacted]''"
    by (cases "l_parse sample_linter (sample_worker_text ''[redacted]'') [] 0") auto
  have "l_release sample_linter = Some ''11''" by (simp add: sample_linter_def jc_New_def)
  with r show ?thesis
    by (simp add: lint_def sample_lint_io_def sample_lint_server_def sample_job_def lint_assets_def
        lint_javac_def jc_ToolID_def sample_redact sample_linter_language Tool_def sample_registry_def)
qed

lemma sample_handleLint:
  "\<exists>p. handleLint sample_lint_server sample_lint_io (ss_state sample_state) (ss_pool sample_state)
      (ss_cache sample_state) = Some (AnswerReport sample_answer, p, ss_cache sample_state)"
proof -
  have io: "li_body sample_lint_io = Inr sample_body" "li_queue sample_lint_io = None"
    "li_gone_after sample_lint_io = False"
    by (simp_all add: sample_lint_io_def)
  have "answer_report sample_lint_server sample_job (sample_report ''[redacted]'') = AnswerReport sample_answer"
    using sample_redact(3) sample_marshal
    by (simp add: answer_report_def sample_lint_server_def maxResponseBytes_def sample_job_def Let_def)
      (simp add: sample_answer_def)
  then show ?thesis
    by (simp add: handleLint_def io sample_decode sample_state_def isReady_def admit_def newPool_def
        slot_send_def hold_enter_def sample_lint)
qed

lemma sample_lint_call_ok:
  "case sample_lint_call of
     Some (w, st) \<Rightarrow> wr_status w = 200 \<and> wr_body w = sample_answer | None \<Rightarrow> False"
proof -
  have "tokenOK sample_token sample_token" by code_simp
  with sample_handleLint show ?thesis
    by (auto simp: sample_lint_call_def handler_def route_def allow_def sample_request_def
        sample_conf_def sample_http_io_def serve_lint_def answer_lint_def WriteHeader_def
        set_header_def new_writer_def)
qed

definition sample_upload_path :: string where
  "sample_upload_path = ''/v1/assets/k/'' @ replicate 64 CHR ''0''"

definition sample_upload_call :: "(writer \<times> serve_state) option" where
  "sample_upload_call =
     handler sample_conf False sample_http_io (sample_request ''PUT'' sample_upload_path []) sample_state"

definition sample_put_result :: "(upload_error option \<times> asset_cache) option" where
  "sample_put_result = cache_put sample_put ''k'' (replicate 64 CHR ''0'') sample_archive None
     (newAssetCache ''/c'' 100)"

lemma sample_put_ok:
  "case sample_put_result of Some (e, c) \<Rightarrow> e = None \<and> ac_used c = 2 | None \<Rightarrow> False"
  by code_simp

lemma sample_path:
  "cut_at CHR ''/'' (trim_prefix sample_upload_path ''/v1/assets/'') = (''k'', replicate 64 CHR ''0'', True)"
  by code_simp

lemma sample_upload_call_ok:
  "case sample_upload_call of
     Some (w, st) \<Rightarrow> wr_status w = 204 \<and> ac_used (ss_cache st) = 2 | None \<Rightarrow> False"
proof -
  obtain c where c: "sample_put_result = Some (None, c)" "ac_used c = 2"
    using sample_put_ok by (auto split: option.splits prod.splits)
  have keys: "re_matches cacheKeyRE ''k''" "re_matches fingerprintRE (replicate 64 CHR ''0'')"
    by (simp_all add: cacheKeyRE_iff fingerprintRE_iff alnum_def lower_def hex_digit_def list_all_iff digit_def)
  have paths: "sample_upload_path \<noteq> ''/v1/manifest''" "sample_upload_path \<noteq> ''/v1/lint''"
    "has_prefix sample_upload_path ''/v1/assets/''"
    by (simp_all add: sample_upload_path_def has_prefix_def)
  have eq: "sample_upload_call = Some (WriteHeader 204 new_writer,
      upload_leave (sample_state\<lparr>ss_uploads := 1, ss_cache := c\<rparr>))"
    using c(1) keys paths
    by (simp add: sample_upload_call_def handler_def route_def allow_def sample_request_def
        handleAssets_def sample_path upload_enter_def sample_state_def sample_put_result_def
        sample_http_io_def answer_upload_def)
  show ?thesis unfolding eq using c(2) by (simp add: WriteHeader_def new_writer_def upload_leave_def)
qed

section \<open>A line of go vet and a command line\<close>

lemma gv_sample_wf: "gv_wellformed CHR ''m'' [] ''7'' (Some ''2'') ''bad''"
  by (simp add: gv_wellformed_def path_start_def digit_def re_dot_def not_colon_def re_space_def)

lemma gv_sample_trim:
  "trim_space ('' vet: '' @ gv_print CHR ''m'' [] ''7'' (Some ''2'') ''bad'') =
     ''vet: '' @ gv_print CHR ''m'' [] ''7'' (Some ''2'') ''bad''"
  by code_simp

lemma gv_sample_vet: "\<not> has_prefix (gv_print CHR ''m'' [] ''7'' (Some ''2'') ''bad'') ''vet: ''"
  by code_simp

definition sample_cli :: cli_env where
  "sample_cli = \<lparr>ce_reg = sample_registry, ce_file = (\<lambda>_. Readable),
     ce_tool = (\<lambda>_ _. sample_exit), ce_serve = (\<lambda>_. 0), ce_dial = (\<lambda>_. 0), ce_stdout_ok = True\<rparr>"

definition sample_output :: string where
  "sample_output = marshal_indent (report_json (sample_report sample_token))"

lemma sample_cli_output: "cr_stdout (cli_lint sample_cli ''java11'' [''Main.java'']) = Some sample_output"
proof -
  have "run_tool sample_linter [''Main.java''] sample_exit = Inr (sample_report sample_token)"
    using sample_run by (simp add: run_tool_def sample_opts_def)
  moreover have "l_language sample_linter = ''java11''" by (simp add: sample_linter_def jc_New_def)
  ultimately show ?thesis
    by (simp add: cli_lint_def find_language_def sample_cli_def emit_def sample_output_def registry_reads sample_registry_def)
qed

section \<open>Starting a server\<close>

definition sample_server_io :: server_io where
  "sample_server_io =
     (let dir = \<lparr>di_mkdir = None, di_list = Inr [''cobe-lint-ws-1'', ''x''], di_remove = (\<lambda>_. None),
        di_probe = None, di_unprobe = None\<rparr>
      in \<lparr>si_token = Some (sample_token @ [newline]), si_cache = dir, si_work = dir,
          si_bind = \<lparr>bi_unix = True, bi_chmod = True, bi_tcp = True\<rparr>\<rparr>)"

definition sample_server :: server where
  "sample_server =
     \<lparr>sr_state = \<lparr>ss_pool = newPool (c_workers sample_config) 4, ss_uploads = 0,
        ss_uploads_cap = c_workers sample_config,
        ss_cache = newAssetCache (c_cache_dir sample_config) (c_cache_max sample_config),
        ss_state = newReadiness [componentWorkers, componentJavac]\<rparr>,
      sr_token = sample_token, sr_redacts = [sample_token], sr_linters = [''java11'' \<mapsto> sample_linter],
      sr_manifest = buildManifest 1 [sample_linter] sample_config, sr_listeners = [UnixListener, TcpListener]\<rparr>"

lemma sample_token_read: "readToken (Some (sample_token @ [newline])) = Inr (sample_token, [sample_token])"
  by code_simp

lemma sample_serve_new: "serve_new sample_config (DefaultDeps sample_registry) sample_server_io = Inr sample_server"
  using sample_token_read
  by (simp add: serve_new_def sample_config_def flag_defaults_def sample_server_io_def Let_def prepareDir_def
      bind_listeners_def has_prefix_def workspacePrefix_def DefaultDeps_def registry_reads sample_registry_def sample_server_def
      server_components_def uses_def Tool_def sample_linter_language serve_linters_def jc_ToolID_def gv_ToolID_def)

section \<open>A workspace and a bridge\<close>

definition sample_cached :: tree where
  "sample_cached = Map.empty([''c''] \<mapsto> DirN, [''c'', ''set''] \<mapsto> DirN, [''c'', ''set'', ''d''] \<mapsto> DirN,
     [''c'', ''set'', ''d'', ''a''] \<mapsto> FileN ''hi'', [''w''] \<mapsto> DirN)"

definition sample_walk :: "(string list \<times> walk_node) list" where
  "sample_walk = WalkDir sample_cached [''c'', ''set''] [[], [''d'', ''a''], [''d'']]"

lemma sample_cached_dom:
  "sample_cached p \<noteq> None \<longleftrightarrow>
     p \<in> {[''c''], [''c'', ''set''], [''c'', ''set'', ''d''], [''c'', ''set'', ''d'', ''a''], [''w'']}"
  by (auto simp: sample_cached_def)

lemma sample_cached_wf: "tree_wf sample_cached"
  unfolding tree_wf_def sample_cached_dom by (auto simp: sample_cached_def)

lemma sample_cached_keys:
  "sample_cached ([''c'', ''set''] @ r) \<noteq> None \<Longrightarrow> r \<in> set [[], [''d'', ''a''], [''d'']]"
  unfolding sample_cached_dom by auto

lemma sample_ws: "abs_dir ''/w''" "staging_ok (components ''/w'') sample_cached"
proof -
  show "abs_dir ''/w''" unfolding abs_dir_def by (rule exI [of _ "[''w'']"]) (simp add: plain_seg_def)
  have "components ''/w'' = [''w'']" by code_simp
  then show "staging_ok (components ''/w'') sample_cached" by (simp add: staging_ok_def sample_cached_def)
qed

definition dial_end :: dial_sys where
  "dial_end = dial_init\<lparr>dl_input := ''q'', dl_sent := ''q'', dl_stdin_end := True, dl_up := UpOver,
     dl_half := True, dl_reply := ''r'', dl_stdout := ''r'', dl_recv_end := True, dl_exit := Some exitOK\<rparr>"

lemma dial_run: "reaches dial_step dial_init dial_end"
proof -
  let ?a = "dial_init\<lparr>dl_stdin := ''q'', dl_input := ''q''\<rparr>"
  let ?b = "?a\<lparr>dl_stdin_end := True\<rparr>"
  let ?d = "?b\<lparr>dl_stdin := [], dl_sent := ''q''\<rparr>"
  let ?e = "?d\<lparr>dl_up := UpClose\<rparr>"
  let ?f = "?e\<lparr>dl_up := UpOver, dl_half := True\<rparr>"
  let ?g = "?f\<lparr>dl_recv := ''r'', dl_reply := ''r''\<rparr>"
  let ?h = "?g\<lparr>dl_recv := [], dl_stdout := ''r''\<rparr>"
  let ?i = "?h\<lparr>dl_recv_end := True\<rparr>"
  have 1: "dial_step dial_init ?a" using dl_type [of dial_init "''q''"] by (simp add: dial_init_def)
  have 2: "dial_step ?a ?b" by (rule dl_eof)
  have 3: "dial_step ?b ?d" using dl_up_copy [of ?b "''q''" "[]"] by (simp add: dial_init_def)
  have 4: "dial_step ?d ?e" by (rule dl_up_end) (simp_all add: dial_init_def)
  have 5: "dial_step ?e ?f" by (rule dl_close_write) (simp_all add: dial_init_def)
  have 6: "dial_step ?f ?g" using dl_serve [of ?f "''r''"] by (simp add: dial_init_def)
  have 7: "dial_step ?g ?h" using dl_down_copy [of ?g "''r''" "[]"] by (simp add: dial_init_def)
  have 8: "dial_step ?h ?i" by (rule dl_hangup)
  have 9: "dial_step ?i dial_end"
    using dl_down_end [of ?i] by (simp add: dial_init_def dial_end_def)
  have "reaches dial_step dial_init ?e" using 1 2 3 4 by (meson reaches_refl reaches_step)
  moreover have "reaches dial_step ?e dial_end" using 5 6 7 8 9 by (meson reaches_refl reaches_step)
  ultimately show ?thesis by (rule reaches_trans [rotated])
qed

end
