(* ===== verification/Javac_Slots.thy ===== *)
theory Javac_Slots
  imports Javac_Worker
begin

text \<open>
  \<open>internal/javacworker/worker.go\<close>: the slots \<open>sem\<close> and the table \<open>inFlight\<close> under concurrent
  calls of \<open>Check\<close> and the \<open>finish\<close> goroutines that outlive them.  Every channel operation on
  \<open>sem\<close> and every critical section of the mutex is a step.
\<close>

record worker_slots =
  wk_threads :: int             \<comment> \<open>capacity of \<open>sem\<close>\<close>
  wk_sem :: int                 \<comment> \<open>values in \<open>sem\<close>\<close>
  wk_nextReq :: nat
  wk_inFlight :: "(nat \<times> int) list"

definition worker_slots_new :: "worker_config \<Rightarrow> worker_slots" where
  "worker_slots_new c = \<lparr>wk_threads = wc_threads c, wk_sem = 0, wk_nextReq = 0, wk_inFlight = []\<rparr>"

definition sem_send :: "worker_slots \<Rightarrow> worker_slots option" where
  "sem_send w = (if wk_sem w \<ge> wk_threads w then None else Some (w\<lparr>wk_sem := wk_sem w + 1\<rparr>))"

definition sem_receive :: "worker_slots \<Rightarrow> worker_slots" where
  "sem_receive w = w\<lparr>wk_sem := wk_sem w - 1\<rparr>"

definition worker_track :: "int \<Rightarrow> worker_slots \<Rightarrow> nat \<times> worker_slots" where
  "worker_track now w =
     (let i = wk_nextReq w + 1
      in (i, w\<lparr>wk_nextReq := i,
               wk_inFlight := (i, now) # filter (\<lambda>h. fst h \<noteq> i) (wk_inFlight w)\<rparr>))"

definition worker_untrack :: "nat \<Rightarrow> worker_slots \<Rightarrow> worker_slots" where
  "worker_untrack i w = w\<lparr>wk_inFlight := filter (\<lambda>h. fst h \<noteq> i) (wk_inFlight w)\<rparr>"

definition LongestInFlight :: "int \<Rightarrow> worker_slots \<Rightarrow> int" where
  "LongestInFlight now w = longest_since now (wk_inFlight w)"

interpretation wsem: bounded_counter sem_send sem_receive wk_sem wk_threads
  by unfold_locales (auto simp: sem_send_def sem_receive_def split: if_splits)

definition track_fresh :: "worker_slots \<Rightarrow> bool" where
  "track_fresh w \<longleftrightarrow>
     (\<forall>h \<in> set (wk_inFlight w). fst h \<le> wk_nextReq w) \<and> distinct (map fst (wk_inFlight w))"

interpretation flights: hold_table worker_track worker_untrack wk_inFlight track_fresh LongestInFlight
proof unfold_locales
  show "wk_inFlight t = (i, now) # wk_inFlight s"
    if "track_fresh s" and "worker_track now s = (i, t)" for now s i t
    using that by (fastforce simp: worker_track_def Let_def track_fresh_def filter_id_conv)
qed (force simp: worker_track_def worker_untrack_def Let_def track_fresh_def LongestInFlight_def
    distinct_map_filter_fst)+

lemma track_fresh_sem [simp]: "track_fresh (w\<lparr>wk_sem := x\<rparr>) = track_fresh w"
  by (simp add: track_fresh_def)

section \<open>Concurrent calls\<close>

datatype call_pc =
    CkHeld              \<comment> \<open>holds a slot, in \<open>await\<close> or about to send\<close>
  | CkSent              \<comment> \<open>sent, not yet tracked\<close>
  | CkOnJvm nat         \<comment> \<open>tracked, the caller waits\<close>
  | CkLeft nat          \<comment> \<open>the caller was answered, \<open>finish\<close> waits\<close>
  | CkUntracked         \<comment> \<open>about to give the slot back\<close>
  | CkOver

record worker_sys =
  wy_slots :: worker_slots
  wy_calls :: "call_pc list"

inductive worker_step :: "worker_sys \<Rightarrow> worker_sys \<Rightarrow> bool" where
  ck_enter: "sem_send (wy_slots s) = Some w \<Longrightarrow>
    worker_step s (s\<lparr>wy_slots := w, wy_calls := wy_calls s @ [CkHeld]\<rparr>)"
| ck_fail: "i < length (wy_calls s) \<Longrightarrow> wy_calls s ! i = CkHeld \<Longrightarrow>
    worker_step s (s\<lparr>wy_calls := (wy_calls s)[i := CkUntracked]\<rparr>)"
| ck_send: "i < length (wy_calls s) \<Longrightarrow> wy_calls s ! i = CkHeld \<Longrightarrow>
    worker_step s (s\<lparr>wy_calls := (wy_calls s)[i := CkSent]\<rparr>)"
| ck_track: "i < length (wy_calls s) \<Longrightarrow> wy_calls s ! i = CkSent \<Longrightarrow>
    worker_track now (wy_slots s) = (k, w) \<Longrightarrow>
    worker_step s (s\<lparr>wy_slots := w, wy_calls := (wy_calls s)[i := CkOnJvm k]\<rparr>)"
| ck_settle: "i < length (wy_calls s) \<Longrightarrow> wy_calls s ! i = CkOnJvm k \<Longrightarrow>
    worker_step s (s\<lparr>wy_slots := worker_untrack k (wy_slots s), wy_calls := (wy_calls s)[i := CkUntracked]\<rparr>)"
| ck_leave: "i < length (wy_calls s) \<Longrightarrow> wy_calls s ! i = CkOnJvm k \<Longrightarrow>
    worker_step s (s\<lparr>wy_calls := (wy_calls s)[i := CkLeft k]\<rparr>)"
| ck_finish: "i < length (wy_calls s) \<Longrightarrow> wy_calls s ! i = CkLeft k \<Longrightarrow>
    worker_step s (s\<lparr>wy_slots := worker_untrack k (wy_slots s), wy_calls := (wy_calls s)[i := CkUntracked]\<rparr>)"
| ck_release: "i < length (wy_calls s) \<Longrightarrow> wy_calls s ! i = CkUntracked \<Longrightarrow>
    worker_step s (s\<lparr>wy_slots := sem_receive (wy_slots s), wy_calls := (wy_calls s)[i := CkOver]\<rparr>)"

definition worker_init :: "worker_config \<Rightarrow> worker_sys \<Rightarrow> bool" where
  "worker_init c s \<longleftrightarrow> 1 \<le> wc_threads c \<and> s = \<lparr>wy_slots = worker_slots_new c, wy_calls = []\<rparr>"

section \<open>The slots bound what is on the JVM\<close>

fun tracks :: "call_pc \<Rightarrow> nat option" where
  "tracks (CkOnJvm k) = Some k"
| "tracks (CkLeft k) = Some k"
| "tracks _ = None"

text \<open>Sent and not yet known to be answered.\<close>

definition on_jvm :: "call_pc \<Rightarrow> bool" where
  "on_jvm pc \<longleftrightarrow> pc = CkSent \<or> tracks pc \<noteq> None"

definition worker_inv :: "int \<Rightarrow> worker_sys \<Rightarrow> bool" where
  "worker_inv n s \<longleftrightarrow>
     wk_threads (wy_slots s) = n \<and> wk_sem (wy_slots s) \<le> n \<and>
     wk_sem (wy_slots s) = tally (\<lambda>pc. pc \<noteq> CkOver) (wy_calls s) \<and>
     track_fresh (wy_slots s) \<and>
     (\<forall>k. tally (\<lambda>h. fst h = k) (wk_inFlight (wy_slots s)) =
          tally (\<lambda>pc. tracks pc = Some k) (wy_calls s)) \<and>
     int (length (wk_inFlight (wy_slots s))) = tally (\<lambda>pc. tracks pc \<noteq> None) (wy_calls s)"

lemma worker_inv_start: "worker_init c s \<Longrightarrow> worker_inv (wc_threads c) s"
  by (auto simp: worker_init_def worker_inv_def worker_slots_new_def track_fresh_def)

lemma tally_distinct:
  "distinct (map fst t) \<Longrightarrow> tally (\<lambda>h. fst h = k) t = (if k \<in> fst ` set t then 1 else 0)"
  by (induction t) (auto simp: image_iff)

lemma tally_remove:
  "tally (\<lambda>h. fst h = j) (filter (\<lambda>h. fst h \<noteq> k) t) = (if j = k then 0 else tally (\<lambda>h. fst h = j) t)"
  by (induction t) auto

lemma length_remove:
  "int (length (filter (\<lambda>h. fst h \<noteq> k) t)) = int (length t) - tally (\<lambda>h. fst h = k) t"
  by (induction t) auto

text \<open>A tracked call leaves the table: \<open>wait\<close> and \<open>finish\<close> do the same.\<close>

lemma worker_inv_untrack:
  assumes inv: "worker_inv n s" and i: "i < length (wy_calls s)" and k: "tracks (wy_calls s ! i) = Some k"
  shows "worker_inv n (s\<lparr>wy_slots := worker_untrack k (wy_slots s), wy_calls := (wy_calls s)[i := CkUntracked]\<rparr>)"
proof -
  have "0 < tally (\<lambda>pc. tracks pc = Some k) (wy_calls s)"
    using tally_pos [OF i, of "\<lambda>pc. tracks pc = Some k"] k by simp
  then have one: "tally (\<lambda>h. fst h = k) (wk_inFlight (wy_slots s)) = 1"
    using inv tally_distinct [of "wk_inFlight (wy_slots s)" k]
    by (auto simp: worker_inv_def track_fresh_def split: if_splits)
  moreover have "wy_calls s ! i \<noteq> CkOver" using k by auto
  moreover have "track_fresh (worker_untrack k (wy_slots s))"
    using inv flights.untrack_fresh by (auto simp: worker_inv_def)
  ultimately show ?thesis
    using inv i k
    by (auto simp: worker_inv_def worker_untrack_def tally_update tally_remove length_remove)
qed

lemma worker_inv_track:
  assumes inv: "worker_inv n s" and i: "i < length (wy_calls s)" and c: "wy_calls s ! i = CkSent"
    and t: "worker_track now (wy_slots s) = (k, w)"
  shows "worker_inv n (s\<lparr>wy_slots := w, wy_calls := (wy_calls s)[i := CkOnJvm k]\<rparr>)"
proof -
  have fr: "track_fresh (wy_slots s)" using inv by (simp add: worker_inv_def)
  have "wk_inFlight w = (k, now) # wk_inFlight (wy_slots s)" using flights.track_table [OF fr t] .
  moreover have "track_fresh w" using flights.track_fresh [OF fr t] by simp
  moreover have "wk_threads w = wk_threads (wy_slots s)" "wk_sem w = wk_sem (wy_slots s)"
    using t by (auto simp: worker_track_def Let_def)
  ultimately show ?thesis
    using inv i c by (auto simp: worker_inv_def tally_update)
qed

lemma worker_inv_step:
  assumes inv: "worker_inv n s" and step: "worker_step s t"
  shows "worker_inv n t"
  using step
proof (cases rule: worker_step.cases)
  case (ck_enter w)
  then show ?thesis using inv by (auto simp: worker_inv_def sem_send_def split: if_splits)
next
  case (ck_track i now k w)
  then show ?thesis using worker_inv_track [OF inv] by simp
next
  case (ck_settle i k)
  then show ?thesis using worker_inv_untrack [OF inv] by simp
next
  case (ck_finish i k)
  then show ?thesis using worker_inv_untrack [OF inv] by simp
qed (use inv in \<open>auto simp: worker_inv_def sem_receive_def tally_update\<close>)

interpretation checks: transition_system "worker_init c" worker_step "worker_inv (wc_threads c)"
  by unfold_locales (auto intro: worker_inv_start worker_inv_step)

text \<open>At most \<open>Threads\<close> requests are on the JVM, those whose caller has gone included.\<close>

lemma worker_on_jvm:
  assumes "worker_inv n s"
  shows "tally on_jvm (wy_calls s) \<le> n" and "int (length (wk_inFlight (wy_slots s))) \<le> n"
proof -
  have "tally on_jvm (wy_calls s) \<le> tally (\<lambda>pc. pc \<noteq> CkOver) (wy_calls s)"
    "tally (\<lambda>pc. tracks pc \<noteq> None) (wy_calls s) \<le> tally (\<lambda>pc. pc \<noteq> CkOver) (wy_calls s)"
    by (rule tally_mono; auto simp: on_jvm_def)+
  with assms show "tally on_jvm (wy_calls s) \<le> n" "int (length (wk_inFlight (wy_slots s))) \<le> n"
    by (auto simp: worker_inv_def)
qed

section \<open>Every slot comes back\<close>

fun call_rank :: "call_pc \<Rightarrow> int" where
  "call_rank CkHeld = 5"
| "call_rank CkSent = 4"
| "call_rank (CkOnJvm k) = 3"
| "call_rank (CkLeft k) = 2"
| "call_rank CkUntracked = 1"
| "call_rank CkOver = 0"

lemma call_rank_nonneg [simp]: "0 \<le> call_rank pc"
  by (cases pc) auto

lemma call_rank_zero: "call_rank pc = 0 \<longleftrightarrow> pc = CkOver"
  by (cases pc) auto

definition rank :: "worker_sys \<Rightarrow> int" where
  "rank s = total call_rank (wy_calls s)"

text \<open>Only a new call raises the rank; every other step lowers it, and one can always be taken.\<close>

lemma worker_step_rank:
  "worker_step s t \<Longrightarrow> length (wy_calls t) = length (wy_calls s) \<Longrightarrow> rank t < rank s"
  by (cases rule: worker_step.cases) (auto simp: rank_def total_update)

lemma worker_step_live:
  assumes "0 < rank s"
  shows "\<exists>t. worker_step s t \<and> length (wy_calls t) = length (wy_calls s)"
proof -
  obtain i where i: "i < length (wy_calls s)" "0 < call_rank (wy_calls s ! i)"
    using assms total_pos [of call_rank "wy_calls s"] by (auto simp: rank_def in_set_conv_nth)
  show ?thesis
  proof (cases "wy_calls s ! i")
    case CkHeld
    with ck_fail [OF i(1)] show ?thesis by fastforce
  next
    case CkSent
    obtain k w where "worker_track 0 (wy_slots s) = (k, w)" by fastforce
    with CkSent ck_track [OF i(1)] show ?thesis by fastforce
  next
    case (CkOnJvm k)
    with ck_settle [OF i(1)] show ?thesis by fastforce
  next
    case (CkLeft k)
    with ck_finish [OF i(1)] show ?thesis by fastforce
  next
    case CkUntracked
    with ck_release [OF i(1)] show ?thesis by fastforce
  qed (use i in simp)
qed

lemma worker_drained:
  assumes "worker_inv n s" and "rank s = 0"
  shows "wk_sem (wy_slots s) = 0" and "wk_inFlight (wy_slots s) = []"
proof -
  have "\<not> (\<exists>pc \<in> set (wy_calls s). 0 < call_rank pc)"
    using assms(2) total_pos [of call_rank "wy_calls s"] by (simp add: rank_def)
  then have over: "pc = CkOver" if "pc \<in> set (wy_calls s)" for pc
    using that call_rank_nonneg [of pc] call_rank_zero [of pc] by (metis order_le_less)
  have "filter (\<lambda>pc. pc \<noteq> CkOver) (wy_calls s) = []" "filter (\<lambda>pc. tracks pc \<noteq> None) (wy_calls s) = []"
    using over by (fastforce simp: filter_empty_conv)+
  with assms(1) show "wk_sem (wy_slots s) = 0" "wk_inFlight (wy_slots s) = []"
    by (auto simp: worker_inv_def tally_def)
qed

lemma worker_drains:
  assumes "worker_inv n s"
  shows "\<exists>t. reaches worker_step s t \<and> wk_sem (wy_slots t) = 0 \<and> wk_inFlight (wy_slots t) = []"
  using assms
proof (induction "nat (rank s)" arbitrary: s rule: less_induct)
  case less
  show ?case
  proof (cases "0 < rank s")
    case True
    then obtain t where t: "worker_step s t" "length (wy_calls t) = length (wy_calls s)"
      using worker_step_live [OF True] by auto
    have "rank t < rank s" by (rule worker_step_rank [OF t])
    then have "nat (rank t) < nat (rank s)" using True by simp
    from less.hyps [OF this worker_inv_step [OF less.prems t(1)]]
    obtain u where u: "reaches worker_step t u" "wk_sem (wy_slots u) = 0" "wk_inFlight (wy_slots u) = []"
      by auto
    have "reaches worker_step s u"
      by (rule reaches_trans [OF u(1)], rule reaches_single, rule t(1))
    with u(2,3) show ?thesis by auto
  next
    case False
    then have "rank s = 0" using total_nonneg [of "wy_calls s" call_rank] by (simp add: rank_def)
    from worker_drained [OF less.prems this] show ?thesis by (intro exI conjI) (rule reaches_refl)
  qed
qed

text \<open>
  \<open>LongestInFlight\<close> exceeds \<open>d\<close> exactly when a request that has not been given up was sent more
  than \<open>d\<close> ago.
\<close>

lemma in_flight_overdue:
  "0 \<le> d \<Longrightarrow> d < LongestInFlight now w \<longleftrightarrow> (\<exists>h \<in> set (wk_inFlight w). d < now - snd h)"
  by (rule flights.overdue_iff)

end
