(* ===== verification/Javac_Supervisor.thy ===== *)
theory Javac_Supervisor
  imports Javac_Worker
begin

text \<open>
  \<open>internal/javacworker/worker.go\<close>: \<open>supervise\<close>, \<open>launch\<close> and \<open>Close\<close>.  The supervisor
  goroutine, the callers of \<open>Close\<close>, the callers waiting in \<open>await\<close> and the JVMs interleave;
  every critical section of the worker's mutex and every wait is a step.  A JVM is named by its
  generation.
\<close>

section \<open>State\<close>

datatype jvm_state =
    JvmNone             \<comment> \<open>not started\<close>
  | JvmAlive
  | JvmKilled           \<comment> \<open>killed, not reaped\<close>
  | JvmReaped           \<comment> \<open>its \<open>done\<close> channel is closed\<close>

datatype launch_error =
    SpawnFailed string
  | ExitedBefore string
  | ExitedDuring string
  | WarmupLint string
  | NoReport
  | NoReply int

datatype warm_event = WarmUnsent | WarmReply chan_result | WarmTimer

text \<open>The verdict of \<open>launch\<close> on a warm-up; \<open>None\<close> is a JVM that serves.\<close>

fun warm_verdict :: "string \<Rightarrow> int \<Rightarrow> warm_event \<Rightarrow> launch_error option" where
  "warm_verdict cause timeout WarmUnsent = Some (ExitedBefore cause)"
| "warm_verdict cause timeout (WarmReply Restarted) = Some (ExitedDuring cause)"
| "warm_verdict cause timeout (WarmReply (Replied (ReplyError e))) = Some (WarmupLint e)"
| "warm_verdict cause timeout (WarmReply (Replied (ReplyReport j))) =
     (if validReport j then None else Some NoReport)"
| "warm_verdict cause timeout WarmTimer = Some (NoReply timeout)"

datatype sup_pc =
    SvLaunch                        \<comment> \<open>about to call \<open>launch\<close>\<close>
  | SvSpawn nat
  | SvSpawned nat                   \<comment> \<open>started, not yet in \<open>starting\<close>\<close>
  | SvWarm nat
  | SvFailing nat launch_error      \<comment> \<open>\<open>fail\<close>: killed, waiting for its exit\<close>
  | SvFailed launch_error           \<comment> \<open>\<open>launch\<close> returned an error\<close>
  | SvBackoff
  | SvWarmed nat                    \<comment> \<open>\<open>launch\<close> returned the process\<close>
  | SvServe nat
  | SvClosing nat                   \<comment> \<open>killed by the supervisor, waiting for its exit\<close>
  | SvReturn                        \<comment> \<open>about to close \<open>done\<close>\<close>
  | SvOver

record sup_sys =
  sv_pc :: sup_pc
  sv_jvm :: "nat \<Rightarrow> jvm_state"
  sv_gen :: nat
  sv_current :: "nat option"
  sv_starting :: "nat option"
  sv_isClosed :: bool
  sv_failures :: nat
  sv_failErr :: "(nat \<times> launch_error) option"
  sv_quit :: bool               \<comment> \<open>the channels: closed or not\<close>
  sv_done :: bool
  sv_ready :: bool
  sv_failed :: bool
  sv_changed :: nat             \<comment> \<open>which \<open>changed\<close> channel is the present one\<close>
  sv_panic :: bool              \<comment> \<open>a closed channel was closed again\<close>
  sv_waiters :: "nat list"      \<comment> \<open>callers in \<open>await\<close>, by the channel they wait on\<close>
  sv_warm :: "nat set"          \<comment> \<open>generations whose warm-up was accepted\<close>

definition Start_supervise :: sup_sys where
  "Start_supervise = \<lparr>sv_pc = SvLaunch, sv_jvm = (\<lambda>_. JvmNone), sv_gen = 0, sv_current = None,
     sv_starting = None, sv_isClosed = False, sv_failures = 0, sv_failErr = None, sv_quit = False,
     sv_done = False, sv_ready = False, sv_failed = False, sv_changed = 0, sv_panic = False,
     sv_waiters = [], sv_warm = {}\<rparr>"

section \<open>Critical sections\<close>

definition kill_jvm :: "nat option \<Rightarrow> (nat \<Rightarrow> jvm_state) \<Rightarrow> nat \<Rightarrow> jvm_state" where
  "kill_jvm og jvm =
     (case og of
        None \<Rightarrow> jvm
      | Some g \<Rightarrow> (if jvm g = JvmAlive then jvm(g := JvmKilled) else jvm))"

definition broadcastLocked :: "sup_sys \<Rightarrow> sup_sys" where
  "broadcastLocked s = s\<lparr>sv_changed := sv_changed s + 1\<rparr>"

definition launch_enter :: "sup_sys \<Rightarrow> sup_sys" where
  "launch_enter s =
     (if sv_isClosed s then s\<lparr>sv_pc := SvReturn\<rparr>
      else s\<lparr>sv_gen := sv_gen s + 1, sv_pc := SvSpawn (sv_gen s + 1)\<rparr>)"

definition launch_register :: "nat \<Rightarrow> sup_sys \<Rightarrow> sup_sys" where
  "launch_register g s =
     (if sv_isClosed s then s\<lparr>sv_jvm := kill_jvm (Some g) (sv_jvm s), sv_pc := SvClosing g\<rparr>
      else s\<lparr>sv_starting := Some g, sv_pc := SvWarm g\<rparr>)"

definition launch_fail :: "launch_error \<Rightarrow> sup_sys \<Rightarrow> sup_sys" where
  "launch_fail e s =
     s\<lparr>sv_starting := None, sv_pc := (if sv_isClosed s then SvReturn else SvFailed e)\<rparr>"

definition start_failed :: "nat \<Rightarrow> launch_error \<Rightarrow> sup_sys \<Rightarrow> sup_sys" where
  "start_failed retries e s =
     (let s = s\<lparr>sv_failures := sv_failures s + 1\<rparr>
      in if sv_failures s > retries
         then broadcastLocked (s\<lparr>sv_failErr := Some (sv_failures s, e), sv_failed := True,
                sv_panic := (sv_panic s \<or> sv_failed s), sv_pc := SvReturn\<rparr>)
         else s\<lparr>sv_pc := SvBackoff\<rparr>)"

definition serve_enter :: "nat \<Rightarrow> sup_sys \<Rightarrow> sup_sys" where
  "serve_enter g s =
     (let s = s\<lparr>sv_failures := 0, sv_starting := None\<rparr>
      in if sv_isClosed s then s\<lparr>sv_jvm := kill_jvm (Some g) (sv_jvm s), sv_pc := SvClosing g\<rparr>
         else broadcastLocked (s\<lparr>sv_current := Some g, sv_ready := True, sv_pc := SvServe g\<rparr>))"

definition serve_leave :: "sup_sys \<Rightarrow> sup_sys" where
  "serve_leave s =
     broadcastLocked (s\<lparr>sv_current := None, sv_pc := (if sv_isClosed s then SvReturn else SvLaunch)\<rparr>)"

definition worker_Close :: "sup_sys \<Rightarrow> sup_sys" where
  "worker_Close s =
     (if sv_isClosed s then s
      else s\<lparr>sv_isClosed := True, sv_quit := True, sv_panic := (sv_panic s \<or> sv_quit s),
             sv_jvm := kill_jvm (sv_starting s) (kill_jvm (sv_current s) (sv_jvm s))\<rparr>)"

definition supervise_return :: "sup_sys \<Rightarrow> sup_sys" where
  "supervise_return s = s\<lparr>sv_done := True, sv_panic := (sv_panic s \<or> sv_done s), sv_pc := SvOver\<rparr>"

definition await_reads :: "sup_sys \<Rightarrow> await_view" where
  "await_reads s =
     \<lparr>av_closed = sv_isClosed s, av_failed = (sv_failErr s \<noteq> None),
      av_alive = (case sv_current s of None \<Rightarrow> False | Some g \<Rightarrow> sv_jvm s g = JvmAlive)\<rparr>"

section \<open>Steps\<close>

inductive sup_step :: "worker_config \<Rightarrow> sup_sys \<Rightarrow> sup_sys \<Rightarrow> bool" for c where
  sv_launch: "sv_pc s = SvLaunch \<Longrightarrow> sup_step c s (launch_enter s)"
| sv_spawn: "sv_pc s = SvSpawn g \<Longrightarrow>
    sup_step c s (s\<lparr>sv_jvm := (sv_jvm s)(g := JvmAlive), sv_pc := SvSpawned g\<rparr>)"
| sv_spawn_fails: "sv_pc s = SvSpawn g \<Longrightarrow> sup_step c s (s\<lparr>sv_pc := SvFailed (SpawnFailed m)\<rparr>)"
| sv_register: "sv_pc s = SvSpawned g \<Longrightarrow> sup_step c s (launch_register g s)"
| sv_warm_ok: "sv_pc s = SvWarm g \<Longrightarrow> warm_verdict cause (wc_warmupTimeout c) ev = None \<Longrightarrow>
    sup_step c s (s\<lparr>sv_pc := SvWarmed g, sv_warm := insert g (sv_warm s)\<rparr>)"
| sv_warm_fails: "sv_pc s = SvWarm g \<Longrightarrow> warm_verdict cause (wc_warmupTimeout c) ev = Some e \<Longrightarrow>
    sup_step c s (s\<lparr>sv_jvm := kill_jvm (Some g) (sv_jvm s), sv_pc := SvFailing g e\<rparr>)"
| sv_fail: "sv_pc s = SvFailing g e \<Longrightarrow> sv_jvm s g = JvmReaped \<Longrightarrow> sup_step c s (launch_fail e s)"
| sv_failed: "sv_pc s = SvFailed e \<Longrightarrow>
    sup_step c s (start_failed (length (the (wc_backoff c))) e s)"
| sv_retry: "sv_pc s = SvBackoff \<Longrightarrow> sup_step c s (s\<lparr>sv_pc := SvLaunch\<rparr>)"
| sv_give_up: "sv_pc s = SvBackoff \<Longrightarrow> sv_quit s \<Longrightarrow> sup_step c s (s\<lparr>sv_pc := SvReturn\<rparr>)"
| sv_serve: "sv_pc s = SvWarmed g \<Longrightarrow> sup_step c s (serve_enter g s)"
| sv_exited: "sv_pc s = SvServe g \<Longrightarrow> sv_jvm s g = JvmReaped \<Longrightarrow> sup_step c s (serve_leave s)"
| sv_stopped: "sv_pc s = SvClosing g \<Longrightarrow> sv_jvm s g = JvmReaped \<Longrightarrow>
    sup_step c s (s\<lparr>sv_pc := SvReturn\<rparr>)"
| sv_return: "sv_pc s = SvReturn \<Longrightarrow> sup_step c s (supervise_return s)"
| sv_close: "sup_step c s (worker_Close s)"
| sv_kill: "sv_jvm s g \<noteq> JvmNone \<Longrightarrow> sup_step c s (s\<lparr>sv_jvm := kill_jvm (Some g) (sv_jvm s)\<rparr>)"
| sv_exit: "sv_jvm s g = JvmAlive \<or> sv_jvm s g = JvmKilled \<Longrightarrow>
    sup_step c s (s\<lparr>sv_jvm := (sv_jvm s)(g := JvmReaped)\<rparr>)"
| sv_await: "await_loop [await_reads s] None = None \<Longrightarrow>
    sup_step c s (s\<lparr>sv_waiters := sv_waiters s @ [sv_changed s]\<rparr>)"
| sv_wake: "sv_waiters s = ws @ n # ws' \<Longrightarrow> n < sv_changed s \<Longrightarrow>
    sup_step c s (s\<lparr>sv_waiters := ws @ ws'\<rparr>)"
| sv_expire: "sv_waiters s = ws @ n # ws' \<Longrightarrow> sup_step c s (s\<lparr>sv_waiters := ws @ ws'\<rparr>)"

definition sup_start :: "sup_sys \<Rightarrow> bool" where
  "sup_start s \<longleftrightarrow> s = Start_supervise"

section \<open>Who owns a JVM\<close>

fun start_of :: "sup_pc \<Rightarrow> nat option" where
  "start_of (SvWarm g) = Some g"
| "start_of (SvFailing g e) = Some g"
| "start_of (SvWarmed g) = Some g"
| "start_of _ = None"

fun serve_of :: "sup_pc \<Rightarrow> nat option" where
  "serve_of (SvServe g) = Some g"
| "serve_of _ = None"

text \<open>The generation at hand, and what its JVM may be doing.\<close>

fun gen_of :: "sup_pc \<Rightarrow> nat option" where
  "gen_of (SvSpawn g) = Some g"
| "gen_of (SvSpawned g) = Some g"
| "gen_of (SvWarm g) = Some g"
| "gen_of (SvFailing g e) = Some g"
| "gen_of (SvWarmed g) = Some g"
| "gen_of (SvServe g) = Some g"
| "gen_of (SvClosing g) = Some g"
| "gen_of _ = None"

fun jvm_ok :: "sup_pc \<Rightarrow> bool \<Rightarrow> jvm_state \<Rightarrow> bool" where
  "jvm_ok (SvSpawn g) closed j = (j = JvmNone)"
| "jvm_ok (SvSpawned g) closed j = (j \<noteq> JvmNone)"
| "jvm_ok (SvFailing g e) closed j = (j \<noteq> JvmNone \<and> j \<noteq> JvmAlive)"
| "jvm_ok (SvClosing g) closed j = (j \<noteq> JvmNone \<and> j \<noteq> JvmAlive)"
| "jvm_ok pc closed j = (j \<noteq> JvmNone \<and> (closed \<longrightarrow> j \<noteq> JvmAlive))"

definition running :: "jvm_state \<Rightarrow> bool" where
  "running j \<longleftrightarrow> j = JvmAlive \<or> j = JvmKilled"

definition owner_at :: "sup_sys \<Rightarrow> nat \<Rightarrow> bool" where
  "owner_at s g \<longleftrightarrow>
     (if gen_of (sv_pc s) = Some g then sv_gen s = g \<and> jvm_ok (sv_pc s) (sv_isClosed s) (sv_jvm s g)
      else sv_jvm s g = JvmNone \<or> sv_jvm s g = JvmReaped \<and> g \<le> sv_gen s)"

definition owner_inv :: "sup_sys \<Rightarrow> bool" where
  "owner_inv s \<longleftrightarrow>
     sv_starting s = start_of (sv_pc s) \<and> sv_current s = serve_of (sv_pc s) \<and> (\<forall>g. owner_at s g)"

lemmas sup_ops = launch_enter_def launch_register_def launch_fail_def start_failed_def serve_enter_def
  serve_leave_def worker_Close_def supervise_return_def broadcastLocked_def Let_def

lemma kill_jvm_simps [simp]:
  "kill_jvm None jvm = jvm"
  "kill_jvm og jvm g = JvmNone \<longleftrightarrow> jvm g = JvmNone"
  "kill_jvm og jvm g = JvmReaped \<longleftrightarrow> jvm g = JvmReaped"
  "kill_jvm og jvm g = JvmAlive \<longleftrightarrow> jvm g = JvmAlive \<and> og \<noteq> Some g"
  "kill_jvm og jvm g = JvmKilled \<longleftrightarrow> jvm g = JvmKilled \<or> jvm g = JvmAlive \<and> og = Some g"
  by (auto simp: kill_jvm_def split: option.splits)

lemma owner_inv_start: "sup_start s \<Longrightarrow> owner_inv s"
  by (auto simp: sup_start_def Start_supervise_def owner_inv_def owner_at_def)

lemma jvm_ok_kill: "jvm_ok pc closed (jvm g) \<Longrightarrow> jvm_ok pc closed (kill_jvm og jvm g)"
  by (cases pc) auto

lemma owner_at_kill: "owner_at s h \<Longrightarrow> owner_at (s\<lparr>sv_jvm := kill_jvm og (sv_jvm s)\<rparr>) h"
  by (auto simp: owner_at_def jvm_ok_kill split: if_splits)

lemma owner_inv_close:
  assumes "owner_inv s"
  shows "owner_inv (worker_Close s)"
proof -
  have o: "owner_at s g" "sv_starting s = start_of (sv_pc s)" "sv_current s = serve_of (sv_pc s)" for g
    using assms by (auto simp: owner_inv_def)
  have "owner_at (worker_Close s) g" for g
    using o(1) [of g] by (cases "sv_pc s") (auto simp: owner_at_def worker_Close_def o(2,3))
  then show ?thesis by (auto simp: owner_inv_def worker_Close_def o(2,3))
qed

lemma jvm_ok_exit: "jvm_ok pc closed j \<Longrightarrow> j \<noteq> JvmNone \<Longrightarrow> jvm_ok pc closed JvmReaped"
  by (cases pc) auto

text \<open>A step of the supervisor keeps the invariant when it keeps it at every generation.\<close>

lemma owner_invI:
  assumes "\<And>g. owner_at s g \<Longrightarrow> owner_at t g"
    and "owner_inv s" and "sv_starting t = start_of (sv_pc t)" and "sv_current t = serve_of (sv_pc t)"
  shows "owner_inv t"
  using assms by (auto simp: owner_inv_def)

lemma owner_inv_step:
  assumes inv: "owner_inv s" and step: "sup_step c s t"
  shows "owner_inv t"
proof -
  have f: "sv_starting s = start_of (sv_pc s)" "sv_current s = serve_of (sv_pc s)"
    using inv by (auto simp: owner_inv_def)
  show ?thesis using step
  proof (cases rule: sup_step.cases)
    case sv_close
    then show ?thesis using owner_inv_close [OF inv] by simp
  next
    case (sv_kill g)
    then show ?thesis using inv owner_at_kill by (auto simp: owner_inv_def)
  next
    case (sv_exit g)
    then have "owner_at s h \<Longrightarrow> owner_at t h" for h
      by (auto simp: owner_at_def jvm_ok_exit split: if_splits)
    with inv sv_exit show ?thesis by (auto simp: owner_inv_def)
  qed ((rule owner_invI [OF _ inv]; use f in \<open>auto simp: owner_at_def sup_ops split: if_splits\<close>)+)
qed

text \<open>At most one JVM runs, and once \<open>Close\<close> has run its process is being killed.\<close>

lemma one_jvm:
  assumes "owner_inv s" and "running (sv_jvm s g)" and "running (sv_jvm s h)"
  shows "g = h"
proof -
  have "gen_of (sv_pc s) = Some i" if "running (sv_jvm s i)" for i
    using assms(1) that by (auto simp: owner_inv_def owner_at_def running_def split: if_splits dest: spec [of _ i])
  from this [OF assms(2)] this [OF assms(3)] show ?thesis by simp
qed

lemma over_no_jvm:
  assumes "owner_inv s" and "sv_pc s = SvOver \<or> sv_pc s = SvReturn"
  shows "\<not> running (sv_jvm s g)"
  using assms by (auto simp: owner_inv_def owner_at_def running_def dest: spec [of _ g])

lemma closed_kills:
  assumes "owner_inv s" and "sv_isClosed s" and "sv_jvm s g = JvmAlive"
  shows "sv_pc s = SvSpawned g"
proof -
  have "owner_at s g" using assms(1) by (simp add: owner_inv_def)
  with assms(2,3) have "gen_of (sv_pc s) = Some g" "jvm_ok (sv_pc s) True JvmAlive"
    by (auto simp: owner_at_def split: if_splits)
  then show ?thesis by (cases "sv_pc s") auto
qed

section \<open>Channels and failures\<close>

fun over :: "sup_pc \<Rightarrow> bool" where
  "over SvReturn = True"
| "over SvOver = True"
| "over _ = False"

definition chan_inv :: "worker_config \<Rightarrow> sup_sys \<Rightarrow> bool" where
  "chan_inv c s \<longleftrightarrow>
     \<not> sv_panic s \<and> sv_quit s = sv_isClosed s \<and> (sv_done s \<longleftrightarrow> sv_pc s = SvOver) \<and>
     (sv_failed s \<longleftrightarrow> sv_failErr s \<noteq> None) \<and>
     sv_failures s \<le> length (the (wc_backoff c)) + (if sv_failErr s = None then 0 else 1) \<and>
     (sv_failErr s \<noteq> None \<longrightarrow> over (sv_pc s)) \<and>
     (over (sv_pc s) \<longrightarrow> sv_isClosed s \<or> sv_failErr s \<noteq> None) \<and>
     (\<forall>g. sv_pc s = SvClosing g \<longrightarrow> sv_isClosed s) \<and>
     (\<forall>n e. sv_failErr s = Some (n, e) \<longrightarrow> n = length (the (wc_backoff c)) + 1)"

lemma chan_inv_start: "sup_start s \<Longrightarrow> chan_inv c s"
  by (auto simp: sup_start_def Start_supervise_def chan_inv_def)

lemma chan_inv_step: "chan_inv c s \<Longrightarrow> sup_step c s t \<Longrightarrow> chan_inv c t"
  by (cases rule: sup_step.cases, assumption) (auto simp: chan_inv_def sup_ops split: if_splits)

section \<open>Serving only after the warm-up\<close>

fun warm_of :: "sup_pc \<Rightarrow> nat option" where
  "warm_of (SvWarmed g) = Some g"
| "warm_of (SvServe g) = Some g"
| "warm_of _ = None"

definition warm_inv :: "sup_sys \<Rightarrow> bool" where
  "warm_inv s \<longleftrightarrow>
     (\<forall>g. warm_of (sv_pc s) = Some g \<longrightarrow> g \<in> sv_warm s) \<and> (sv_ready s \<longrightarrow> sv_warm s \<noteq> {}) \<and>
     (\<forall>n \<in> set (sv_waiters s). n \<le> sv_changed s)"

lemma warm_inv_start: "sup_start s \<Longrightarrow> warm_inv s"
  by (auto simp: sup_start_def Start_supervise_def warm_inv_def)

lemma warm_inv_step: "warm_inv s \<Longrightarrow> sup_step c s t \<Longrightarrow> warm_inv t"
  by (cases rule: sup_step.cases, assumption) (auto simp: warm_inv_def sup_ops split: if_splits)

lemma current_warm:
  assumes "owner_inv s" and "warm_inv s" and "sv_current s = Some g"
  shows "g \<in> sv_warm s"
proof -
  have "serve_of (sv_pc s) = Some g" using assms(1,3) by (simp add: owner_inv_def)
  then have "warm_of (sv_pc s) = Some g" by (cases "sv_pc s") simp_all
  with assms(2) show ?thesis by (simp add: warm_inv_def)
qed

definition sup_inv :: "worker_config \<Rightarrow> sup_sys \<Rightarrow> bool" where
  "sup_inv c s \<longleftrightarrow> owner_inv s \<and> chan_inv c s \<and> warm_inv s"

interpretation sup: transition_system sup_start "sup_step c" "sup_inv c"
  by unfold_locales
    (auto simp: sup_inv_def intro: owner_inv_start chan_inv_start warm_inv_start
      owner_inv_step chan_inv_step warm_inv_step)

section \<open>Close ends the supervisor\<close>

fun sup_rank :: "sup_pc \<Rightarrow> nat" where
  "sup_rank (SvSpawn g) = 9"
| "sup_rank (SvSpawned g) = 8"
| "sup_rank (SvWarm g) = 7"
| "sup_rank (SvWarmed g) = 6"
| "sup_rank (SvFailing g e) = 6"
| "sup_rank (SvFailed e) = 5"
| "sup_rank SvBackoff = 4"
| "sup_rank (SvServe g) = 4"
| "sup_rank SvLaunch = 3"
| "sup_rank (SvClosing g) = 2"
| "sup_rank SvReturn = 1"
| "sup_rank SvOver = 0"

text \<open>After \<open>Close\<close> no step raises the supervisor's rank, and the worker stays closed.\<close>

lemma closed_step:
  "sup_step c s t \<Longrightarrow> sv_isClosed s \<Longrightarrow> sv_isClosed t \<and> sup_rank (sv_pc t) \<le> sup_rank (sv_pc s)"
  by (cases rule: sup_step.cases, assumption) (auto simp: sup_ops split: if_splits)

text \<open>The supervisor moves as soon as the JVM it waits for has exited.\<close>

lemma closed_moves:
  assumes "sv_isClosed s" and "sv_pc s \<noteq> SvOver"
    and w: "\<And>g. gen_of (sv_pc s) = Some g \<Longrightarrow> sv_pc s \<noteq> SvSpawn g \<Longrightarrow> sv_jvm s g = JvmReaped"
  shows "\<exists>t. sup_step c s t \<and> sup_rank (sv_pc t) < sup_rank (sv_pc s)"
proof (cases "sv_pc s")
  case SvLaunch
  with sv_launch [of s c] assms(1) show ?thesis by (fastforce simp: sup_ops)
next
  case (SvSpawn g)
  with sv_spawn [of s g c] show ?thesis by fastforce
next
  case (SvSpawned g)
  with sv_register [of s g c] assms(1) show ?thesis by (fastforce simp: sup_ops)
next
  case (SvWarm g)
  with sv_warm_fails [of s g "[]" c WarmTimer] show ?thesis by fastforce
next
  case (SvFailing g e)
  with sv_fail [of s g e c] w [of g] assms(1) show ?thesis by (fastforce simp: sup_ops)
next
  case (SvFailed e)
  with sv_failed [of s e c] show ?thesis by (fastforce simp: sup_ops split: if_splits)
next
  case SvBackoff
  with sv_retry [of s c] show ?thesis by fastforce
next
  case (SvWarmed g)
  with sv_serve [of s g c] assms(1) show ?thesis by (fastforce simp: sup_ops)
next
  case (SvServe g)
  with sv_exited [of s g c] w [of g] assms(1) show ?thesis by (fastforce simp: sup_ops)
next
  case (SvClosing g)
  with sv_stopped [of s g c] w [of g] show ?thesis by fastforce
next
  case SvReturn
  with sv_return [of s c] show ?thesis by (fastforce simp: sup_ops)
qed (use assms in simp)

text \<open>The exit of the JVM at hand lets the supervisor go on.\<close>

lemma exit_enables:
  assumes "owner_inv s"
  obtains u where "u = s \<or> sup_step c s u" and "sv_pc u = sv_pc s" and "sv_isClosed u = sv_isClosed s"
    and "\<And>g. gen_of (sv_pc u) = Some g \<Longrightarrow> sv_pc u \<noteq> SvSpawn g \<Longrightarrow> sv_jvm u g = JvmReaped"
proof (cases "\<exists>g. gen_of (sv_pc s) = Some g \<and> running (sv_jvm s g)")
  case True
  then obtain g where g: "gen_of (sv_pc s) = Some g" "running (sv_jvm s g)" by auto
  then have "sup_step c s (s\<lparr>sv_jvm := (sv_jvm s)(g := JvmReaped)\<rparr>)"
    by (intro sv_exit) (simp add: running_def)
  with that [of "s\<lparr>sv_jvm := (sv_jvm s)(g := JvmReaped)\<rparr>"] g show ?thesis by simp
next
  case False
  have "sv_jvm s g = JvmReaped" if g: "gen_of (sv_pc s) = Some g" "sv_pc s \<noteq> SvSpawn g" for g
  proof -
    have "owner_at s g" using assms by (simp add: owner_inv_def)
    with g have "sv_jvm s g \<noteq> JvmNone" by (cases "sv_pc s") (auto simp: owner_at_def)
    with False g(1) show ?thesis by (cases "sv_jvm s g") (auto simp: running_def)
  qed
  with that [of s] show ?thesis by simp
qed

lemma close_ends:
  assumes "owner_inv s" and "sv_isClosed s"
  shows "\<exists>t. reaches (sup_step c) s t \<and> sv_pc t = SvOver"
  using assms
proof (induction "sup_rank (sv_pc s)" arbitrary: s rule: less_induct)
  case less
  show ?case
  proof (cases "sv_pc s = SvOver")
    case True
    then show ?thesis by (intro exI conjI) (rule reaches_refl)
  next
    case False
    obtain u where u: "u = s \<or> sup_step c s u" "sv_pc u = sv_pc s" "sv_isClosed u = sv_isClosed s"
      "\<And>g. gen_of (sv_pc u) = Some g \<Longrightarrow> sv_pc u \<noteq> SvSpawn g \<Longrightarrow> sv_jvm u g = JvmReaped"
      using exit_enables [OF less.prems(1)] by metis
    then obtain v where v: "sup_step c u v" "sup_rank (sv_pc v) < sup_rank (sv_pc u)"
      using closed_moves [of u c] False less.prems(2) by auto
    have "owner_inv u" using u(1) owner_inv_step less.prems(1) by blast
    then have "owner_inv v" using owner_inv_step v(1) by blast
    moreover have "sv_isClosed v" using closed_step [OF v(1)] u(3) less.prems(2) by simp
    moreover have "sup_rank (sv_pc v) < sup_rank (sv_pc s)" using v(2) u(2) by simp
    ultimately obtain t where t: "reaches (sup_step c) v t" "sv_pc t = SvOver"
      using less.hyps by blast
    have "reaches (sup_step c) s u" using u(1) by (auto intro: reaches_refl reaches_single)
    then have "reaches (sup_step c) s v" using v(1) by (rule reaches_step)
    with t(1) have "reaches (sup_step c) s t" by (rule reaches_trans)
    with t(2) show ?thesis by auto
  qed
qed

section \<open>Waiting for a JVM\<close>

text \<open>
  Every change of what \<open>await\<close> looks for replaces \<open>changed\<close>, so a caller that read the old one
  wakes up; \<open>closed\<close> alone does not.
\<close>

lemma change_wakes:
  "sup_step c s t \<Longrightarrow> owner_inv s \<Longrightarrow> sv_current t \<noteq> sv_current s \<or> sv_failErr t \<noteq> sv_failErr s \<Longrightarrow>
     sv_changed s < sv_changed t"
  by (cases rule: sup_step.cases, assumption) (auto simp: sup_ops split: if_splits)

lemma over_stays:
  "sup_step c s t \<Longrightarrow> sv_pc s = SvOver \<Longrightarrow> sv_pc t = SvOver \<and> sv_changed t = sv_changed s"
  by (cases rule: sup_step.cases, assumption) (auto simp: sup_ops split: if_splits)

lemma over_stays_reaches:
  "reaches (sup_step c) s t \<Longrightarrow> sv_pc s = SvOver \<Longrightarrow> sv_pc t = SvOver \<and> sv_changed t = sv_changed s"
  by (induction rule: reaches.induct) (auto dest: over_stays)

text \<open>
  A caller that waits in \<open>await\<close> while the JVM is starting is not woken by \<open>Close\<close>: the
  supervisor ends without another broadcast, and only the caller's context ends its wait.
\<close>

lemma close_forgets_waiter:
  "\<exists>s. reaches (sup_step c) Start_supervise s \<and> sv_isClosed s \<and> sv_done s \<and> sv_waiters s = [sv_changed s] \<and>
       (\<forall>t. reaches (sup_step c) s t \<longrightarrow> sv_changed t = sv_changed s)"
proof -
  let ?s = Start_supervise
  let ?a = "?s\<lparr>sv_waiters := [0]\<rparr>"
  let ?b = "?a\<lparr>sv_isClosed := True, sv_quit := True\<rparr>"
  let ?d = "?b\<lparr>sv_pc := SvReturn\<rparr>"
  let ?e = "?d\<lparr>sv_done := True, sv_pc := SvOver\<rparr>"
  have 1: "sup_step c ?s ?a"
    using sv_await [of ?s c] by (simp add: Start_supervise_def await_reads_def)
  have 2: "sup_step c ?a ?b"
    using sv_close [of c ?a] by (simp add: Start_supervise_def worker_Close_def)
  have 3: "sup_step c ?b ?d"
    using sv_launch [of ?b c] by (simp add: Start_supervise_def launch_enter_def)
  have 4: "sup_step c ?d ?e"
    using sv_return [of ?d c] by (simp add: Start_supervise_def supervise_return_def)
  have "reaches (sup_step c) ?s ?e" using 1 2 3 4 by (meson reaches_refl reaches_step)
  moreover have "sv_changed t = sv_changed ?e" if "reaches (sup_step c) ?e t" for t
    using over_stays_reaches [OF that] by simp
  ultimately show ?thesis by (intro exI [of _ ?e]) (simp add: Start_supervise_def)
qed

text \<open>The worker is marked failed exactly by the start that follows the last backoff.\<close>

lemma failed_after:
  assumes "chan_inv c s" and "sv_pc s = SvFailed e"
  shows "sv_failErr (start_failed (length (the (wc_backoff c))) e s) =
    (if sv_failures s = length (the (wc_backoff c)) then Some (length (the (wc_backoff c)) + 1, e) else None)"
proof -
  have "sv_failErr s = None" using assms by (auto simp: chan_inv_def)
  moreover from this assms(1) have "sv_failures s \<le> length (the (wc_backoff c))" by (simp add: chan_inv_def)
  ultimately show ?thesis by (auto simp: start_failed_def broadcastLocked_def Let_def)
qed

end
