(* ===== verification/Sample_Javac.thy ===== *)
theory Sample_Javac
  imports Javac_Slots Javac_Supervisor
begin

text \<open>
  Concrete schedules of the resident worker: a JVM that dies with a request pending, a caller
  that leaves its request on the JVM, a supervisor that serves and is closed, and one whose only
  start fails.
\<close>

section \<open>A process\<close>

definition px0 :: proc_sys where
  "px0 = \<lparr>px_proc = spawn_process, px_results = (\<lambda>_. []), px_reader = RdLoop, px_late = False\<rparr>"

definition px_dead :: proc_sys where
  "px_dead = \<lparr>px_proc = \<lparr>pr_nextID = 1, pr_pending = [], pr_dead = True, pr_reaped = True,
       pr_reason = [], pr_exitErr = Some ''exit status 0''\<rparr>,
     px_results = (\<lambda>_. [])(1 := [Restarted]), px_reader = RdDone, px_late = False\<rparr>"

lemma px0_start: "proc_start px0"
  by (simp add: proc_start_def px0_def)

lemma px_run: "reaches proc_step px0 px_dead"
proof -
  let ?p1 = "spawn_process\<lparr>pr_nextID := 1, pr_pending := [1]\<rparr>"
  let ?s1 = "px0\<lparr>px_proc := ?p1\<rparr>"
  let ?p2 = "snd (proc_reap None ?p1)"
  let ?s2 = "px0\<lparr>px_proc := ?p2, px_reader := RdFail [1]\<rparr>"
  have 1: "proc_step px0 ?s1"
    using px_send [of px0 1 ?p1] by (simp add: px0_def proc_send_def spawn_process_def)
  have 2: "proc_step ?s1 (?s1\<lparr>px_reader := RdExit\<rparr>)"
    using px_eof [of ?s1] by (simp add: px0_def)
  have 3: "proc_step (?s1\<lparr>px_reader := RdExit\<rparr>) (?s1\<lparr>px_reader := RdWaited None\<rparr>)"
    using px_wait [of "?s1\<lparr>px_reader := RdExit\<rparr>" None] by simp
  have 4: "proc_step (?s1\<lparr>px_reader := RdWaited None\<rparr>) ?s2"
    using px_reap [of "?s1\<lparr>px_reader := RdWaited None\<rparr>" None "[1]" ?p2 "[1]"]
    by (simp add: proc_reap_def)
  have 5: "proc_step ?s2 (put_result 1 Restarted (?s2\<lparr>px_reader := RdFail []\<rparr>))"
    using px_fail [of ?s2 1 "[]"] by (simp add: px0_def)
  have 6: "proc_step (put_result 1 Restarted (?s2\<lparr>px_reader := RdFail []\<rparr>)) px_dead"
    using px_close [of "put_result 1 Restarted (?s2\<lparr>px_reader := RdFail []\<rparr>)"]
    by (simp add: put_result_def px0_def px_dead_def proc_reap_def spawn_process_def)
  show ?thesis using 1 2 3 4 5 6 by (meson reaches_refl reaches_step)
qed

section \<open>Slots\<close>

definition sample_worker :: worker_config where
  "sample_worker = \<lparr>wc_threads = 1, wc_argv = None, wc_env = None, wc_dir = [], wc_warmup = None,
     wc_warmupTimeout = 0, wc_backoff = Some [], wc_runBudget = 0, wc_maxReplyBytes = 0\<rparr>"

definition wy0 :: worker_sys where
  "wy0 = \<lparr>wy_slots = worker_slots_new sample_worker, wy_calls = []\<rparr>"

definition wy_left :: worker_sys where
  "wy_left = \<lparr>wy_slots = \<lparr>wk_threads = 1, wk_sem = 1, wk_nextReq = 1, wk_inFlight = [(1, 5)]\<rparr>,
     wy_calls = [CkLeft 1]\<rparr>"

lemma wy0_init: "worker_init sample_worker wy0"
  by (simp add: worker_init_def wy0_def sample_worker_def)

lemma wy_run: "reaches worker_step wy0 wy_left"
proof -
  let ?w = "\<lparr>wk_threads = 1, wk_sem = 1, wk_nextReq = 0, wk_inFlight = []\<rparr>"
  let ?s = "\<lambda>w pc. \<lparr>wy_slots = w, wy_calls = [pc]\<rparr>"
  have 1: "worker_step wy0 (?s ?w CkHeld)"
    using ck_enter [of wy0 ?w] by (simp add: wy0_def worker_slots_new_def sample_worker_def sem_send_def)
  have 2: "worker_step (?s ?w CkHeld) (?s ?w CkSent)"
    using ck_send [of 0 "?s ?w CkHeld"] by simp
  have 3: "worker_step (?s ?w CkSent) (?s (wy_slots wy_left) (CkOnJvm 1))"
    using ck_track [of 0 "?s ?w CkSent" 5 1 "wy_slots wy_left"]
    by (simp add: worker_track_def wy_left_def)
  have 4: "worker_step (?s (wy_slots wy_left) (CkOnJvm 1)) wy_left"
    using ck_leave [of 0 "?s (wy_slots wy_left) (CkOnJvm 1)" 1] by (simp add: wy_left_def)
  show ?thesis using 1 2 3 4 by (meson reaches_refl reaches_step)
qed

section \<open>The supervisor\<close>

definition sv_serving :: sup_sys where
  "sv_serving = Start_supervise\<lparr>sv_pc := SvServe 1, sv_jvm := (\<lambda>_. JvmNone)(1 := JvmAlive), sv_gen := 1,
     sv_current := Some 1, sv_ready := True, sv_changed := 1, sv_warm := {1}\<rparr>"

definition sv_closing :: sup_sys where
  "sv_closing = sv_serving\<lparr>sv_isClosed := True, sv_quit := True,
     sv_jvm := (\<lambda>_. JvmNone)(1 := JvmKilled)\<rparr>"

definition sample_warm :: warm_event where
  "sample_warm = WarmReply (Replied (ReplyReport ''{\"findings\":[]}''))"

lemma sample_warm_ok: "warm_verdict cause timeout sample_warm = None"
proof -
  have "validReport ''{\"findings\":[]}''" by code_simp
  then show ?thesis by (simp add: sample_warm_def)
qed

lemma sup_start_start: "sup_start Start_supervise"
  by (simp add: sup_start_def)

lemma sv_run_serving: "reaches (sup_step c) Start_supervise sv_serving"
proof -
  let ?a = "Start_supervise\<lparr>sv_gen := 1, sv_pc := SvSpawn 1\<rparr>"
  let ?b = "?a\<lparr>sv_jvm := (\<lambda>_. JvmNone)(1 := JvmAlive), sv_pc := SvSpawned 1\<rparr>"
  let ?d = "?b\<lparr>sv_starting := Some 1, sv_pc := SvWarm 1\<rparr>"
  let ?e = "?d\<lparr>sv_pc := SvWarmed 1, sv_warm := {1}\<rparr>"
  have 1: "sup_step c Start_supervise ?a"
    using sv_launch [of Start_supervise c] by (simp add: Start_supervise_def launch_enter_def)
  have 2: "sup_step c ?a ?b"
    using sv_spawn [of ?a 1 c] by (simp add: Start_supervise_def)
  have 3: "sup_step c ?b ?d"
    using sv_register [of ?b 1 c] by (simp add: Start_supervise_def launch_register_def)
  have 4: "sup_step c ?d ?e"
    using sv_warm_ok [of ?d 1 "[]" c sample_warm] sample_warm_ok by (simp add: Start_supervise_def)
  have 5: "sup_step c ?e sv_serving"
    using sv_serve [of ?e 1 c]
    by (simp add: Start_supervise_def serve_enter_def broadcastLocked_def Let_def sv_serving_def)
  show ?thesis using 1 2 3 4 5 by (meson reaches_refl reaches_step)
qed

lemma sv_run_closing: "reaches (sup_step c) Start_supervise sv_closing"
proof -
  have "sup_step c sv_serving sv_closing"
    using sv_close [of c sv_serving]
    by (simp add: worker_Close_def sv_serving_def sv_closing_def Start_supervise_def kill_jvm_def)
  with sv_run_serving show ?thesis by (rule reaches_step)
qed

definition sv_gaveup :: sup_sys where
  "sv_gaveup = Start_supervise\<lparr>sv_pc := SvReturn, sv_gen := 1, sv_failures := 1,
     sv_failErr := Some (1, SpawnFailed ''no java''), sv_failed := True, sv_changed := 1\<rparr>"

lemma sv_run_gaveup: "reaches (sup_step sample_worker) Start_supervise sv_gaveup"
proof -
  let ?a = "Start_supervise\<lparr>sv_gen := 1, sv_pc := SvSpawn 1\<rparr>"
  let ?b = "?a\<lparr>sv_pc := SvFailed (SpawnFailed ''no java'')\<rparr>"
  have 1: "sup_step sample_worker Start_supervise ?a"
    using sv_launch [of Start_supervise sample_worker] by (simp add: Start_supervise_def launch_enter_def)
  have 2: "sup_step sample_worker ?a ?b"
    using sv_spawn_fails [of ?a 1 sample_worker "''no java''"] by simp
  have 3: "sup_step sample_worker ?b sv_gaveup"
    using sv_failed [of ?b "SpawnFailed ''no java''" sample_worker]
    by (simp add: start_failed_def broadcastLocked_def Let_def sample_worker_def sv_gaveup_def Start_supervise_def)
  show ?thesis using 1 2 3 by (meson reaches_refl reaches_step)
qed

end
