(* ===== verification/Serve_System.thy ===== *)
theory Serve_System
  imports Serve_Lifecycle End_To_End
begin

text \<open>
  The server as it is put together: the flags, the manifest and the token file that \<open>New\<close> reads, and
  what its request handlers then promise.  \<open>served\<close> is what a constructed server hands to them.
\<close>

section \<open>From New to the handlers\<close>

text \<open>\<open>checker\<close> is whether \<open>Run\<close> has started the resident worker.\<close>

definition served :: "config \<Rightarrow> deps \<Rightarrow> bool \<Rightarrow> server \<Rightarrow> serve_conf" where
  "served cfg d checker s =
     \<lparr>sc_lint = \<lparr>ls_linters = sr_linters s, ls_toolOf = dp_toolOf d, ls_redacts = sr_redacts s, ls_checker = checker\<rparr>,
      sc_token = sr_token s, sc_manifest = sr_manifest s, sc_deadline = c_deadline cfg,
      sc_cacheMax = c_cache_max cfg\<rparr>"

lemma serve_new_fields:
  assumes "serve_new cfg d io = Inr s"
  shows "sr_linters s = serve_linters (dp_linters d)"
    and "sr_manifest s = buildManifest (dp_version d) (dp_linters d) cfg"
    and "c_token_file cfg \<noteq> [] \<Longrightarrow> 32 \<le> length (sr_token s) \<and> sr_token s \<in> set (sr_redacts s)"
  using assms readToken_Inr [of "si_token io"]
  by (auto simp: serve_new_def minTokenBytes_def split: sum.splits if_splits option.splits prod.splits)

lemma serve_linters_set: "ran (serve_linters ls) \<subseteq> set ls"
proof -
  have "ran (foldl (\<lambda>m l. m(l_language l \<mapsto> l)) m ls) \<subseteq> ran m \<union> set ls" for m
  proof (induction ls arbitrary: m)
    case (Cons l ls)
    have "ran (m(l_language l \<mapsto> l)) \<subseteq> insert l (ran m)" by (auto simp: ran_def split: if_splits)
    moreover have "ran (foldl (\<lambda>m l. m(l_language l \<mapsto> l)) (m(l_language l \<mapsto> l)) ls) \<subseteq>
        ran (m(l_language l \<mapsto> l)) \<union> set ls" by (rule Cons.IH)
    ultimately show ?case by (simp only: foldl.simps list.set) blast
  qed simp
  from this [of Map.empty] show ?thesis by (simp add: serve_linters_def)
qed

text \<open>Every linter of a server built from the manifest's registry meets the drivers' contract.\<close>

lemma served_drivers:
  assumes "parse_manifest y tc data = Inr reg" and "serve_new cfg (DefaultDeps reg) io = Inr s"
    and "l \<in> ran (ls_linters (sc_lint (served cfg (DefaultDeps reg) checker s)))"
  shows "lint_driver l severity_ok"
proof -
  have "l \<in> set (rg_linters reg)"
    using assms(3) serve_new_fields(1) [OF assms(2)] serve_linters_set
    by (auto simp: served_def DefaultDeps_def registry_reads)
  then show ?thesis using parse_manifest_Inr [OF assms(1)] by blast
qed

section \<open>The token of a started server\<close>

lemma served_hides_token:
  assumes "serve_new cfg d io = Inr s" and "c_token_file cfg \<noteq> []" and "bracket_free (sr_token s)"
    and "handler (served cfg d checker s) tcp hio rq st = Some (w, st')"
  shows "\<not> sublist (sr_token s) (wr_body w)"
proof (rule handler_redacted [OF assms(4)])
  show "sr_token s \<in> set (redacts_of (served cfg d checker s))"
    using serve_new_fields(3) [OF assms(1,2)] by (simp add: redacts_of_def served_def)
  show "length redacted_mark < length (sr_token s)"
    using serve_new_fields(3) [OF assms(1,2)] by (simp add: redacted_mark_def)
qed (fact assms(3))

section \<open>The manifest of a started server\<close>

text \<open>Its languages are those of the registry, each with the command of the document.\<close>

lemma served_manifest:
  assumes "serve_new cfg d io = Inr s"
    and "list_all (\<lambda>l. utf8_valid (l_language l)) (dp_linters d)" and "distinct (map l_language (dp_linters d))"
    and "l \<in> set (dp_linters d)"
  shows "advertised (sr_manifest s) (l_language l) = Some [BinPath, ''lint'', l_language l]"
proof (rule manifest_document [OF assms(2-4)])
  let ?extra = "[(''serve'', JObj
          [(''protocol'', int_json Protocol), (''workers'', int_json (c_workers cfg)),
           (''queue'', int_json (c_queue cfg)), (''deadline_ms'', int_json (c_deadline cfg div 1000000)),
           (''max_code_bytes'', int_json (int MaxCodeBytes)), (''max_findings'', int_json MaxFindings),
           (''cache_max_bytes'', int_json (c_cache_max cfg))])]"
  have "json_wf maxNestingDepth (JObj (manifest_members (dp_version d) (dp_linters d) @ ?extra))"
    by (rule manifest_members_wf) (simp add: maxNestingDepth_def)
  from json_parse_marshal(1) [OF this] serve_new_fields(2) [OF assms(1)]
  show "json_parse (sr_manifest s) = Some (json_clean (JObj (manifest_members (dp_version d) (dp_linters d) @ ?extra)))"
    by (simp add: buildManifest_def)
qed

section \<open>The registry that every server has\<close>

lemma key_chars: "re_matches keyRE k \<Longrightarrow> list_all (\<lambda>c. (of_char c :: nat) < 128) k"
  by (auto simp: re_matches_iff keyRE_def list_all_iff lower_def digit_def)

lemma ascii_valid: "list_all (\<lambda>c. (of_char c :: nat) < 128) s \<Longrightarrow> utf8_valid s"
  unfolding utf8_valid_def by (induction s) (simp_all add: rune_size_def byte_in_def)

lemma registry_languages:
  assumes "parse_manifest y tc data = Inr reg"
  shows "distinct (map l_language (All_languages reg))"
    and "list_all (\<lambda>l. utf8_valid (l_language l)) (All_languages reg)"
proof -
  from assms obtain m where m: "y_document y data = Some m"
      "map l_language (rg_linters reg) = sorted_keys (m_languages m)"
    using parse_manifest_Inr by blast
  show "distinct (map l_language (All_languages reg))" using m(2) by (simp add: registry_reads)
  have "is_ok (parse_manifest y tc data)" using assms by (simp add: is_ok_def)
  then have "\<forall>k \<in> set (map fst (m_languages m)). re_matches keyRE k"
    using m(1) unfolding parse_manifest_ok_iff by (auto simp: manifest_ok_def stanza_ok_def)
  then have "\<forall>k \<in> set (map l_language (rg_linters reg)). utf8_valid k"
    unfolding m(2) using key_chars ascii_valid by auto
  then show "list_all (\<lambda>l. utf8_valid (l_language l)) (All_languages reg)"
    by (simp add: registry_reads list_all_iff)
qed

section \<open>Listeners\<close>

text \<open>What \<open>Run\<close> serves: each listener with its \<open>http.Server\<close>, durations in nanoseconds.\<close>

record http_server =
  hs_tcp :: bool                       \<comment> \<open>the handler is \<open>s.handler(tcp)\<close>\<close>
  hs_ReadHeaderTimeout :: int
  hs_IdleTimeout :: int
  hs_MaxHeaderBytes :: nat

definition httpServer :: "bool \<Rightarrow> http_server" where
  "httpServer tcp = \<lparr>hs_tcp = tcp, hs_ReadHeaderTimeout = 5 * 1000000000, hs_IdleTimeout = 120 * 1000000000,
     hs_MaxHeaderBytes = 65536\<rparr>"

definition TCPAddr :: "server \<Rightarrow> listener option" where
  "TCPAddr s = (if TcpListener \<in> set (sr_listeners s) then Some TcpListener else None)"

definition run_servers :: "server \<Rightarrow> (listener \<times> http_server) list" where
  "run_servers s =
     [(UnixListener, httpServer False)]
     @ (case TCPAddr s of None \<Rightarrow> [] | Some ln \<Rightarrow> [(ln, httpServer True)])"

lemma run_servers_tcp: "TcpListener \<in> fst ` set (run_servers s) \<longleftrightarrow> TcpListener \<in> set (sr_listeners s)"
  by (simp add: run_servers_def TCPAddr_def)

text \<open>A request on a listener; \<open>None\<close> when nothing listens there or the client is gone.\<close>

definition serve_request ::
  "config \<Rightarrow> deps \<Rightarrow> bool \<Rightarrow> server \<Rightarrow> listener \<Rightarrow> http_io \<Rightarrow> http_request \<Rightarrow> serve_state \<Rightarrow>
     (writer \<times> serve_state) option" where
  "serve_request cfg d checker s ln io rq st =
     (case map_of (run_servers s) ln of
        None \<Rightarrow> None
      | Some hs \<Rightarrow> handler (served cfg d checker s) (hs_tcp hs) io rq st)"

lemma serve_request_tcp:
  assumes "serve_new cfg d sio = Inr s" and "config_ok cfg" and "c_listen cfg \<noteq> []"
  shows "serve_request cfg d checker s TcpListener io rq st = handler (served cfg d checker s) True io rq st"
  using serve_new_ok(1) [OF assms(1,2)] assms(3)
  by (simp add: serve_request_def run_servers_def TCPAddr_def httpServer_def)

lemma serve_request_handler:
  "serve_request cfg d checker s ln io rq st = Some r \<Longrightarrow>
     \<exists>tcp. handler (served cfg d checker s) tcp io rq st = Some r"
  by (auto simp: serve_request_def split: option.splits)

text \<open>A TCP client needs the token; a client of the socket does not.\<close>

lemma serve_request_unauthorized:
  assumes "ParseFlags args = Inr cfg" and "serve_new cfg d sio = Inr s" and "c_listen cfg \<noteq> []"
    and "\<not> health rq" and "hr_token rq \<noteq> sr_token s"
  shows "serve_request cfg d checker s TcpListener io rq st = Some (unauthorized (served cfg d checker s), st)"
  using serve_request_tcp [OF assms(2) ParseFlags_ok [OF assms(1)] assms(3)]
    handler_unauthorized [OF assms(4), of "served cfg d checker s"] assms(5)
  by (simp add: tokenOK_def served_def)

end
