(* ===== verification/Serve_Warmup.thy ===== *)
theory Serve_Warmup
  imports Serve_Lifecycle Javac_Supervisor
begin

text \<open>
  \<open>Run\<close> together with the resident worker it starts: \<open>startChecker\<close>'s goroutine selects on the
  worker's \<open>Ready\<close> and \<open>Failed\<close> channels, which the supervisor closes.  The two systems run side by
  side (\<open>serve_step\<close>); what the readiness endpoint then promises is \<open>ready_after_jvm\<close> and
  \<open>failed_after_retries\<close>.
\<close>

text \<open>\<open>Ready\<close>, \<open>Failed\<close> and \<open>Err\<close> of the worker.\<close>

definition worker_Ready :: "sup_sys \<Rightarrow> bool" where
  "worker_Ready s = sv_ready s"

definition worker_Failed :: "sup_sys \<Rightarrow> bool" where
  "worker_Failed s = sv_failed s"

definition worker_Err :: "sup_sys \<Rightarrow> (nat \<times> launch_error) option" where
  "worker_Err s = sv_failErr s"

lemmas worker_reads = worker_Ready_def worker_Failed_def worker_Err_def

record serve_sys =
  sw_run :: run_sys
  sw_sup :: sup_sys

text \<open>The supervisor runs from \<open>startChecker\<close> on; \<open>msg\<close> is the text of its error.\<close>

inductive serve_step ::
  "worker_config \<Rightarrow> (nat \<times> launch_error \<Rightarrow> string) \<Rightarrow> bool \<Rightarrow> bool \<Rightarrow> serve_sys \<Rightarrow> serve_sys \<Rightarrow> bool"
  for c msg javac govet where
  sw_run: "run_step javac govet (sw_run s) r \<Longrightarrow>
    rn_jready r = rn_jready (sw_run s) \<or> worker_Ready (sw_sup s) \<Longrightarrow>
    rn_jfailed r = rn_jfailed (sw_run s) \<or>
      worker_Failed (sw_sup s) \<and> rn_jfailed r = map_option msg (worker_Err (sw_sup s)) \<Longrightarrow>
    serve_step c msg javac govet s (s\<lparr>sw_run := r\<rparr>)"
| sw_sup: "rn_watch (sw_run s) \<noteq> NoWatch \<Longrightarrow> sup_step c (sw_sup s) u \<Longrightarrow>
    serve_step c msg javac govet s (s\<lparr>sw_sup := u\<rparr>)"

definition serve_start :: "bool \<Rightarrow> bool \<Rightarrow> serve_sys \<Rightarrow> bool" where
  "serve_start javac govet s \<longleftrightarrow> run_start javac govet (sw_run s) \<and> sup_start (sw_sup s)"

definition serve_inv ::
  "worker_config \<Rightarrow> (nat \<times> launch_error \<Rightarrow> string) \<Rightarrow> bool \<Rightarrow> bool \<Rightarrow> serve_sys \<Rightarrow> bool" where
  "serve_inv c msg javac govet s \<longleftrightarrow>
     run_inv javac govet (sw_run s) \<and> sup_inv c (sw_sup s) \<and>
     (rn_jready (sw_run s) \<longrightarrow> worker_Ready (sw_sup s)) \<and>
     (\<forall>e. rn_jfailed (sw_run s) = Some e \<longrightarrow> (\<exists>x. worker_Err (sw_sup s) = Some x \<and> e = msg x))"

text \<open>A closed channel stays closed, and the error behind \<open>Failed\<close> stays.\<close>

lemma sup_step_ready: "sup_step c s t \<Longrightarrow> worker_Ready s \<Longrightarrow> worker_Ready t"
  by (cases rule: sup_step.cases, assumption) (auto simp: worker_reads sup_ops split: if_splits)

lemma sup_step_err:
  assumes "chan_inv c s" and "sup_step c s t" and "worker_Err s = Some x"
  shows "worker_Err t = Some x"
  using assms(2,1,3)
  by (cases x; cases rule: sup_step.cases) (auto simp: worker_reads sup_ops chan_inv_def split: if_splits)

lemma serve_inv_start: "serve_start javac govet s \<Longrightarrow> serve_inv c msg javac govet s"
  using run_inv_start sup.inv_start [of "sw_sup s" c]
  by (auto simp: serve_start_def serve_inv_def run_start_def)

lemma serve_inv_step:
  assumes "serve_inv c msg javac govet s" and "serve_step c msg javac govet s t"
  shows "serve_inv c msg javac govet t"
  using assms(2,1)
proof (cases rule: serve_step.cases)
  case (sw_run r)
  have "run_inv javac govet r" using assms(1) warmup.inv_step [OF _ sw_run(2)] by (simp add: serve_inv_def)
  then show ?thesis using assms(1) sw_run
    by (cases "worker_Err (sw_sup s)") (auto simp: serve_inv_def)
next
  case (sw_sup u)
  have "chan_inv c (sw_sup s)" using assms(1) by (simp add: serve_inv_def sup_inv_def)
  from sup_step_err [OF this sw_sup(3)] sup_step_ready [OF sw_sup(3)] show ?thesis
    using assms(1) sup.inv_step [OF _ sw_sup(3)] sw_sup(1) by (fastforce simp: serve_inv_def)
qed

interpretation serving: transition_system "serve_start javac govet" "serve_step c msg javac govet"
    "serve_inv c msg javac govet"
  by unfold_locales (fact serve_inv_start, fact serve_inv_step)

section \<open>What readiness means\<close>

lemma serve_inv_warm:
  assumes "serve_inv c msg javac govet s" and "isReady (rn_state (sw_run s))"
  shows "rn_pc (sw_run s) \<noteq> Listening" and "javac \<Longrightarrow> \<exists>g. g \<in> sv_warm (sw_sup s)"
    and "govet \<Longrightarrow> rn_warming (sw_run s) = Warmed"
proof -
  have i: "run_inv javac govet (sw_run s)" "warm_inv (sw_sup s)"
    and r: "rn_jready (sw_run s) \<longrightarrow> sv_ready (sw_sup s)"
    using assms(1) by (simp_all add: serve_inv_def sup_inv_def worker_reads)
  have "rd_pending (rn_state (sw_run s)) = []"
    using i(1) assms(2) by (simp add: run_inv_def rd_inv_def isReady_def)
  with i r show "rn_pc (sw_run s) \<noteq> Listening" "javac \<Longrightarrow> \<exists>g. g \<in> sv_warm (sw_sup s)"
    "govet \<Longrightarrow> rn_warming (sw_run s) = Warmed"
    by (auto simp: run_inv_def run_flow_def warm_inv_def)
qed

lemma serve_inv_failed:
  assumes "serve_inv c msg javac govet s" and "rd_failed (rn_state (sw_run s)) \<noteq> []"
  shows "\<exists>e. worker_Err (sw_sup s) = Some (length (the (wc_backoff c)) + 1, e) \<and>
    rd_failed (rn_state (sw_run s)) = failed_reason (msg (length (the (wc_backoff c)) + 1, e)) \<and>
    over (sv_pc (sw_sup s))"
proof -
  from assms obtain e where e: "rn_jfailed (sw_run s) = Some e" "rd_failed (rn_state (sw_run s)) = failed_reason e"
    by (auto simp: serve_inv_def run_inv_def)
  with assms(1) obtain n x where x: "worker_Err (sw_sup s) = Some (n, x)" "e = msg (n, x)"
    by (fastforce simp: serve_inv_def)
  moreover have "chan_inv c (sw_sup s)" using assms(1) by (simp add: serve_inv_def sup_inv_def)
  ultimately have "n = length (the (wc_backoff c)) + 1" "over (sv_pc (sw_sup s))"
    by (auto simp: chan_inv_def worker_reads)
  with x e show ?thesis by auto
qed

text \<open>While the watcher is there, the supervisor runs on its own.\<close>

lemma sup_lifts:
  assumes "reaches (sup_step c) u v" and "rn_watch r \<noteq> NoWatch"
  shows "reaches (serve_step c msg javac govet) \<lparr>sw_run = r, sw_sup = u\<rparr> \<lparr>sw_run = r, sw_sup = v\<rparr>"
  using assms(1)
proof (induction rule: reaches.induct)
  case (reaches_step s t u)
  have "serve_step c msg javac govet \<lparr>sw_run = r, sw_sup = t\<rparr> (\<lparr>sw_run = r, sw_sup = t\<rparr>\<lparr>sw_sup := u\<rparr>)"
    by (rule sw_sup) (use reaches_step(2) assms(2) in simp_all)
  with reaches_step(3) show ?case by (auto intro: reaches.reaches_step)
qed (rule reaches_refl)

end
