(* ===== verification/Javac_Stdin.thy ===== *)
theory Javac_Stdin
  imports Javac_Process
begin

text \<open>
  \<open>internal/javacworker/worker.go\<close>, the second half of \<open>send\<close>: every request is written to the
  JVM's standard input by a goroutine of its own, which holds \<open>writeMu\<close> for the whole line.  A
  write may be cut anywhere and may fail, which kills the JVM; a pipe whose write failed stays
  broken.  The JVM sees whole requests only (\<open>stdin_lines\<close>).
\<close>

record stdin_sys =
  sd_proc :: process
  sd_waiting :: "(nat \<times> wire_request) list"             \<comment> \<open>goroutines before \<open>writeMu.Lock\<close>\<close>
  sd_writing :: "((nat \<times> wire_request) \<times> nat) option"  \<comment> \<open>the holder and the bytes it has written\<close>
  sd_written :: "(nat \<times> wire_request) list"             \<comment> \<open>requests written whole, in order\<close>
  sd_stream :: string                                   \<comment> \<open>what the pipe has taken\<close>
  sd_broken :: bool

definition line_of :: "nat \<times> wire_request \<Rightarrow> string" where
  "line_of r = request_line (fst r) (snd r)"

inductive stdin_step :: "stdin_sys \<Rightarrow> stdin_sys \<Rightarrow> bool" where
  si_send: "proc_send (sd_proc s) = Some (rid, p) \<Longrightarrow>
    stdin_step s (s\<lparr>sd_proc := p, sd_waiting := sd_waiting s @ [(rid, q)]\<rparr>)"
| si_lock: "sd_writing s = None \<Longrightarrow> sd_waiting s = as @ r # bs \<Longrightarrow>
    stdin_step s (s\<lparr>sd_waiting := as @ bs, sd_writing := Some (r, 0)\<rparr>)"
| si_write: "sd_writing s = Some (r, k) \<Longrightarrow> \<not> sd_broken s \<Longrightarrow> k + n \<le> length (line_of r) \<Longrightarrow>
    stdin_step s (s\<lparr>sd_stream := sd_stream s @ take n (drop k (line_of r)), sd_writing := Some (r, k + n)\<rparr>)"
| si_done: "sd_writing s = Some (r, length (line_of r)) \<Longrightarrow>
    stdin_step s (s\<lparr>sd_writing := None, sd_written := sd_written s @ [r]\<rparr>)"
| si_fail: "sd_writing s = Some (r, k) \<Longrightarrow> k < length (line_of r) \<Longrightarrow>
    stdin_step s (s\<lparr>sd_writing := None, sd_broken := True,
      sd_proc := snd (proc_kill ''request write failed'' (sd_proc s))\<rparr>)"
| si_other: "pr_nextID p = pr_nextID (sd_proc s) \<Longrightarrow> stdin_step s (s\<lparr>sd_proc := p\<rparr>)"

definition stdin_start :: "stdin_sys \<Rightarrow> bool" where
  "stdin_start s \<longleftrightarrow>
     s = \<lparr>sd_proc = spawn_process, sd_waiting = [], sd_writing = None, sd_written = [], sd_stream = [],
          sd_broken = False\<rparr>"

text \<open>The requests that were sent, each in one place.\<close>

definition sent_requests :: "stdin_sys \<Rightarrow> (nat \<times> wire_request) list" where
  "sent_requests s = sd_written s @ (case sd_writing s of None \<Rightarrow> [] | Some (r, k) \<Rightarrow> [r]) @ sd_waiting s"

text \<open>The part of a line at the end of the stream.\<close>

definition partial_line :: "stdin_sys \<Rightarrow> string \<Rightarrow> bool" where
  "partial_line s u \<longleftrightarrow>
     (if sd_broken s then (\<exists>r k. u = take k (line_of r) \<and> k < length (line_of r)) \<and>
        (\<forall>r k. sd_writing s = Some (r, k) \<longrightarrow> k = 0)
      else (case sd_writing s of None \<Rightarrow> u = [] | Some (r, k) \<Rightarrow> u = take k (line_of r) \<and> k \<le> length (line_of r)))"

definition stdin_inv :: "stdin_sys \<Rightarrow> bool" where
  "stdin_inv s \<longleftrightarrow>
     distinct (map fst (sent_requests s)) \<and>
     (\<forall>r \<in> set (sent_requests s). 1 \<le> fst r \<and> fst r \<le> pr_nextID (sd_proc s)) \<and>
     (\<exists>u. sd_stream s = concat (map line_of (sd_written s)) @ u \<and> partial_line s u)"

lemma line_of_text: "\<exists>l. line_of r = l @ [newline] \<and> newline \<notin> set l"
  using request_one_line by (auto simp: line_of_def)

lemma line_of_pos [simp]: "0 < length (line_of r)" "line_of r \<noteq> []"
  using line_of_text [of r] by auto

lemma take_line_plain: "k < length (line_of r) \<Longrightarrow> newline \<notin> set (take k (line_of r))"
  using line_of_text [of r] by (auto dest: in_set_takeD)

lemma stdin_inv_start: "stdin_start s \<Longrightarrow> stdin_inv s"
  by (auto simp: stdin_start_def stdin_inv_def sent_requests_def partial_line_def)

lemma stdin_ids_step:
  assumes "stdin_step s t"
    and "distinct (map fst (sent_requests s))"
    and "\<forall>r \<in> set (sent_requests s). 1 \<le> fst r \<and> fst r \<le> pr_nextID (sd_proc s)"
  shows "distinct (map fst (sent_requests t)) \<and>
    (\<forall>r \<in> set (sent_requests t). 1 \<le> fst r \<and> fst r \<le> pr_nextID (sd_proc t))"
  using assms(1)
proof (cases rule: stdin_step.cases)
  case (si_send rid p q)
  then have rid: "rid = pr_nextID (sd_proc s) + 1" "pr_nextID p = rid"
    by (auto simp: proc_send_def Let_def split: if_splits)
  then have sent: "sent_requests t = sent_requests s @ [(rid, q)]" using si_send by (simp add: sent_requests_def)
  have "rid \<notin> fst ` set (sent_requests s)" using assms(3) rid(1) by fastforce
  moreover have "pr_nextID (sd_proc t) = rid" using si_send(1) rid(2) by simp
  ultimately show ?thesis using assms(2,3) rid(1) by (fastforce simp: sent)
next
  case (si_lock as r bs)
  then have "sent_requests s = sd_written s @ as @ r # bs" "sent_requests t = sd_written s @ r # as @ bs"
    "pr_nextID (sd_proc t) = pr_nextID (sd_proc s)"
    by (simp_all add: sent_requests_def)
  with assms(2,3) show ?thesis by auto
qed (use assms(2,3) in \<open>auto simp: sent_requests_def proc_kill_def\<close>)

lemma stdin_stream_step:
  assumes "stdin_step s t" and "sd_stream s = concat (map line_of (sd_written s)) @ u" and "partial_line s u"
  shows "\<exists>v. sd_stream t = concat (map line_of (sd_written t)) @ v \<and> partial_line t v"
  using assms(1)
proof (cases rule: stdin_step.cases)
  case (si_write r k n)
  with assms(3) have u: "u = take k (line_of r)" by (simp add: partial_line_def)
  have "take (k + n) (line_of r) = take k (line_of r) @ take n (drop k (line_of r))" by (simp add: take_add)
  then show ?thesis using si_write assms(2) u
    by (intro exI [of _ "take (k + n) (line_of r)"]) (simp add: partial_line_def)
next
  case (si_done r)
  have "\<not> sd_broken s" using assms(3) si_done(2) by (auto simp: partial_line_def)
  with si_done assms(2,3) show ?thesis by (intro exI [of _ "[]"]) (simp add: partial_line_def)
next
  case (si_fail r k)
  have "\<exists>r k. u = take k (line_of r) \<and> k < length (line_of r)"
    using assms(3) si_fail(2,3) by (auto simp: partial_line_def simp del: split_paired_Ex split: if_splits)
  with si_fail(1) assms(2) show ?thesis by (intro exI [of _ u]) (simp add: partial_line_def)
qed (use assms(2,3) in \<open>auto simp: partial_line_def split: if_splits\<close>)

lemma stdin_inv_step: "stdin_inv s \<Longrightarrow> stdin_step s t \<Longrightarrow> stdin_inv t"
  unfolding stdin_inv_def using stdin_ids_step stdin_stream_step by metis

interpretation stdin: transition_system stdin_start stdin_step stdin_inv
  by unfold_locales (fact stdin_inv_start, fact stdin_inv_step)

section \<open>What the JVM reads\<close>

lemma log_lines_requests:
  "newline \<notin> set u \<Longrightarrow>
     log_lines (concat (map line_of rs) @ u) = (map (\<lambda>r. butlast (line_of r)) rs, u)"
proof (induction rs)
  case (Cons r rs)
  obtain l where l: "line_of r = l @ [newline]" "newline \<notin> set l" using line_of_text by blast
  from log_lines_line [OF l(2), of "concat (map line_of rs) @ u"] Cons l show ?case by simp
qed (simp add: log_lines_plain)

text \<open>Every complete line on the stream is one whole request, and no request is there twice.\<close>

lemma stdin_lines:
  assumes "stdin_inv s"
  shows "\<exists>rs. fst (log_lines (sd_stream s)) = map (\<lambda>r. butlast (line_of r)) rs \<and> distinct (map fst rs) \<and>
    (\<forall>r \<in> set rs. 1 \<le> fst r \<and> fst r \<le> pr_nextID (sd_proc s)) \<and> (\<exists>more. rs = sd_written s @ more)"
proof -
  from assms obtain u where u: "sd_stream s = concat (map line_of (sd_written s)) @ u" "partial_line s u"
    and ids: "distinct (map fst (sent_requests s))"
      "\<forall>r \<in> set (sent_requests s). 1 \<le> fst r \<and> fst r \<le> pr_nextID (sd_proc s)"
    by (auto simp: stdin_inv_def)
  consider (plain) "newline \<notin> set u" | (whole) r where "sd_writing s = Some (r, length (line_of r))" "u = line_of r"
  proof (cases "newline \<in> set u")
    case True
    then have "\<not> sd_broken s" using u(2) take_line_plain by (auto simp: partial_line_def)
    with True u(2) obtain r k where k: "sd_writing s = Some (r, k)" "u = take k (line_of r)" "k \<le> length (line_of r)"
      by (auto simp: partial_line_def split: option.splits)
    with True take_line_plain have "k = length (line_of r)" by (metis le_neq_implies_less)
    with k that(2) show ?thesis by simp
  qed (rule that(1))
  then show ?thesis
  proof cases
    case plain
    from log_lines_requests [OF this] u(1) ids show ?thesis
      by (intro exI [of _ "sd_written s"]) (auto simp: sent_requests_def)
  next
    case whole
    have "sd_stream s = concat (map line_of (sd_written s @ [r])) @ []" using u(1) whole(2) by simp
    with log_lines_requests [of "[]" "sd_written s @ [r]"] ids whole(1) show ?thesis
      by (intro exI [of _ "sd_written s @ [r]"]) (auto simp: sent_requests_def)
  qed
qed

text \<open>No goroutine is stuck: the holder can go on, and once the lock is free any waiting one can take it.\<close>

lemma stdin_live:
  assumes "sd_writing s = Some (r, k)" and "k \<le> length (line_of r)"
  shows "\<exists>t. reaches stdin_step s t \<and> sd_writing t = None \<and> sd_waiting t = sd_waiting s"
proof -
  let ?done = "\<lambda>s. s\<lparr>sd_writing := None, sd_written := sd_written s @ [r]\<rparr>"
  consider (whole) "k = length (line_of r)" | (broken) "k < length (line_of r)" "sd_broken s"
    | (go) "k < length (line_of r)" "\<not> sd_broken s"
    using assms(2) by linarith
  then show ?thesis
  proof cases
    case whole
    then have "stdin_step s (?done s)" using assms(1) by (intro si_done) simp
    then have "reaches stdin_step s (?done s)" by (rule reaches_single)
    then show ?thesis by (intro exI [of _ "?done s"]) simp
  next
    case broken
    let ?t = "s\<lparr>sd_writing := None, sd_broken := True,
      sd_proc := snd (proc_kill ''request write failed'' (sd_proc s))\<rparr>"
    have "stdin_step s ?t" by (rule si_fail [OF assms(1) broken(1)])
    then have "reaches stdin_step s ?t" by (rule reaches_single)
    then show ?thesis by (intro exI [of _ ?t]) simp
  next
    case go
    let ?t = "s\<lparr>sd_stream := sd_stream s @ take (length (line_of r) - k) (drop k (line_of r)),
      sd_writing := Some (r, k + (length (line_of r) - k))\<rparr>"
    have "stdin_step s ?t" by (rule si_write [OF assms(1) go(2)]) (use go(1) in simp)
    then have "reaches stdin_step s ?t" by (rule reaches_single)
    moreover have "stdin_step ?t (?done ?t)" using go(1) by (intro si_done) simp
    ultimately have "reaches stdin_step s (?done ?t)" by (rule reaches_step)
    then show ?thesis by (intro exI [of _ "?done ?t"]) simp
  qed
qed

end
