(* ===== verification/Sample_Serving.thy ===== *)
theory Sample_Serving
  imports Sample_Runs Sample_Javac Serve_System Serve_Warmup Javac_Stdin
begin

text \<open>
  Concrete runs across components: a server whose worker passes its warm-up, two requests on the
  JVM's standard input, and a server built from flags, manifest and token file.
\<close>

section \<open>A server and its worker\<close>

definition sw_ready :: serve_sys where
  "sw_ready = \<lparr>sw_run = run_warm_state, sw_sup = sv_serving\<rparr>"

lemma sw_start: "serve_start True False \<lparr>sw_run = run_s0, sw_sup = Start_supervise\<rparr>"
  by (simp add: serve_start_def run_s0_start sup_start_start)

lemma sw_run_ready:
  "reaches (serve_step c msg True False) \<lparr>sw_run = run_s0, sw_sup = Start_supervise\<rparr> sw_ready"
proof -
  let ?r = "\<lparr>rd_pending = [componentJavac], rd_ready = False, rd_failed = []\<rparr>"
  let ?s = "\<lambda>pc w j. \<lparr>rn_pc = pc, rn_state = ?r, rn_watch = w, rn_warming = NoWarm, rn_jready = j,
      rn_jfailed = None, rn_base = False\<rparr>"
  let ?w = "\<lambda>r u. \<lparr>sw_run = r, sw_sup = u\<rparr>"
  have lift: "serve_step c msg True False (?w r u) (?w r' u)"
    if "run_step True False r r'" "rn_jready r' = rn_jready r \<or> sv_ready u" "rn_jfailed r' = rn_jfailed r" for r r' u
    using serve_step.sw_run [of True False "?w r u" r' msg c] that by (simp add: worker_reads)
  have 1: "serve_step c msg True False (?w run_s0 Start_supervise) (?w (?s WorkersDone NoWatch False) Start_supervise)"
    using run_step.run_workers [of run_s0 True False]
    by (intro lift) (simp_all add: run_s0_def newReadiness_def run_components_def rd_done_def)
  have 2: "serve_step c msg True False (?w (?s WorkersDone NoWatch False) Start_supervise)
      (?w (?s CheckerStarted AwaitReady False) Start_supervise)"
    using run_step.run_checker [of "?s WorkersDone NoWatch False" True False] by (intro lift) simp_all
  have 3: "serve_step c msg True False (?w (?s CheckerStarted AwaitReady False) Start_supervise)
      (?w (?s Serving AwaitReady False) Start_supervise)"
    using run_step.run_warm [of "?s CheckerStarted AwaitReady False" True False] by (intro lift) simp_all
  have 4: "serve_step c msg True False (?w (?s Serving AwaitReady False) sv_serving)
      (?w (?s Serving AwaitReady True) sv_serving)"
    using run_step.jvm_ready [of "?s Serving AwaitReady False" True False]
    by (intro lift) (simp_all add: sv_serving_def)
  have 5: "serve_step c msg True False (?w (?s Serving AwaitReady True) sv_serving) sw_ready"
    unfolding sw_ready_def
    using run_step.watch_ready [of "?s Serving AwaitReady True" True False]
    by (intro lift) (simp_all add: run_warm_state_def rd_done_def)
  have sup: "reaches (serve_step c msg True False) (?w (?s Serving AwaitReady False) Start_supervise)
      (?w (?s Serving AwaitReady False) sv_serving)"
    by (rule sup_lifts [OF sv_run_serving]) simp
  have "reaches (serve_step c msg True False) (?w run_s0 Start_supervise)
      (?w (?s Serving AwaitReady False) Start_supervise)"
    using 1 2 3 by (meson reaches_refl reaches_step)
  from reaches_trans [OF sup this] 4 5 show ?thesis by (meson reaches_step)
qed

section \<open>Two requests on standard input\<close>

definition wq_sample :: "nat \<Rightarrow> wire_request" where
  "wq_sample n = \<lparr>wq_release = ''11'', wq_dir = ''/w'', wq_files = [replicate n CHR ''a'']\<rparr>"

definition stdin0 :: stdin_sys where
  "stdin0 = \<lparr>sd_proc = spawn_process, sd_waiting = [], sd_writing = None, sd_written = [], sd_stream = [],
     sd_broken = False\<rparr>"

text \<open>The second request overtakes the first, which is being written.\<close>

definition stdin2 :: stdin_sys where
  "stdin2 = \<lparr>sd_proc = spawn_process\<lparr>pr_nextID := 2, pr_pending := [2, 1]\<rparr>, sd_waiting = [],
     sd_writing = Some ((1, wq_sample 1), 4), sd_written = [(2, wq_sample 2)],
     sd_stream = line_of (2, wq_sample 2) @ take 4 (line_of (1, wq_sample 1)), sd_broken = False\<rparr>"

lemma stdin_run: "reaches stdin_step stdin0 stdin2"
proof -
  let ?a = "(1::nat, wq_sample 1)" and ?b = "(2::nat, wq_sample 2)"
  let ?p1 = "spawn_process\<lparr>pr_nextID := 1, pr_pending := [1]\<rparr>"
  let ?p2 = "spawn_process\<lparr>pr_nextID := 2, pr_pending := [2, 1]\<rparr>"
  let ?s = "\<lambda>p w wr d st. \<lparr>sd_proc = p, sd_waiting = w, sd_writing = wr, sd_written = d, sd_stream = st,
     sd_broken = False\<rparr>"
  have 1: "stdin_step stdin0 (?s ?p1 [?a] None [] [])"
    using si_send [of stdin0 1 ?p1 "wq_sample 1"]
    by (simp add: stdin0_def proc_send_def spawn_process_def Let_def)
  have 2: "stdin_step (?s ?p1 [?a] None [] []) (?s ?p2 [?a, ?b] None [] [])"
    using si_send [of "?s ?p1 [?a] None [] []" 2 ?p2 "wq_sample 2"]
    by (simp add: proc_send_def spawn_process_def Let_def)
  have 3: "stdin_step (?s ?p2 [?a, ?b] None [] []) (?s ?p2 [?a] (Some (?b, 0)) [] [])"
    using si_lock [of "?s ?p2 [?a, ?b] None [] []" "[?a]" ?b "[]"] by simp
  have 4: "stdin_step (?s ?p2 [?a] (Some (?b, 0)) [] []) (?s ?p2 [?a] (Some (?b, length (line_of ?b))) [] (line_of ?b))"
    using si_write [of "?s ?p2 [?a] (Some (?b, 0)) [] []" ?b 0 "length (line_of ?b)"] by simp
  have 5: "stdin_step (?s ?p2 [?a] (Some (?b, length (line_of ?b))) [] (line_of ?b)) (?s ?p2 [?a] None [?b] (line_of ?b))"
    using si_done [of "?s ?p2 [?a] (Some (?b, length (line_of ?b))) [] (line_of ?b)" ?b] by simp
  have 6: "stdin_step (?s ?p2 [?a] None [?b] (line_of ?b)) (?s ?p2 [] (Some (?a, 0)) [?b] (line_of ?b))"
    using si_lock [of "?s ?p2 [?a] None [?b] (line_of ?b)" "[]" ?a "[]"] by simp
  have "4 \<le> length (line_of ?a)"
    by (simp add: line_of_def request_line_def request_json_def json_string_def)
  then have 7: "stdin_step (?s ?p2 [] (Some (?a, 0)) [?b] (line_of ?b)) stdin2"
    using si_write [of "?s ?p2 [] (Some (?a, 0)) [?b] (line_of ?b)" ?a 0 4] by (simp add: stdin2_def)
  have "reaches stdin_step stdin0 (?s ?p2 [?a] (Some (?b, 0)) [] [])"
    using 1 2 3 by (meson reaches_refl reaches_step)
  then have "reaches stdin_step stdin0 (?s ?p2 [?a] None [?b] (line_of ?b))"
    using 4 5 by (meson reaches_step)
  then show ?thesis using 6 7 by (meson reaches_step)
qed

lemma stdin0_start: "stdin_start stdin0"
  by (simp add: stdin_start_def stdin0_def)

section \<open>A server from its flags\<close>

lemma sample_served: "served sample_config (DefaultDeps sample_registry) True sample_server = sample_conf"
  by (simp add: served_def sample_server_def sample_conf_def sample_lint_server_def DefaultDeps_def)

lemma sample_flags:
  "ParseFlags [''--listen'', '':80'', ''--token-file=/t''] = Inr sample_config"
  by (simp add: ParseFlags_def parse_flags_def sample_config_def flag_defaults_def flag_split_def
      flag_names_def set_flag_def validate_def Let_def maxWorkers_def maxQueue_def DefaultSocket_def
      DefaultWorkers_def DefaultDeadline_def DefaultCacheDir_def DefaultCacheMaxBytes_def
      DefaultWorkDir_def)

end
