(* ===== verification/Spec2Isabelle.thy ===== *)
theory Spec2Isabelle
  imports Sample_Serving
begin

text \<open>
  Verification of \<open>cobe-lint\<close>, a linter for student programs: a command line, a registry of
  language drivers, an HTTP server that lints in sandboxed workspaces, and a resident Java
  compiler behind it.

  \<^bold>\<open>The program and its model.\<close>  Paths are below \<open>src/\<close>; every theory names its sources.

  \<^item> \<open>linter/\<close>: \<open>Findings\<close> is the report schema and the interface every driver implements
    (\<open>finding\<close>, \<open>report\<close>, \<open>linter\<close>; the contract is the locale \<open>lint_driver\<close>); \<open>Tool_Run\<close> is \<open>run.go\<close>
    and \<open>version.go\<close> (\<open>run_context\<close>, \<open>capped_write\<close>, \<open>envWithDefaults\<close>, \<open>NormalizePath\<close>, \<open>ToolVersion\<close>).
  \<^item> \<open>languages/\<close>: \<open>Driver_Clangtidy\<close>, \<open>Driver_Govet\<close>, \<open>Driver_Ruff\<close> and \<open>Driver_Javac\<close> are the
    command lines and parsers, each an interpretation of \<open>lint_driver\<close>; \<open>Language_Registry\<close> is the manifest's
    validation, the construction of the drivers and what the package exports, and \<open>cmd/toolversions\<close>.
    \<open>Report_Json\<close> is the JSON document of a report, its schema and its decoding.
  \<^item> \<open>cmd/cobe-lint\<close> and \<open>internal/manifest\<close>: \<open>Cobe_Cli\<close> and \<open>Manifest_Doc\<close>;
    \<open>internal/dialstdio\<close>: \<open>Dial_Stdio\<close>, a step relation of its two copies.
  \<^item> \<open>internal/serve/cache.go\<close>: \<open>Asset_Names\<close> (names), \<open>Asset_Extract\<close> (the extraction loop on a tree of
    files with faults), \<open>Asset_Staging\<close>, \<open>Asset_Archive\<close> and \<open>Asset_Accept\<close> (what it accepts and leaves on
    disk), \<open>Asset_Budget\<close> (bytes against reservations, the locale \<open>upload_budget\<close>), \<open>Asset_Cache\<close> (the
    cache's operations), \<open>Cache_System\<close> (lints and uploads interleaved), \<open>Key_Locks\<close> (\<open>lockKey\<close>).
  \<^item> \<open>internal/serve/lint.go\<close> and \<open>pool.go\<close>: \<open>Lint_Request\<close> (decoding and validation), \<open>Lint_Pool\<close>
    (admission, slots, holds), \<open>Lint_Workspace\<close> (copying assets, writing the student's file),
    \<open>Lint_Handler\<close> (the endpoint from body to answer), \<open>Redaction\<close>, \<open>Readiness\<close>.
  \<^item> \<open>internal/serve/handlers.go\<close>, \<open>config.go\<close>, \<open>server.go\<close>, \<open>main.go\<close>: \<open>Serve_Handlers\<close> (token, routing,
    endpoints, the response writer), \<open>Serve_Config\<close> (flags), \<open>Serve_Server\<close> (construction, \<open>Run\<close> and its
    background warm-ups), \<open>Serve_Lifecycle\<close> (the Go warm-up, shutdown), \<open>Serve_System\<close> (a constructed server,
    its listeners and what its requests are answered), \<open>Serve_Warmup\<close> (\<open>Run\<close> side by side with the worker's
    supervisor).
  \<^item> \<open>internal/javacworker/worker.go\<close>: \<open>Javac_Wire\<close> (request and reply lines, the bounded line reader, the
    logger of standard error), \<open>Javac_Process\<close> (one JVM with its senders, killers and reader),
    \<open>Javac_Stdin\<close> (the goroutines that write requests), \<open>Javac_Worker\<close> (configuration and one call of \<open>Check\<close>), \<open>Javac_Slots\<close> (concurrent calls),
    \<open>Javac_Supervisor\<close> (\<open>supervise\<close>, \<open>launch\<close>, \<open>Close\<close>).
  \<^item> The standard library as far as it is used: \<open>Go_Strings\<close>, \<open>Go_Path\<close>, \<open>Go_Regexp\<close> (backtracking
    matcher with leftmost-first semantics), \<open>Go_Json\<close> (decoding JSON values into Go values), \<open>Json_Text\<close>
    (encoding, compact and indented), \<open>Json_Parse\<close> (parsing, and that a parsed text gives back the encoded
    value; the locale \<open>json_spacing\<close>), \<open>Go_Numbers\<close> (integers and durations of flags, with the rounding of
    \<open>float64\<close>).  \<open>End_To_End\<close> joins encoder, parser and decoders: the lint answer, the CLI's report, the
    manifest and the worker's lines.  \<open>Lint_Prelude\<close> holds what all share: results as sums, counting lemmas for lists of
    threads, and the locales \<open>transition_system\<close>, \<open>bounded_counter\<close> and \<open>hold_table\<close>.
    \<open>Sample_Runs\<close>, \<open>Sample_Javac\<close> and \<open>Sample_Serving\<close> are concrete inputs and schedules.

  \<^bold>\<open>How code is modelled.\<close>  A struct is a record, a function that returns an error is a sum
  (\<open>Inl\<close> the error), a request that is abandoned or still waits is \<open>None\<close>.  Strings are byte strings.
  \<open>int64\<close> values are integers, wrapped (\<open>wrap64\<close>) where the code can overflow.  A concurrent component is an
  inductive step relation whose steps are the critical sections and channel operations of the code,
  built from the same functions as the sequential model; its invariant is an interpretation of
  \<open>transition_system\<close>.  Unbounded loops are partial functions in the option type (the walk over an entry's
  parents) or functions with a measure (the line reader, the matcher, flags, durations).  Only the JSON parser has
  fuel, one more than the length of the text, and \<open>parse_fuel\<close> shows that more changes nothing.

  \<^bold>\<open>What the lemmas show.\<close>  Assets: an archive is accepted exactly when it is well formed and fits, what it
  leaves on disk is exactly its contents, every byte on disk is reserved, no directory is removed under a reader,
  accounts settle, evictions are least recently used first.  Lints: which requests and filenames are valid,
  that the workspace is the asset set with the student's file over it, that every answer is in the contract's
  table and that counters are balanced.  Worker: one result for every request, at most \<open>Threads\<close> requests on the JVM,
  every slot returns, at most one JVM, no channel closed twice, \<open>Close\<close> ends the supervisor, requests are never
  interleaved on its standard input, and its reports are those of a one-shot run.  Server: the token is never
  shown, an unauthenticated client learns nothing, readiness implies that a JVM passed its warm-up, every valid
  configuration is read back from its flags.  Drivers: printed diagnostics are read back, only reports within the
  schema come out, and what is printed or answered is JSON that decodes to the report.

  \<^bold>\<open>Parameters.\<close>  Third-party YAML decoding (\<open>yaml\<close>); the tools, the JVM, the clock, the network and faults
  of the disk.

  \<^bold>\<open>Not modelled.\<close>  The Java source of the worker, process groups and other system calls, log lines, the
  timing headers, the inside of \<open>net/http\<close>, how random names are drawn, and \<open>emptyDir\<close>, which nothing calls.  Counters of 64 bits that would need 2^64 requests to wrap are natural numbers.
\<close>

section \<open>Assets: extraction and the cache\<close>

text \<open>
  C1: when the disk works and the budget grants every reservation, extraction succeeds exactly for
  a stream that ends properly and whose entries (global headers aside) number at most 10000, are
  directories or regular files with valid names, each named once, no file being used as a directory,
  and whose bytes fit the limit.
\<close>

theorem archive_accepted_iff:
  assumes "env_ok env t0" and "\<And>i. xe_fault env i = no_fault"
    and "\<And>n b. fst (xe_reserve env n b) = None" and "complete_data hs"
  shows "(\<exists>n x. extractAssets env hs e t0 b = Some (Inr n, x)) \<longleftrightarrow>
    e = None \<and> archive_ok (xe_max env) (payload hs)"
  by (rule extractAssets_accepts_iff [OF assms])

theorem archive_accepted_iff_witness:
  "archive_ok 100 (payload sample_archive) \<and>
    \<not> (\<exists>n x. extractAssets sample_env sample_archive (Some RdHeader) sample_tree 0 = Some (Inr n, x))"
proof -
  have c: "complete_data sample_archive" by (simp add: complete_data_def sample_archive_def)
  have iff: "(\<exists>n x. extractAssets sample_env sample_archive e sample_tree 0 = Some (Inr n, x)) \<longleftrightarrow>
      e = None \<and> archive_ok 100 (payload sample_archive)" for e
    using archive_accepted_iff [OF sample_staging _ _ c] by (simp add: sample_env_def)
  have "\<exists>n x. extractAssets sample_env sample_archive None sample_tree 0 = Some (Inr n, x)"
    using sample_extraction by blast
  then show ?thesis using iff by blast
qed

text \<open>
  C2: after a successful extraction the file system is the one before it plus exactly the archive's
  directories (named or implied) and files with their contents under the staging directory; nothing
  outside it changes, and the size returned is the sum of the file sizes.
\<close>

theorem archive_extracted:
  assumes "env_ok env t0" and "extractAssets env hs e t0 b = Some (Inr n, x)"
  shows "n = archive_size (payload hs) \<and>
    ex_tree x = archive_tree (components (xe_dir env)) t0 (payload hs)"
  using extractAssets_success [OF assms] by blast

theorem archive_extracted_witness:
  "\<exists>x. extractAssets sample_env sample_archive None sample_tree 0 = Some (Inr 2, x) \<and>
    2 = archive_size (payload sample_archive) \<and>
    ex_tree x = archive_tree (components (xe_dir sample_env)) sample_tree (payload sample_archive)"
proof -
  obtain x where x: "extractAssets sample_env sample_archive None sample_tree 0 = Some (Inr 2, x)"
    using sample_extraction by blast
  with archive_extracted [OF sample_staging x] show ?thesis by blast
qed



text \<open>
  C4: in every reachable state the directory of an entry that a lint is reading is on disk: no
  eviction, replacement or release removes it before its last reader has released it.
\<close>

theorem readers_keep_directory:
  assumes "cache_start dir M s" and "reaches cache_step s t" and "Reading i \<in> set (cs_pcs t)"
  shows "i \<in> cs_dirs t"
  by (rule reader_has_dir [OF cache.inv_reachable [OF assms(1,2)] assms(3)])

theorem readers_keep_directory_witness: "Reading 0 \<in> set (cs_pcs cache_reading) \<and> 0 \<in> cs_dirs cache_reading"
  using readers_keep_directory [OF cache_s0_start cache_run_reading, of 0] by (simp add: cache_reading_def)

text \<open>
  C5: however an upload of the cache ends, the bytes on disk grew by at most what the upload has
  reserved in the budget.
\<close>

theorem upload_within_reservation:
  assumes "complete_data hs" and "finite (dom (pe_tree pe))"
    and "put_extract pe key staging hs e c = Some (r, x)"
  shows "tree_bytes (ex_tree x) - tree_bytes (pe_tree pe) \<le> snd (ex_budget x)"
  using put_budget.extractAssets_within [OF _ assms(1,2) assms(3) [unfolded put_extract_def]] by simp

theorem upload_within_reservation_witness:
  "\<exists>r x. put_extract sample_put ''k'' ''/c'' sample_archive None (newAssetCache ''/c'' 100) = Some (r, x) \<and>
    tree_bytes (ex_tree x) - tree_bytes sample_tree \<le> snd (ex_budget x)"
proof -
  obtain r x where p: "put_extract sample_put ''k'' ''/c'' sample_archive None (newAssetCache ''/c'' 100) = Some (r, x)"
    using extract_loop_returns unfolding put_extract_def extractAssets_def by fast
  moreover have "complete_data sample_archive" by (simp add: complete_data_def sample_archive_def)
  moreover have "pe_tree sample_put = sample_tree" by (simp add: sample_put_def)
  ultimately show ?thesis
    using upload_within_reservation [of sample_archive sample_put "''k''" "''/c''" None] by (auto simp: sample_tree_def)
qed





text \<open>
  C8: extraction returns for every stream, directory and fault; in particular the unbounded loop
  over the parents of an entry ends, because it only runs on names that passed the check.
\<close>

theorem extraction_returns: "\<exists>r x. extractAssets env hs e t b = Some (r, x)"
  using extract_loop_returns [of env hs e "extraction_start t b"] by (auto simp: extractAssets_def)

text \<open>
  C9: of two uploads of one key never both are past the key's lock, in any interleaving: the
  reference count keeps a lock object in the map while anybody refers to it.
\<close>

theorem uploads_serialised:
  assumes "lock_start s" and "reaches lock_step s t"
    and "j < length (ls_pcs t)" and "k < length (ls_pcs t)"
    and "ls_pcs t ! j = LHolding key i" and "ls_pcs t ! k = LHolding key i'"
  shows "j = k"
  by (rule one_holder [OF locks.inv_reachable [OF assms(1,2)] assms(3-)])

theorem uploads_serialised_witness: "ls_pcs lock_s2 ! 0 = LHolding ''k'' 0 \<and> (0::nat) = 0"
  using uploads_serialised [OF lock_s0_start lock_run, of 0 0 "''k''" 0 0] by (simp add: lock_s2_def)

section \<open>The lint endpoint\<close>

text \<open>
  C10: the text that \<open>cobe-lint lint\<close> prints for a language of the manifest parses, as a document of the
  contract's schema (the required members, each with its type, and a severity of the contract), and
  decodes to the report of that language's run, every byte that is not UTF-8 replaced.
\<close>

theorem cli_output_conforms:
  assumes "parse_manifest y tc data = Inr (ce_reg env)" and "cr_stdout (cli_lint env k files) = Some doc"
  shows "\<exists>l r. l \<in> set (All_languages (ce_reg env)) \<and> l_language l = k \<and>
    run_tool l files (ce_tool env l files) = Inr r \<and>
    json_parse doc = Some (json_clean (report_json r)) \<and> report_typed (json_clean (report_json r)) \<and>
    (report_sized r \<longrightarrow> dec_report zero_report (json_clean (report_json r)) = Some (report_clean r))"
  using cli_report_document [OF assms(2)] parse_manifest_Inr [OF assms(1)] by (auto simp: registry_reads)

theorem cli_output_conforms_witness:
  "cr_stdout (cli_lint sample_cli ''java11'' [''Main.java'']) = Some sample_output \<and>
    (\<exists>j. json_parse sample_output = Some j \<and> report_typed j)"
proof -
  have "ce_reg sample_cli = sample_registry" by (simp add: sample_cli_def)
  with cli_output_conforms [OF _ sample_cli_output] sample_manifest sample_cli_output
  show ?thesis by metis
qed

text \<open>
  C11: whatever JSON a client sends, a body that is accepted yields a job for a registered linter
  whose filename, code size, asset reference and finding cap are all within the contract's limits.
\<close>

theorem lint_request_validated:
  assumes "decodeLint linters body = Inr job"
  shows "job_ok linters job"
  by (rule decodeLint_Inr [OF assms])

theorem lint_request_validated_witness: "job_ok (ls_linters sample_lint_server) sample_job"
  by (rule lint_request_validated [OF sample_decode])

text \<open>
  C12: a filename is accepted exactly when it is a plain relative path (no empty, \<open>.\<close> or \<open>..\<close>
  segment, hence inside the workspace) of at most 255 bytes without control characters or
  backslashes, that starts with neither a slash nor a dash nor a reserved directory.
\<close>

theorem filename_accepted_iff: "checkFilename name = None \<longleftrightarrow> filename_ok name"
  by (rule checkFilename_iff)



text \<open>
  C14: a server built by \<open>New\<close> from the embedded manifest answers a lint with a report only for a valid job;
  the body is the redaction of a document of at most 8 MiB that parses, as a document of the
  contract's schema, to exactly the capped report of that lint.
\<close>

theorem lint_answer_conforms:
  assumes "parse_manifest y tc data = Inr reg" and "serve_new cfg (DefaultDeps reg) sio = Inr srv"
    and "sv = sc_lint (served cfg (DefaultDeps reg) checker srv)"
    and "handleLint sv io st p c = Some (AnswerReport out, p', c')"
  shows "\<exists>job rep doc. job_ok (ls_linters sv) job \<and> lint sv io job c = (Inr rep, c') \<and>
    out = redact (ls_redacts sv) doc \<and> length doc \<le> maxResponseBytes \<and>
    json_parse doc = Some (json_clean (report_json (capReport (jb_maxFindings job) rep))) \<and>
    report_typed (json_clean (report_json (capReport (jb_maxFindings job) rep)))"
  using lint_answer_document [OF assms(4)] served_drivers [OF assms(1,2)] assms(3) by simp

theorem lint_answer_conforms_witness:
  "\<exists>doc j. sample_answer = redact [sample_token] doc \<and> json_parse doc = Some j \<and> report_typed j"
proof -
  obtain p' where h: "handleLint sample_lint_server sample_lint_io (ss_state sample_state)
      (ss_pool sample_state) (ss_cache sample_state) = Some (AnswerReport sample_answer, p', ss_cache sample_state)"
    using sample_handleLint by blast
  have "sample_lint_server = sc_lint (served sample_config (DefaultDeps sample_registry) True sample_server)"
    by (simp add: sample_served sample_conf_def)
  from lint_answer_conforms [OF sample_manifest sample_serve_new this h] show ?thesis
    by (auto simp: sample_lint_server_def)
qed

text \<open>
  C15: on a working disk, preparing the workspace for an accepted filename fails exactly when an asset is a
  directory of that name or a file where the name needs a directory; otherwise the workspace is the asset set
  with the student's file over it (replacing an asset of the same path) and nothing outside it changes.
\<close>

theorem workspace_prepared:
  assumes "checkFilename name = None" and "abs_dir ws" and "staging_ok (components ws) t"
    and "tree_wf t" and "\<And>r. t (src @ r) \<noteq> None \<Longrightarrow> r \<in> set ks"
  shows "if t (src @ segs name) \<noteq> Some DirN \<and> (\<forall>r \<in> path_dirs (segs name). \<not> is_file (t (src @ r)))
    then fill_workspace (\<lambda>_. no_copy_fault) no_fault t ws (Some (WalkDir t src ks)) name code =
      (None, workspace_of t (components ws) src (segs name) code)
    else fst (fill_workspace (\<lambda>_. no_copy_fault) no_fault t ws (Some (WalkDir t src ks)) name code) \<noteq> None"
proof -
  have "plain_name name" using assms(1) by (simp add: checkFilename_iff filename_ok_def)
  from fill_workspace_set [OF assms(2,3) this assms(4,5), where code = code] show ?thesis
    unfolding code_fits_def .
qed

theorem workspace_prepared_witness:
  "fst (fill_workspace (\<lambda>_. no_copy_fault) no_fault sample_cached ''/w'' (Some sample_walk) ''d/M.java'' ''x'') = None \<and>
    fst (fill_workspace (\<lambda>_. no_copy_fault) no_fault sample_cached ''/w'' (Some sample_walk) ''d/a/M'' ''x'') \<noteq> None"
proof -
  have "checkFilename ''d/M.java'' = None" "checkFilename ''d/a/M'' = None" by code_simp+
  note w = workspace_prepared [OF this(1) sample_ws sample_cached_wf sample_cached_keys, where code = "''x''" and src = "[''c'', ''set'']"]
    workspace_prepared [OF this(2) sample_ws sample_cached_wf sample_cached_keys, where code = "''x''" and src = "[''c'', ''set'']"]
  have s: "segs ''d/M.java'' = [''d'', ''M.java'']" "segs ''d/a/M'' = [''d'', ''a'', ''M'']" by code_simp+
  have p: "path_dirs [''d'', ''M.java''] = {[''d'']}" "[''d'', ''a''] \<in> path_dirs [''d'', ''a'', ''M'']"
    by (force simp: path_dirs_def less_Suc_eq)+
  have v: "sample_cached ([''c'', ''set''] @ [''d'', ''M.java'']) \<noteq> Some DirN"
    "\<not> is_file (sample_cached ([''c'', ''set''] @ [''d'']))" "is_file (sample_cached ([''c'', ''set''] @ [''d'', ''a'']))"
    by (simp_all add: sample_cached_def)
  show ?thesis
  proof
    show "fst (fill_workspace (\<lambda>_. no_copy_fault) no_fault sample_cached ''/w'' (Some sample_walk) ''d/M.java'' ''x'') = None"
      using w(1) v(1,2) unfolding s p(1) sample_walk_def [symmetric] by (simp only: ball_simps simp_thms if_True fst_conv)
    have "\<not> (\<forall>r \<in> path_dirs [''d'', ''a'', ''M'']. \<not> is_file (sample_cached ([''c'', ''set''] @ r)))"
      using p(2) v(3) by blast
    then show "fst (fill_workspace (\<lambda>_. no_copy_fault) no_fault sample_cached ''/w'' (Some sample_walk) ''d/a/M'' ''x'') \<noteq> None"
      using w(2) unfolding s sample_walk_def [symmetric] by (simp only: simp_thms if_False)
  qed
qed

text \<open>
  C16: truncating a UTF-8 string keeps exactly the leading characters that fit into \<open>n\<close> bytes, never
  a part of one.
\<close>

theorem messages_cut_at_runes:
  assumes "list_all rune rs"
  shows "truncateUTF8 (concat rs) n = concat (runes_fitting n rs)"
  by (rule truncate_runes [OF assms])

theorem messages_cut_at_runes_witness:
  "truncateUTF8 [CHR ''a'', CHR 0xC3, CHR 0xA4, CHR ''b''] 2 = ''a''"
  using messages_cut_at_runes [of "[''a'', [CHR 0xC3, CHR 0xA4], ''b'']" 2]
  by (simp add: rune_def rune_start_def)

section \<open>The resident javac worker\<close>



text \<open>
  C18: in every reachable state of concurrent calls of \<open>Check\<close> at most \<open>Threads\<close> requests are on the
  JVM, those whose caller has already been answered included; the slots taken are exactly the
  calls that are not over, and the table of requests in flight holds exactly the tracked ones.
\<close>

theorem worker_requests_bounded:
  assumes "worker_init c s" and "reaches worker_step s t"
  shows "tally on_jvm (wy_calls t) \<le> wc_threads c \<and>
    wk_sem (wy_slots t) = tally (\<lambda>pc. pc \<noteq> CkOver) (wy_calls t) \<and> wk_sem (wy_slots t) \<le> wc_threads c \<and>
    int (length (wk_inFlight (wy_slots t))) = tally (\<lambda>pc. tracks pc \<noteq> None) (wy_calls t)"
  using checks.inv_reachable [OF assms] worker_on_jvm(1) [OF checks.inv_reachable [OF assms]]
  by (auto simp: worker_inv_def)

theorem worker_requests_bounded_witness:
  "tally on_jvm [CkLeft 1] = 1 \<and> wc_threads sample_worker = 1 \<and> tally on_jvm (wy_calls wy_left) \<le> 1"
  using worker_requests_bounded [OF wy0_init wy_run] by (simp add: sample_worker_def on_jvm_def)



text \<open>
  C20: in every interleaving of the supervisor, \<open>Close\<close>, killers and exits, at most one JVM process
  runs, the one that serves has passed its warm-up, no channel is closed twice (which would panic), after
  \<open>Close\<close> only a JVM not yet registered is unkilled, and when \<open>done\<close> is closed no JVM is left running.
\<close>

theorem supervisor_safe:
  assumes "sup_start s" and "reaches (sup_step c) s t"
  shows "\<not> sv_panic t \<and> (\<forall>g h. running (sv_jvm t g) \<and> running (sv_jvm t h) \<longrightarrow> g = h) \<and>
    (\<forall>g. sv_current t = Some g \<longrightarrow> g \<in> sv_warm t) \<and>
    (\<forall>g. sv_isClosed t \<and> sv_jvm t g = JvmAlive \<longrightarrow> sv_pc t = SvSpawned g) \<and>
    (sv_done t \<longrightarrow> (\<forall>g. \<not> running (sv_jvm t g)))"
proof -
  have i: "owner_inv t" "chan_inv c t" "warm_inv t"
    using sup.inv_reachable [OF assms] by (auto simp: sup_inv_def)
  have "\<not> sv_panic t" using i(2) by (simp add: chan_inv_def)
  moreover have "sv_done t \<Longrightarrow> \<not> running (sv_jvm t g)" for g
    using over_no_jvm [OF i(1)] i(2) by (simp add: chan_inv_def)
  moreover have "\<And>g. sv_current t = Some g \<Longrightarrow> g \<in> sv_warm t" by (rule current_warm [OF i(1,3)])
  moreover have "running (sv_jvm t g) \<and> running (sv_jvm t h) \<longrightarrow> g = h" for g h
    using one_jvm [OF i(1), of g h] by blast
  moreover note closed_kills [OF i(1)]
  ultimately show ?thesis by blast
qed

theorem supervisor_safe_witness: "1 \<in> sv_warm sv_serving \<and> \<not> sv_panic sv_closing"
proof
  show "1 \<in> sv_warm sv_serving"
    using supervisor_safe [OF sup_start_start sv_run_serving, THEN conjunct2, THEN conjunct2, THEN conjunct1]
    by (simp add: sv_serving_def)
  show "\<not> sv_panic sv_closing"
    by (rule supervisor_safe [OF sup_start_start sv_run_closing, THEN conjunct1])
qed







text \<open>
  C24: reading a line chunk by chunk through a buffer of any size is the same as reading it from the
  whole stream: the bytes up to the newline, or the errors for a line that is too long, a last
  line without its newline, and the end of the stream.
\<close>

theorem reply_lines_independent_of_buffer:
  assumes "0 < n"
  shows "readLine n maxBytes line s = line_spec maxBytes line s \<and>
    readLine n maxBytes line s = readLine bufferSize maxBytes line s"
  using readLine_spec [OF assms] readLine_spec [of bufferSize] by (simp add: bufferSize_def)

theorem reply_lines_independent_of_buffer_witness:
  "readLine 2 9 [] (''abcde'' @ newline # ''f'') = Inr (''abcde'', ''f'')"
proof -
  have "line_spec 9 [] (''abcde'' @ newline # ''f'') = Inr (''abcde'', ''f'')" by code_simp
  with reply_lines_independent_of_buffer [of 2 9 "[]" "''abcde'' @ newline # ''f''"] show ?thesis by simp
qed

text \<open>
  C25: whatever the release, the directory and the file names contain, a request is one line: a
  reader of the stream gets back exactly its text and leaves the bytes of the next request; and the
  line parses to the request's id, release, directory and files when these are UTF-8.
\<close>

theorem request_framed:
  assumes "0 < n" and "length (request_line rid q) \<le> maxBytes + 1"
  shows "\<exists>l. request_line rid q = l @ [newline] \<and>
    readLine n maxBytes [] (request_line rid q @ rest) = Inr (l, rest) \<and>
    (list_all utf8_valid (wq_release q # wq_dir q # wq_files q) \<longrightarrow> json_parse l = Some (request_json rid q))"
proof -
  let ?l = "json_text True (request_json rid q)"
  have l: "request_line rid q = ?l @ [newline]" "newline \<notin> set ?l"
    using request_one_line [of rid q] by (auto simp: request_line_def)
  with readLine_written [OF assms(1) l(2), of maxBytes rest] assms(2) request_read_back [of q rid]
  show ?thesis by (intro exI [of _ ?l]) simp
qed

theorem request_framed_witness:
  "\<exists>l. readLine 64 999 [] (request_line 1 \<lparr>wq_release = ''11'', wq_dir = ''/w'', wq_files = [[newline]]\<rparr> @ ''x'') =
      Inr (l, ''x'') \<and>
    json_parse l = Some (request_json 1 \<lparr>wq_release = ''11'', wq_dir = ''/w'', wq_files = [[newline]]\<rparr>)"
proof -
  have "length (request_line 1 \<lparr>wq_release = ''11'', wq_dir = ''/w'', wq_files = [[newline]]\<rparr>) \<le> 999 + 1"
    by code_simp
  from request_framed [OF _ this, of 64 "''x''"] show ?thesis by (auto simp: utf8_valid_def newline_def)
qed

text \<open>
  C26: every complete line on the JVM's standard input is one whole request under an id that was issued,
  no request is there twice and those written whole are all there in order, whatever the
  interleaving of the goroutines of \<open>send\<close> and wherever a write is cut or fails.
\<close>

theorem requests_never_interleave:
  assumes "stdin_start s" and "reaches stdin_step s t"
  shows "\<exists>rs. fst (log_lines (sd_stream t)) = map (\<lambda>r. json_text True (request_json (fst r) (snd r))) rs \<and>
    distinct (map fst rs) \<and> (\<forall>r \<in> set rs. 1 \<le> fst r \<and> fst r \<le> pr_nextID (sd_proc t)) \<and>
    (\<exists>us. rs = sd_written t @ us)"
proof -
  have "butlast (line_of r) = json_text True (request_json (fst r) (snd r))" for r
    by (simp add: line_of_def request_line_def)
  with stdin_lines [OF stdin.inv_reachable [OF assms]] show ?thesis by simp
qed

theorem requests_never_interleave_witness:
  "\<exists>rs. fst (log_lines (sd_stream stdin2)) = map (\<lambda>r. json_text True (request_json (fst r) (snd r))) rs \<and>
    (\<exists>us. rs = (2, wq_sample 2) # us)"
  using requests_never_interleave [OF stdin0_start stdin_run] by (auto simp: stdin2_def)

text \<open>
  C27: the resident worker is a drop-in for the one-shot run: a reply line with a report gives the driver
  exactly the outcome (report or failure) of a run that prints that report and exits with 0, and a
  reply line with an error that of a run that exits with 1 and the error on its standard error.
\<close>

theorem resident_same_as_oneshot:
  assumes "0 < rid" and "rid < 2 ^ 64"
  shows "(json_wf (maxNestingDepth - 1) j \<and> j \<noteq> JNull \<longrightarrow>
      (\<exists>r out. decode_reply (json_text html (report_line rid j)) = Some (rid, r) \<and>
        worker_output closed (Replied r) = Inr out \<and>
        jc_parse language (co_stdout out) (co_stderr out) (co_code out) = jc_parse language (marshal j) err 0)) \<and>
    (utf8_valid msg \<longrightarrow>
      (\<exists>r out. decode_reply (json_text html (error_line rid msg)) = Some (rid, r) \<and>
        worker_output closed (Replied r) = Inr out \<and>
        jc_parse language (co_stdout out) (co_stderr out) (co_code out) = jc_parse language stdout msg 1))"
  using resident_reply [OF assms] resident_error [OF assms] by blast

theorem resident_same_as_oneshot_witness:
  "\<exists>r out. decode_reply (json_text False (report_line 7 (sample_worker_json ''bad''))) = Some (7, r) \<and>
    worker_output False (Replied r) = Inr out \<and>
    jc_parse ''java11'' (co_stdout out) (co_stderr out) (co_code out) =
      jc_parse ''java11'' (marshal (sample_worker_json ''bad'')) [] 0"
proof -
  have "parse_number ''3'' = Some (''3'', [])" by code_simp
  then have "json_wf (maxNestingDepth - 1) (sample_worker_json ''bad'') \<and> sample_worker_json ''bad'' \<noteq> JNull"
    by (simp add: sample_worker_json_def maxNestingDepth_def)
  then show ?thesis
    by (rule resident_same_as_oneshot [THEN conjunct1, THEN mp, rotated 2]) simp_all
qed

section \<open>Every request\<close>



text \<open>
  C29: two requests without the token on the TCP listener of a started server, other than health probes,
  get the same answer whatever their paths, methods and bodies, and the server's state is unchanged.
\<close>

theorem unauthenticated_learn_nothing:
  assumes "ParseFlags args = Inr cfg" and "serve_new cfg d sio = Inr s" and "c_listen cfg \<noteq> []"
    and "\<not> health rq" and "\<not> health rq'" and "hr_token rq \<noteq> sr_token s" and "hr_token rq' \<noteq> sr_token s"
  shows "\<exists>w. serve_request cfg d checker s TcpListener io rq st = Some (w, st) \<and>
    serve_request cfg d checker s TcpListener io' rq' st' = Some (w, st') \<and> wr_status w = 401"
  using serve_request_unauthorized [OF assms(1-3)] assms(4-7) unauthorized_status by blast

theorem unauthenticated_learn_nothing_witness:
  "\<exists>w. serve_request sample_config (DefaultDeps sample_registry) True sample_server TcpListener sample_http_io
      (sample_request ''POST'' ''/v1/lint'' []) sample_state = Some (w, sample_state) \<and> wr_status w = 401"
proof -
  have c: "c_listen sample_config \<noteq> []" by (simp add: sample_config_def)
  have rq: "\<not> health (sample_request ''POST'' ''/v1/lint'' [])" "\<not> health (sample_request ''GET'' ''/x'' ''guess'')"
      "hr_token (sample_request ''POST'' ''/v1/lint'' []) \<noteq> sr_token sample_server"
      "hr_token (sample_request ''GET'' ''/x'' ''guess'') \<noteq> sr_token sample_server"
    by (simp_all add: health_def sample_request_def sample_server_def sample_token_def)
  from unauthenticated_learn_nothing [OF sample_flags sample_serve_new c rq] show ?thesis by blast
qed



text \<open>
  C31: a finished request, whatever the endpoint and outcome, leaves the upload slots, the pool's
  counters and holds, and the readiness state as it found them.
\<close>

theorem requests_balance_counters:
  assumes "handler sv tcp io rq st = Some (w, st')" and "holds_fresh (ss_pool st)"
  shows "same_counters st st'"
  by (rule handler_counters [OF assms])

theorem requests_balance_counters_witness:
  "\<exists>w st. sample_upload_call = Some (w, st) \<and> wr_status w = 204 \<and> same_counters sample_state st"
proof -
  obtain w st where "sample_upload_call = Some (w, st)" "wr_status w = 204"
    using sample_upload_call_ok by (auto split: option.splits)
  moreover have "holds_fresh (ss_pool sample_state)"
    by (simp add: holds_fresh_def sample_state_def newPool_def)
  ultimately show ?thesis
    using requests_balance_counters [of sample_conf False sample_http_io
        "sample_request ''PUT'' sample_upload_path []" sample_state w st]
    by (simp add: sample_upload_call_def)
qed

text \<open>
  C32: a configuration that satisfies the contract is parsed back from its flags, integers in decimal and
  the deadline in nanoseconds, whichever way each flag is spelled.
\<close>

theorem flags_read_back:
  assumes "config_ok c" and "config_range c"
  shows "ParseFlags (concat (map (\<lambda>nv. flag_args (form (fst nv)) nv) (config_flags c))) = Inr c"
  by (rule ParseFlags_config [OF assms])

theorem flags_read_back_witness:
  "ParseFlags (concat (map (\<lambda>nv. flag_args (fst nv = ''queue'', fst nv = ''listen'') nv) (config_flags sample_config)))
    = Inr sample_config"
  using ParseFlags_ok [OF sample_flags] ParseFlags_range [OF sample_flags]
  by (rule flags_read_back [of sample_config "\<lambda>n. (n = ''queue'', n = ''listen'')"])

section \<open>Starting up\<close>

text \<open>
  C33: in every interleaving of \<open>Run\<close>, the goroutines it starts and the worker's supervisor, the server is
  ready only if a JVM has answered its warm-up with a report (if Java is served) and the Go warm-up
  has ended (if Go is served); and it reports a failure only once the supervisor has failed one start
  more than its backoffs and is over.
\<close>

theorem ready_only_when_warm:
  assumes "serve_start javac govet s" and "reaches (serve_step c msg javac govet) s t"
  shows "(isReady (rn_state (sw_run t)) \<longrightarrow> rn_pc (sw_run t) \<noteq> Listening \<and>
      (javac \<longrightarrow> (\<exists>g. g \<in> sv_warm (sw_sup t))) \<and> (govet \<longrightarrow> rn_warming (sw_run t) = Warmed)) \<and>
    (rd_failed (rn_state (sw_run t)) \<noteq> [] \<longrightarrow>
      (\<exists>e. worker_Err (sw_sup t) = Some (length (the (wc_backoff c)) + 1, e)) \<and> over (sv_pc (sw_sup t)))"
  using serve_inv_warm serve_inv_failed serving.inv_reachable [OF assms] by metis

theorem ready_only_when_warm_witness:
  "isReady (rn_state (sw_run sw_ready)) \<and> (\<exists>g. g \<in> sv_warm (sw_sup sw_ready))"
proof -
  have "isReady (rn_state (sw_run sw_ready))" by (simp add: sw_ready_def run_warm_state_def isReady_def)
  with ready_only_when_warm [OF sw_start sw_run_ready, of sample_worker] show ?thesis by blast
qed

text \<open>
  C34: flags that parse satisfy every rule of the contract, and a server that starts from them serves
  TCP exactly when \<open>--listen\<close> was given and then has a token of at least 32 bytes which it redacts;
  its pool, upload slots and cache have the configured limits, no workspace and no cached file of an
  earlier process is left, and it is not ready yet.
\<close>

theorem started_server_configured:
  assumes "ParseFlags args = Inr cfg" and "serve_new cfg d io = Inr s"
  shows "config_ok cfg \<and> config_range cfg \<and>
    (TcpListener \<in> fst ` set (run_servers s) \<longleftrightarrow> c_listen cfg \<noteq> []) \<and>
    (c_listen cfg = [] \<or> 32 \<le> length (sr_token s) \<and> sr_token s \<in> set (sr_redacts s)) \<and>
    po_limit (ss_pool (sr_state s)) = c_workers cfg + c_queue cfg \<and>
    ss_uploads_cap (sr_state s) = c_workers cfg \<and> ac_max (ss_cache (sr_state s)) = c_cache_max cfg \<and>
    newWorkspace rnd \<notin> set (snd (prepareDir (si_work io) (\<lambda>name. has_prefix name workspacePrefix))) \<and>
    snd (prepareDir (si_cache io) (\<lambda>_. True)) = [] \<and> \<not> isReady (ss_state (sr_state s))"
  using serve_new_ok [OF assms(2) ParseFlags_ok [OF assms(1)]] serve_new_clears [OF assms(2)]
    ParseFlags_ok [OF assms(1)] ParseFlags_range [OF assms(1)] run_servers_tcp [of s] by blast

theorem started_server_configured_witness:
  "serve_new sample_config (DefaultDeps sample_registry) sample_server_io = Inr sample_server \<and>
    po_limit (ss_pool (sr_state sample_server)) = 8"
  using started_server_configured [OF sample_flags sample_serve_new] sample_serve_new
  by (simp add: sample_config_def flag_defaults_def DefaultWorkers_def)

section \<open>Tools and their output\<close>

text \<open>
  C35: printing a diagnostic as clang-tidy does and matching the line recovers the path, the line,
  the column, the mapped severity, the message and the rule; the backtracking search finds the
  intended split.
\<close>

theorem clang_tidy_line_roundtrip:
  assumes "ct_wellformed p path ln col sev msg" and "list_all not_bracket rule" and "rule \<noteq> []"
  shows "ct_line (ct_print p path ln col sev msg rule) =
    map_option (\<lambda>s. \<lparr>f_path = p # path, f_line = atoi ln, f_column = atoi col, f_end_line = 0,
      f_end_column = 0, f_severity = s, f_rule = rule, f_message = msg\<rparr>) (severityByName sev)"
  by (rule ct_line_print [OF assms])

theorem clang_tidy_line_roundtrip_witness:
  "ct_line (ct_print CHR ''a'' ''.cc'' ''3'' ''9'' ''warning'' ''x: [y]'' ''misc-z'') =
    map_option (\<lambda>s. \<lparr>f_path = ''a.cc'', f_line = atoi ''3'', f_column = atoi ''9'', f_end_line = 0,
      f_end_column = 0, f_severity = s, f_rule = ''misc-z'', f_message = ''x: [y]''\<rparr>)
      (severityByName ''warning'')"
  by (rule clang_tidy_line_roundtrip) code_simp+

text \<open>
  C36: printing a diagnostic as go vet does (with an optional column, behind \<open>vet: \<close> for a
  compile error, between white space) and reading the line recovers its fields; a compile error is
  an error and any other diagnostic a warning.
\<close>

theorem go_vet_line_roundtrip:
  assumes "gv_wellformed p path ln col msg"
    and "trim_space raw = (if compile then ''vet: '' else []) @ gv_print p path ln col msg"
    and "p \<noteq> CHR ''#''" and "\<not> has_prefix (gv_print p path ln col msg) ''vet: ''"
  shows "gv_line raw = Some
    \<lparr>f_path = p # path @ ''.go'', f_line = atoi ln,
     f_column = (case col of None \<Rightarrow> 0 | Some c \<Rightarrow> atoi c), f_end_line = 0, f_end_column = 0,
     f_severity = (if compile then SeverityError else SeverityWarning), f_rule = [],
     f_message = msg\<rparr>"
  by (rule gv_line_print [OF assms])

theorem go_vet_line_roundtrip_witness:
  "gv_line ('' vet: '' @ gv_print CHR ''m'' [] ''7'' (Some ''2'') ''bad'') = Some
    \<lparr>f_path = ''m.go'', f_line = atoi ''7'', f_column = atoi ''2'', f_end_line = 0, f_end_column = 0,
     f_severity = SeverityError, f_rule = [], f_message = ''bad''\<rparr>"
  using go_vet_line_roundtrip [of "CHR ''m''" "[]" "''7''" "Some ''2''" "''bad''"
      "'' vet: '' @ gv_print CHR ''m'' [] ''7'' (Some ''2'') ''bad''" True] gv_sample_trim
  by (simp add: gv_sample_wf gv_sample_vet)

text \<open>
  C37: over any sequence of writes the capped buffer holds exactly the first \<open>m\<close> bytes written,
  and its overflow flag is set exactly when more than \<open>m\<close> were.
\<close>

theorem capped_output:
  assumes "0 \<le> m"
  shows "cb_buf (capped_writes (capped_new m) ps) = take (nat m) (concat ps) \<and>
    (cb_overflow (capped_writes (capped_new m) ps) \<longleftrightarrow> int (length (concat ps)) > m)"
  using capped_new_writes [OF assms] by blast

theorem capped_output_witness:
  "cb_buf (capped_writes (capped_new 3) [''ab'', ''cd'']) = ''abc'' \<and>
    cb_overflow (capped_writes (capped_new 3) [''ab'', ''cd''])"
  using capped_output [of 3 "[''ab'', ''cd'']"] by simp

section \<open>The registry and the command line\<close>


text \<open>
  C39: a client that parses what \<open>cobe-lint manifest\<close> prints, or what the server answers to
  \<open>GET /v1/manifest\<close>, finds for every language of the embedded manifest the same argv prefix; run with
  files after it, the CLI lints those files with that very linter.
\<close>

theorem manifest_command_runs:
  assumes "parse_manifest y tc data = Inr (ce_reg env)" and "l \<in> set (All_languages (ce_reg env))"
    and "files \<noteq> []" and "cr_stdout (cli_run env [''manifest'']) = Some doc"
    and "serve_new cfg (DefaultDeps (ce_reg env)) io = Inr s"
  shows "\<exists>args. advertised doc (l_language l) = Some (BinPath # args) \<and>
    advertised (sr_manifest s) (l_language l) = Some (BinPath # args) \<and>
    cli_run env (args @ files) = cli_lint env (l_language l) files \<and>
    find_language env (l_language l) = Some l"
proof -
  note reg = registry_languages [OF assms(1)]
  have "advertised doc (l_language l) = Some [BinPath, ''lint'', l_language l]"
    using cli_manifest_document [OF reg(2,1) assms(2,4)] by simp
  moreover have "advertised (sr_manifest s) (l_language l) = Some [BinPath, ''lint'', l_language l]"
    using served_manifest [OF assms(5)] reg assms(2) by (simp add: DefaultDeps_def)
  ultimately show ?thesis
    using manifest_command_roundtrip [OF reg(1) assms(2,3)] Build_entry [OF reg(1) assms(2)] by simp
qed

theorem manifest_command_runs_witness:
  "find_language sample_cli ''java11'' = Some sample_linter \<and>
    (\<exists>args. advertised (sr_manifest sample_server) ''java11'' = Some (BinPath # args))"
proof -
  let ?doc = "marshal_indent (JObj (manifest_members (ce_version sample_cli) (ce_all sample_cli)))"
  have out: "cr_stdout (cli_run sample_cli [''manifest'']) = Some ?doc"
    unfolding cli_manifest_text by (simp add: sample_cli_def)
  have reg: "ce_reg sample_cli = sample_registry" by (simp add: sample_cli_def)
  have "sample_linter \<in> set (All_languages sample_registry)" by (simp add: registry_reads sample_registry_def)
  with manifest_command_runs [OF _ _ _ out, unfolded reg, OF sample_manifest _ _ sample_serve_new,
      of sample_linter "[''Main.java'']"]
  show ?thesis by (auto simp: sample_linter_language)
qed



end
